(* ===== verification/Allocator.thy ===== *)
theory Allocator
  imports Prelude
begin

unbundle bit_operations_syntax

text \<open>
  The freeing-bump heap allocator of \<^verbatim>\<open>primitives/allocator/src/freeing_bump.rs\<close>, which the host
  runs over the linear memory of a Wasm runtime. A chunk is an 8 byte header followed by a payload
  whose size is a power of two; fresh chunks are carved off at \<open>bumper\<close>, freed chunks are kept in one
  intrusive singly linked list per order, threaded through the headers.
\<close>

section \<open>Constants and errors\<close>

datatype AllocError = RequestedAllocationTooLarge | AllocatorOutOfSpace | Other string

definition ALIGNMENT :: u32 where "ALIGNMENT = 8"
definition HEADER_SIZE :: u32 where "HEADER_SIZE = 8"
definition N_ORDERS :: nat where "N_ORDERS = 22"
definition MAX_POSSIBLE_ALLOCATION :: u32 where "MAX_POSSIBLE_ALLOCATION = 16777216"
definition MIN_POSSIBLE_ALLOCATION :: u32 where "MIN_POSSIBLE_ALLOCATION = 8"
definition NIL_MARKER :: u32 where "NIL_MARKER = - 1"

lemmas alloc_consts = ALIGNMENT_def HEADER_SIZE_def N_ORDERS_def MAX_POSSIBLE_ALLOCATION_def
  MIN_POSSIBLE_ALLOCATION_def

section \<open>Orders\<close>

text \<open>
  \<open>next_power_of_two\<close> and \<open>trailing_zeros\<close> of \<open>u32\<close>. The first doubles from 1 until the argument
  is reached; past \<open>2 ^ 31\<close> the result does not fit and is 0 in a release build.
\<close>

fun double_until :: "nat \<Rightarrow> nat \<Rightarrow> nat \<Rightarrow> nat" where
  "double_until 0 p n = p"
| "double_until (Suc fuel) p n = (if n \<le> p then p else double_until fuel (2 * p) n)"

definition next_power_of_two :: "u32 \<Rightarrow> u32" where
  "next_power_of_two n = of_nat (double_until 32 1 (unat n))"

fun count_zeros :: "nat \<Rightarrow> nat \<Rightarrow> nat" where
  "count_zeros 0 n = 0"
| "count_zeros (Suc fuel) n = (if odd n then 0 else Suc (count_zeros fuel (n div 2)))"

definition trailing_zeros :: "u32 \<Rightarrow> u32" where
  "trailing_zeros n = of_nat (count_zeros 32 (unat n))"

datatype Order = Order u32

definition Order_from_raw :: "u32 \<Rightarrow> (AllocError, Order) result" where
  "Order_from_raw order =
     (if order < of_nat N_ORDERS then Ok (Order order) else Err (Other ''invalid order''))"

definition Order_from_size :: "u32 \<Rightarrow> (AllocError, Order) result" where
  "Order_from_size sz =
     (if sz > MAX_POSSIBLE_ALLOCATION then Err RequestedAllocationTooLarge
      else
        let clamped_size = (if sz < MIN_POSSIBLE_ALLOCATION then MIN_POSSIBLE_ALLOCATION else sz);
            power_of_two_size = next_power_of_two clamped_size
        in Ok (Order (trailing_zeros power_of_two_size - trailing_zeros MIN_POSSIBLE_ALLOCATION)))"

fun Order_into_raw :: "Order \<Rightarrow> u32" where
  "Order_into_raw (Order raw) = raw"

definition Order_size :: "Order \<Rightarrow> u32" where
  "Order_size order = push_bit (unat (Order_into_raw order)) MIN_POSSIBLE_ALLOCATION"

section \<open>Links and headers\<close>

datatype Link = Nil_link | Ptr u32

definition Link_from_raw :: "u32 \<Rightarrow> Link" where
  "Link_from_raw raw = (if raw \<noteq> NIL_MARKER then Ptr raw else Nil_link)"

fun Link_into_raw :: "Link \<Rightarrow> u32" where
  "Link_into_raw Nil_link = NIL_MARKER"
| "Link_into_raw (Ptr ptr) = ptr"

datatype Header = Free Link | Occupied Order

text \<open>The \<open>Memory\<close> trait: the operations an implementor provides.\<close>

record 'm memory =
  read_le_u64 :: "'m \<Rightarrow> u32 \<Rightarrow> (AllocError, u64) result"
  write_le_u64 :: "'m \<Rightarrow> u32 \<Rightarrow> u64 \<Rightarrow> (AllocError, 'm) result"
  mem_size :: "'m \<Rightarrow> (AllocError, u32) result"

definition OCCUPIED_MASK :: u64 where "OCCUPIED_MASK = 0x100000000"

definition Header_decode :: "u64 \<Rightarrow> (AllocError, Header) result" where
  "Header_decode raw_header =
     (let occupied = (raw_header AND OCCUPIED_MASK \<noteq> 0);
          header_data = (ucast raw_header :: u32)
      in if occupied then and_then (Order_from_raw header_data) (\<lambda>order. Ok (Occupied order))
         else Ok (Free (Link_from_raw header_data)))"

definition Header_read_from :: "'m memory \<Rightarrow> 'm \<Rightarrow> u32 \<Rightarrow> (AllocError, Header) result" where
  "Header_read_from M mem header_ptr = and_then (read_le_u64 M mem header_ptr) Header_decode"

fun Header_encode :: "Header \<Rightarrow> u64" where
  "Header_encode (Occupied order) = ucast (Order_into_raw order) OR OCCUPIED_MASK"
| "Header_encode (Free link) = ucast (Link_into_raw link) OR 0"

definition Header_write_into :: "'m memory \<Rightarrow> Header \<Rightarrow> 'm \<Rightarrow> u32 \<Rightarrow> (AllocError, 'm) result" where
  "Header_write_into M header mem header_ptr = write_le_u64 M mem header_ptr (Header_encode header)"

fun into_occupied :: "Header \<Rightarrow> Order option" where
  "into_occupied (Occupied order) = Some order"
| "into_occupied (Free link) = None"

fun into_free :: "Header \<Rightarrow> Link option" where
  "into_free (Free link) = Some link"
| "into_free (Occupied order) = None"

section \<open>The allocator\<close>

text \<open>\<open>heads\<close> is the array of \<open>FreeLists\<close>, indexed by the raw order.\<close>

record allocator =
  bumper :: u32
  heads :: "Link list"
  total_size :: u32
  poisoned :: bool

definition free_lists_get :: "Link list \<Rightarrow> Order \<Rightarrow> (AllocError, Link) result" where
  "free_lists_get hs order =
     (let i = unat (Order_into_raw order) in if i < length hs then Ok (hs ! i) else Panic)"

definition free_lists_set :: "Link list \<Rightarrow> Order \<Rightarrow> Link \<Rightarrow> Link list" where
  "free_lists_set hs order link = hs[unat (Order_into_raw order) := link]"

definition new_allocator :: "u32 \<Rightarrow> allocator" where
  "new_allocator heap_base =
     \<lparr>bumper = (heap_base + ALIGNMENT - 1) div ALIGNMENT * ALIGNMENT,
      heads = replicate N_ORDERS Nil_link,
      total_size = 0,
      poisoned = False\<rparr>"

definition bump :: "u32 \<Rightarrow> u32 \<Rightarrow> u32 \<Rightarrow> u32 \<times> (AllocError, u32) result" where
  "bump bmp sz heap_end =
     (if bmp + sz > heap_end then (bmp, Err AllocatorOutOfSpace) else (bmp + sz, Ok bmp))"

text \<open>
  The \<open>match\<close> of \<open>allocate\<close>: the header comes from the free list of the order, or from the bump
  allocator when that list is empty.
\<close>

definition take_header :: "'m memory \<Rightarrow> allocator \<Rightarrow> 'm \<Rightarrow> Order \<Rightarrow> allocator \<times> (AllocError, u32) result" where
  "take_header M a mem order =
     (case free_lists_get (heads a) order of
        Panic \<Rightarrow> (a, Panic)
      | Err e \<Rightarrow> (a, Err e)
      | Ok (Ptr header_ptr) \<Rightarrow>
          (case mem_size M mem of
             Panic \<Rightarrow> (a, Panic)
           | Err e \<Rightarrow> (a, Err e)
           | Ok sz \<Rightarrow>
               if \<not> header_ptr + Order_size order + HEADER_SIZE \<le> sz then (a, Panic)
               else
                 (case and_then (Header_read_from M mem header_ptr)
                     (\<lambda>h. ok_or (Other ''free list points to a occupied header'') (into_free h)) of
                    Panic \<Rightarrow> (a, Panic)
                  | Err e \<Rightarrow> (a, Err e)
                  | Ok next_free \<Rightarrow>
                      (a\<lparr>heads := free_lists_set (heads a) order next_free\<rparr>, Ok header_ptr)))
      | Ok Nil_link \<Rightarrow>
          (case mem_size M mem of
             Panic \<Rightarrow> (a, Panic)
           | Err e \<Rightarrow> (a, Err e)
           | Ok sz \<Rightarrow>
               (let (b, r) = bump (bumper a) (Order_size order + HEADER_SIZE) sz
                in (a\<lparr>bumper := b\<rparr>, r))))"

text \<open>
  \<open>PoisonBomb\<close>: every way out of \<open>allocate\<close> and \<open>deallocate\<close> that does not reach \<open>disarm\<close> drops
  the guard, which sets \<open>poisoned\<close>; that includes unwinding from a panic.
\<close>

definition detonate :: "allocator \<Rightarrow> allocator" where
  "detonate a = a\<lparr>poisoned := True\<rparr>"

definition allocate :: "'m memory \<Rightarrow> allocator \<Rightarrow> 'm \<Rightarrow> u32 \<Rightarrow> allocator \<times> 'm \<times> (AllocError, u32) result" where
  "allocate M a mem sz =
     (if poisoned a then (a, mem, Err (Other ''the allocator has been poisoned''))
      else case Order_from_size sz of
        Panic \<Rightarrow> (detonate a, mem, Panic)
      | Err e \<Rightarrow> (detonate a, mem, Err e)
      | Ok order \<Rightarrow>
          (case take_header M a mem order of
             (a1, Panic) \<Rightarrow> (detonate a1, mem, Panic)
           | (a1, Err e) \<Rightarrow> (detonate a1, mem, Err e)
           | (a1, Ok header_ptr) \<Rightarrow>
               (case Header_write_into M (Occupied order) mem header_ptr of
                  Panic \<Rightarrow> (detonate a1, mem, Panic)
                | Err e \<Rightarrow> (detonate a1, mem, Err e)
                | Ok mem1 \<Rightarrow>
                    (a1\<lparr>total_size := total_size a1 + (Order_size order + HEADER_SIZE)\<rparr>, mem1,
                     Ok (header_ptr + HEADER_SIZE)))))"

definition checked_sub_u32 :: "u32 \<Rightarrow> u32 \<Rightarrow> u32 option" where
  "checked_sub_u32 x y = (if y \<le> x then Some (x - y) else None)"

definition deallocate :: "'m memory \<Rightarrow> allocator \<Rightarrow> 'm \<Rightarrow> u32 \<Rightarrow> allocator \<times> 'm \<times> (AllocError, unit) result" where
  "deallocate M a mem ptr =
     (if poisoned a then (a, mem, Err (Other ''the allocator has been poisoned''))
      else case ok_or (Other ''Invalid pointer for deallocation'') (checked_sub_u32 ptr HEADER_SIZE) of
        Panic \<Rightarrow> (detonate a, mem, Panic)
      | Err e \<Rightarrow> (detonate a, mem, Err e)
      | Ok header_ptr \<Rightarrow>
          (case and_then (Header_read_from M mem header_ptr)
              (\<lambda>h. ok_or (Other ''the allocation points to an empty header'') (into_occupied h)) of
             Panic \<Rightarrow> (detonate a, mem, Panic)
           | Err e \<Rightarrow> (detonate a, mem, Err e)
           | Ok order \<Rightarrow>
               (case free_lists_get (heads a) order of
                  Panic \<Rightarrow> (detonate a, mem, Panic)
                | Err e \<Rightarrow> (detonate a, mem, Err e)
                | Ok prev_head \<Rightarrow>
                    (let a1 = a\<lparr>heads := free_lists_set (heads a) order (Ptr header_ptr)\<rparr>
                     in case Header_write_into M (Free prev_head) mem header_ptr of
                          Panic \<Rightarrow> (detonate a1, mem, Panic)
                        | Err e \<Rightarrow> (detonate a1, mem, Err e)
                        | Ok mem1 \<Rightarrow>
                            (case checked_sub_u32 (total_size a1) (Order_size order + HEADER_SIZE) of
                               None \<Rightarrow> (detonate a1, mem1,
                                 Err (Other ''Unable to subtract from total heap size without overflow''))
                             | Some t \<Rightarrow> (a1\<lparr>total_size := t\<rparr>, mem1, Ok ()))))))"

section \<open>Byte slices as memory\<close>

definition heap_range :: "u32 \<Rightarrow> u32 \<Rightarrow> nat \<Rightarrow> (nat \<times> nat) option" where
  "heap_range offset len heap_len =
     (if unat offset + unat len < 2 ^ 32 then
        (let start = unat offset; end = unat (offset + len)
         in if end \<le> heap_len then Some (start, end) else None)
      else None)"

definition to_le_bytes :: "u64 \<Rightarrow> u8 list" where
  "to_le_bytes v = map (\<lambda>i. ucast (drop_bit (8 * i) v)) [0..<8]"

fun from_le_bytes :: "u8 list \<Rightarrow> u64" where
  "from_le_bytes [] = 0"
| "from_le_bytes (b # bs) = ucast b OR push_bit 8 (from_le_bytes bs)"

definition slice_read :: "u8 list \<Rightarrow> u32 \<Rightarrow> (AllocError, u64) result" where
  "slice_read bytes ptr =
     (case heap_range ptr 8 (length bytes) of
        None \<Rightarrow> Err (Other ''read out of heap bounds'')
      | Some (start, end) \<Rightarrow> Ok (from_le_bytes (take (end - start) (drop start bytes))))"

definition slice_write :: "u8 list \<Rightarrow> u32 \<Rightarrow> u64 \<Rightarrow> (AllocError, u8 list) result" where
  "slice_write bytes ptr val =
     (case heap_range ptr 8 (length bytes) of
        None \<Rightarrow> Err (Other ''write out of heap bounds'')
      | Some (start, end) \<Rightarrow> Ok (take start bytes @ to_le_bytes val @ drop end bytes))"

definition slice_size :: "u8 list \<Rightarrow> (AllocError, u32) result" where
  "slice_size bytes = (if length bytes < 2 ^ 32 then Ok (of_nat (length bytes)) else Panic)"

definition slice_memory :: "u8 list memory" where
  "slice_memory = \<lparr>read_le_u64 = slice_read, write_le_u64 = slice_write, mem_size = slice_size\<rparr>"

end
