(* ===== verification/AllocatorSafety.thy ===== *)
theory AllocatorSafety
  imports Allocator
begin

unbundle bit_operations_syntax

text \<open>
  Correctness of the allocator. The interface to the linear memory is the locale
  \<open>linear_memory\<close>: a write is read back, leaves disjoint words alone and does not resize. The
  invariant \<open>heap_inv\<close> says that the heap below the bumper is tiled by chunks, that each chunk is either
  on the free list of its order or has an occupied header of its order, and that \<open>total_size\<close> counts
  the occupied ones. Both operations keep it, and the client's view follows: live allocations are
  aligned, inside the memory and disjoint.
\<close>

section \<open>Orders and headers\<close>

lemma double_until_spec:
  "\<exists>i. double_until fuel (2 ^ j) n = 2 ^ (j + i) \<and> i \<le> fuel
     \<and> (n \<le> 2 ^ (j + i) \<or> i = fuel) \<and> (i = 0 \<or> 2 ^ (j + i - 1) < n)"
proof (induction fuel arbitrary: j)
  case (Suc fuel)
  show ?case
  proof (cases "n \<le> 2 ^ j")
    case False
    obtain i where "double_until fuel (2 ^ Suc j) n = 2 ^ (Suc j + i)" "i \<le> fuel"
      "n \<le> 2 ^ (Suc j + i) \<or> i = fuel" "i = 0 \<or> 2 ^ (Suc j + i - 1) < n"
      using Suc.IH [of "Suc j"] by blast
    with False show ?thesis
      by (intro exI [of _ "Suc i"]) (auto simp: not_le)
  qed (auto intro: exI [of _ 0])
qed auto

lemma count_zeros_power: "k < fuel \<Longrightarrow> count_zeros fuel (2 ^ k) = k"
proof (induction fuel arbitrary: k)
  case (Suc fuel)
  then show ?case by (cases k) auto
qed simp

lemma OCCUPIED_MASK_bit: "bit OCCUPIED_MASK n \<longleftrightarrow> n = 32"
proof -
  have m: "OCCUPIED_MASK = 2 ^ 32" by (simp add: OCCUPIED_MASK_def)
  show ?thesis unfolding m bit_exp_iff possible_bit_word by auto
qed

lemma trailing_zeros_power: "k < 32 \<Longrightarrow> trailing_zeros (of_nat (2 ^ k)) = of_nat k"
  by (simp add: trailing_zeros_def unat_power_two count_zeros_power)

lemma Order_size_nat:
  assumes "unat r < 22"
  shows "unat (Order_size (Order r)) = 8 * 2 ^ unat r"
proof -
  have "Order_size (Order r) = 2 ^ (3 + unat r)"
    by (simp add: Order_size_def MIN_POSSIBLE_ALLOCATION_def push_bit_eq_mult power_add mult.commute)
  also have "unat \<dots> = 2 ^ (3 + unat r)" using assms by (intro unat_power_two) simp
  finally show ?thesis by (simp add: power_add)
qed

lemma Order_from_size_ok:
  assumes "unat sz \<le> 2 ^ 24"
  obtains r where "Order_from_size sz = Ok (Order r)" "unat r < 22" "unat sz \<le> 8 * 2 ^ unat r"
    "r = 0 \<or> 8 * 2 ^ (unat r - 1) < unat sz"
proof -
  define c where "c = max 8 (unat sz)"
  obtain i where i: "double_until 32 1 c = 2 ^ i" "i \<le> 32" "c \<le> 2 ^ i \<or> i = 32" "i = 0 \<or> 2 ^ (i - 1) < c"
    using double_until_spec [of 32 0 c] by auto
  have c: "8 \<le> c" "c \<le> 2 ^ 24" using assms by (auto simp: c_def)
  have "(2::nat) ^ (i - 1) < 2 ^ 24" if "i \<noteq> 0" using i(4) c that by simp
  then have "i < 25" using power_less_imp_less_exp [of "2::nat" "i - 1" 24] by fastforce
  moreover have "3 \<le> i"
  proof -
    have "(2::nat) ^ 3 \<le> 2 ^ i" using c i \<open>i < 25\<close> by auto
    then show ?thesis using power_le_imp_le_exp [of "2::nat" 3 i] by simp
  qed
  ultimately have rng: "3 \<le> i" "i < 25" "c \<le> 2 ^ i" using i by auto
  have npot: "next_power_of_two (if sz < 8 then 8 else sz) = of_nat (2 ^ i)"
    using i(1) by (auto simp: next_power_of_two_def c_def word_less_nat_alt max_def)
  have t8: "trailing_zeros 8 = 3" using trailing_zeros_power [of 3] by simp
  have "Order_from_size sz = Ok (Order (of_nat i - 3))"
    using assms npot t8 trailing_zeros_power [of i] rng
    by (simp add: Order_from_size_def alloc_consts word_less_nat_alt Let_def cong: if_cong)
  moreover have u: "unat (of_nat i - 3 :: u32) = i - 3"
    using rng by (simp add: unat_sub_nowrap unat_of_nat)
  moreover have p: "(2::nat) ^ i = 8 * 2 ^ (i - 3)"
    using rng power_add [of "2::nat" 3 "i - 3"] by simp
  moreover have "i = 3 \<or> 8 * 2 ^ (i - 3 - 1) < unat sz"
  proof (cases "i = 3")
    case False
    have "(2::nat) ^ (i - 1) = 8 * 2 ^ (i - 3 - 1)"
      using False rng power_add [of "2::nat" 3 "i - 4"] by simp
    moreover have "(1::nat) \<le> 2 ^ (i - 3 - 1)" by simp
    moreover have "2 ^ (i - 1) < max 8 (unat sz)" using i(4) rng by (simp add: c_def)
    ultimately have "8 * 2 ^ (i - 3 - 1) < unat sz" by linarith
    then show ?thesis ..
  qed simp
  ultimately show ?thesis
    using rng by (intro that [of "of_nat i - 3"]) (auto simp: c_def u)
qed

lemma Order_from_size_fits:
  assumes "Order_from_size sz = Ok (Order r)"
  shows "unat r < 22 \<and> unat sz \<le> 8 * 2 ^ unat r"
proof -
  have "unat sz \<le> 2 ^ 24"
    using assms by (auto simp: Order_from_size_def MAX_POSSIBLE_ALLOCATION_def word_less_nat_alt split: if_splits)
  with assms show ?thesis by (metis Order_from_size_ok Order.inject result.inject(1))
qed

lemma decode_encode_Occupied:
  assumes "unat r < 22"
  shows "Header_decode (Header_encode (Occupied (Order r))) = Ok (Occupied (Order r))"
proof -
  have "bit ((ucast r OR OCCUPIED_MASK) AND OCCUPIED_MASK) 32"
    by (simp add: OCCUPIED_MASK_bit bit_simps)
  then have "((ucast r OR OCCUPIED_MASK) AND OCCUPIED_MASK :: u64) \<noteq> 0" by (metis bit_0_eq bot_bool_def bot_apply)
  moreover have "(ucast (ucast r OR OCCUPIED_MASK :: u64) :: u32) = r"
    by (rule bit_word_eqI) (auto simp: OCCUPIED_MASK_bit bit_simps dest: bit_imp_le_length)
  ultimately show ?thesis
    using assms by (simp add: Header_decode_def Order_from_raw_def N_ORDERS_def word_less_nat_alt)
qed

lemma decode_encode_Free:
  assumes "l \<noteq> Ptr NIL_MARKER"
  shows "Header_decode (Header_encode (Free l)) = Ok (Free l)"
proof -
  have "(ucast x :: u64) AND OCCUPIED_MASK = 0" for x :: u32
    by (rule bit_word_eqI) (auto simp: OCCUPIED_MASK_bit bit_simps dest: bit_imp_le_length)
  moreover have "(ucast (ucast x :: u64) :: u32) = x" for x :: u32
    by (rule bit_word_eqI) (auto simp: bit_simps dest: bit_imp_le_length)
  ultimately show ?thesis
    using assms by (cases l) (auto simp: Header_decode_def Link_from_raw_def)
qed

section \<open>The memory interface\<close>

locale linear_memory =
  fixes M :: "'m memory" and wf_mem :: "'m \<Rightarrow> bool"
  assumes size_ok: "wf_mem m \<Longrightarrow> \<exists>n. mem_size M m = Ok n"
    and write_ok: "wf_mem m \<Longrightarrow> mem_size M m = Ok n \<Longrightarrow> unat p + 8 \<le> unat n \<Longrightarrow>
      \<exists>m'. write_le_u64 M m p v = Ok m' \<and> wf_mem m' \<and> mem_size M m' = Ok n
         \<and> read_le_u64 M m' p = Ok v
         \<and> (\<forall>q. unat q + 8 \<le> unat p \<or> unat p + 8 \<le> unat q \<longrightarrow> read_le_u64 M m' q = read_le_u64 M m q)"

section \<open>The heap invariant\<close>

text \<open>
  A chunk is a header address with a raw order. \<open>tiled b cs e\<close>: the chunks \<open>cs\<close>, newest first, fill
  the addresses from \<open>b\<close> up to \<open>e\<close> without gaps.
\<close>

type_synonym chunk = "u32 \<times> u32"

definition chunk_len :: "u32 \<Rightarrow> nat" where
  "chunk_len r = 8 * 2 ^ unat r + 8"

fun tiled :: "nat \<Rightarrow> chunk list \<Rightarrow> nat \<Rightarrow> bool" where
  "tiled b [] e \<longleftrightarrow> e = b"
| "tiled b ((p, r) # cs) e \<longleftrightarrow> unat r < 22 \<and> unat p + chunk_len r = e \<and> tiled b cs (unat p)"

fun free_path :: "'m memory \<Rightarrow> 'm \<Rightarrow> Link \<Rightarrow> u32 list \<Rightarrow> bool" where
  "free_path M m l [] \<longleftrightarrow> l = Nil_link"
| "free_path M m l (p # ps) \<longleftrightarrow>
     l = Ptr p \<and> (\<exists>l'. Header_read_from M m p = Ok (Free l') \<and> free_path M m l' ps)"

definition live :: "chunk list \<Rightarrow> (u32 \<Rightarrow> u32 list) \<Rightarrow> chunk set" where
  "live cs fl = {(p, r). (p, r) \<in> set cs \<and> p \<notin> set (fl r)}"

text \<open>The addresses below which 32-bit address computations cannot wrap.\<close>

definition addr_limit :: nat where "addr_limit = 2 ^ 32 - 2 ^ 24 - 8"

definition heap_inv ::
    "'m memory \<Rightarrow> allocator \<Rightarrow> 'm \<Rightarrow> nat \<Rightarrow> chunk list \<Rightarrow> (u32 \<Rightarrow> u32 list) \<Rightarrow> bool" where
  "heap_inv M a m b cs fl \<longleftrightarrow>
     \<not> poisoned a \<and> length (heads a) = 22 \<and> 8 dvd b \<and> b < addr_limit
   \<and> tiled b cs (unat (bumper a))
   \<and> (\<exists>n. mem_size M m = Ok n \<and> unat n < addr_limit \<and> (cs = [] \<or> unat (bumper a) \<le> unat n))
   \<and> (\<forall>r. unat r < 22 \<longrightarrow> free_path M m (heads a ! unat r) (fl r) \<and> distinct (fl r)
          \<and> (\<forall>p \<in> set (fl r). (p, r) \<in> set cs))
   \<and> (\<forall>(p, r) \<in> live cs fl. Header_read_from M m p = Ok (Occupied (Order r)))
   \<and> unat (total_size a) = (\<Sum>(p, r) \<in> live cs fl. chunk_len r)"

lemma chunk_len_ge: "16 \<le> chunk_len r"
proof -
  have "(1::nat) \<le> 2 ^ unat r" by simp
  then show ?thesis unfolding chunk_len_def by linarith
qed

lemma chunk_len_max: "unat r < 22 \<Longrightarrow> chunk_len r \<le> 2 ^ 24 + 8"
  using power_increasing [of "unat r" 21 "2::nat"] by (simp add: chunk_len_def)

lemma chunk_len_dvd: "8 dvd chunk_len r"
  by (simp add: chunk_len_def)

lemma chunk_len_word:
  assumes "unat r < 22"
  shows "unat (Order_size (Order r) + HEADER_SIZE) = chunk_len r"
proof -
  have "unat (Order_size (Order r)) + unat HEADER_SIZE = chunk_len r"
    using assms by (simp add: Order_size_nat chunk_len_def HEADER_SIZE_def)
  moreover have "chunk_len r < 2 ^ LENGTH(32)" using chunk_len_max [OF assms] by simp
  ultimately show ?thesis by (simp only: unat_add_nowrap)
qed

lemma tiled_le: "tiled b cs e \<Longrightarrow> b \<le> e"
  by (induction b cs e rule: tiled.induct) auto

lemma tiled_bounds:
  "tiled b cs e \<Longrightarrow> (p, r) \<in> set cs \<Longrightarrow> b \<le> unat p \<and> unat p + chunk_len r \<le> e \<and> unat r < 22"
  by (induction b cs e rule: tiled.induct) (fastforce dest: tiled_le)+

lemma tiled_disjoint:
  "tiled b cs e \<Longrightarrow> (p, r) \<in> set cs \<Longrightarrow> (q, s) \<in> set cs \<Longrightarrow> (p, r) \<noteq> (q, s) \<Longrightarrow>
   unat p + chunk_len r \<le> unat q \<or> unat q + chunk_len s \<le> unat p"
  by (induction b cs e rule: tiled.induct) (auto dest: tiled_bounds)

lemma tiled_same_ptr:
  assumes "tiled b cs e" "(p, r) \<in> set cs" "(p, s) \<in> set cs"
  shows "r = s"
  using tiled_disjoint [OF assms] chunk_len_ge [of r] chunk_len_ge [of s] by auto

lemma tiled_headers_apart:
  assumes "tiled b cs e" "(p, r) \<in> set cs" "(q, s) \<in> set cs" "p \<noteq> q"
  shows "unat q + 8 \<le> unat p \<or> unat p + 8 \<le> unat q"
  using tiled_disjoint [OF assms(1-3)] assms(4) chunk_len_ge [of r] chunk_len_ge [of s] by auto

lemma tiled_aligned: "tiled b cs e \<Longrightarrow> 8 dvd b \<Longrightarrow> (p, r) \<in> set cs \<Longrightarrow> 8 dvd unat p"
proof (induction b cs e rule: tiled.induct)
  case (2 b q s cs e)
  have "8 dvd e'" if "tiled b cs e'" for e'
    using that \<open>8 dvd b\<close>
  proof (induction b cs e' rule: tiled.induct)
    case (2 b q s cs e')
    then show ?case using chunk_len_dvd [of s] by (auto intro: dvd_add)
  qed simp
  with 2 show ?case by auto
qed simp

lemma finite_live [simp]: "finite (live cs fl)"
  by (rule finite_subset [of _ "set cs"]) (auto simp: live_def)

lemma tiled_sum: "tiled b cs e \<Longrightarrow> (\<Sum>(p, r) \<in> set cs. chunk_len r) \<le> e - b"
proof (induction b cs e rule: tiled.induct)
  case (2 b p r cs e)
  have "(p, r) \<notin> set cs" using "2.prems" tiled_bounds [of b cs "unat p" p r] chunk_len_ge [of r] by auto
  then show ?case using 2 tiled_le [of b cs "unat p"] by auto
qed simp

lemma live_sum_le: "tiled b cs e \<Longrightarrow> (\<Sum>(p, r) \<in> live cs fl. chunk_len r) \<le> e"
  using tiled_sum [of b cs e] sum_mono2 [of "set cs" "live cs fl" "\<lambda>(p, r). chunk_len r"]
  by (force simp: live_def)

lemma free_path_frame:
  "free_path M m l ps \<Longrightarrow> (\<forall>p \<in> set ps. read_le_u64 M m' p = read_le_u64 M m p) \<Longrightarrow> free_path M m' l ps"
  by (induction ps arbitrary: l) (auto simp: Header_read_from_def)


lemma heap_inv_frame:
  assumes "heap_inv M a m b cs fl" and "\<forall>(p, r) \<in> set cs. read_le_u64 M m' p = read_le_u64 M m p"
    and "mem_size M m = Ok n" and "mem_size M m' = Ok n'" and "unat n \<le> unat n'" and "unat n' < addr_limit"
  shows "heap_inv M a m' b cs fl"
proof -
  have "free_path M m' (heads a ! unat r) (fl r)" if "unat r < 22" for r
    by (rule free_path_frame [of M m]) (use assms(1,2) that in \<open>auto simp: heap_inv_def\<close>)
  moreover have "Header_read_from M m' p = Header_read_from M m p" if "(p, r) \<in> set cs" for p r
    using assms(2) that by (auto simp: Header_read_from_def)
  ultimately show ?thesis
    using assms unfolding heap_inv_def by (auto simp: live_def)
qed

lemma heap_inv_chunk:
  assumes "heap_inv M a m b cs fl" "(p, r) \<in> set cs" "mem_size M m = Ok n"
  shows "unat r < 22" "8 dvd unat p" "b \<le> unat p" "unat p + chunk_len r \<le> unat (bumper a)"
    "unat p + chunk_len r \<le> unat n" "unat n < addr_limit"
  using assms tiled_bounds [of b cs "unat (bumper a)" p r] tiled_aligned [of b cs _ p r]
  by (auto simp: heap_inv_def)

lemma read_header_written:
  assumes "read_le_u64 M m p = Ok (Header_encode h)" "Header_decode (Header_encode h) = Ok h"
  shows "Header_read_from M m p = Ok h"
  using assms by (simp add: Header_read_from_def)

text \<open>
  Turning one chunk: its header is rewritten and it enters or leaves the free list of its order,
  every other header of the heap stays. Both operations of the allocator are instances.
\<close>

lemma heap_inv_turn:
  assumes inv: "heap_inv M a m b cs fl" and mem: "(p, r) \<in> set cs"
    and frame: "\<And>q s. (q, s) \<in> set cs \<Longrightarrow> q \<noteq> p \<Longrightarrow> read_le_u64 M m' q = read_le_u64 M m q"
    and sz: "mem_size M m' = mem_size M m"
    and a': "\<not> poisoned a'" "bumper a' = bumper a" "heads a' = (heads a)[unat r := l]"
    and path: "free_path M m' l ps" "distinct ps" "set ps - {p} = set (fl r) - {p}"
    and occ: "p \<notin> set ps \<Longrightarrow> Header_read_from M m' p = Ok (Occupied (Order r))"
    and total: "unat (total_size a') = (\<Sum>(p, r) \<in> live cs (fl(r := ps)). chunk_len r)"
  shows "heap_inv M a' m' b cs (fl(r := ps))"
proof -
  have tl: "tiled b cs (unat (bumper a))" using inv by (simp add: heap_inv_def)
  have r: "unat r < 22" using tiled_bounds [OF tl mem] by simp
  have fl: "free_path M m (heads a ! unat s) (fl s)" "distinct (fl s)" "\<forall>q \<in> set (fl s). (q, s) \<in> set cs"
    if "unat s < 22" for s using inv that by (auto simp: heap_inv_def)
  have "free_path M m' (heads a' ! unat s) ((fl(r := ps)) s) \<and> distinct ((fl(r := ps)) s)
      \<and> (\<forall>q \<in> set ((fl(r := ps)) s). (q, s) \<in> set cs)" if s: "unat s < 22" for s
  proof (cases "s = r")
    case True
    then show ?thesis using path fl [OF r] mem inv a'(3) r by (auto simp: heap_inv_def)
  next
    case False
    have "q \<noteq> p" if "q \<in> set (fl s)" for q
      using that fl(3) [OF s] tiled_same_ptr [OF tl mem, of s] False by auto
    then have "free_path M m' (heads a ! unat s) (fl s)"
      using fl [OF s] frame by (intro free_path_frame [OF fl(1) [OF s]]) blast
    moreover have "unat s \<noteq> unat r" using False by (simp add: word_unat_eq_iff)
    ultimately show ?thesis using False fl [OF s] a'(3) by simp
  qed
  moreover have "Header_read_from M m' q = Ok (Occupied (Order s))" if lv: "(q, s) \<in> live cs (fl(r := ps))" for q s
  proof (cases "q = p")
    case True
    then show ?thesis using lv occ tiled_same_ptr [OF tl mem, of s] by (auto simp: live_def)
  next
    case False
    have "q \<in> set ps \<longleftrightarrow> q \<in> set (fl r)" using path(3) False by blast
    then have "(q, s) \<in> live cs fl" using lv by (auto simp: live_def split: if_splits)
    then show ?thesis using inv frame [of q s] False by (auto simp: heap_inv_def live_def Header_read_from_def)
  qed
  ultimately show ?thesis using inv a' sz total by (auto simp: heap_inv_def)
qed

context linear_memory
begin

lemma rewrite_header:
  assumes inv: "heap_inv M a m b cs fl" and "wf_mem m" and mem: "(p, r) \<in> set cs"
  obtains m' where "Header_write_into M h m p = Ok m'" "wf_mem m'" "mem_size M m' = mem_size M m"
    "read_le_u64 M m' p = Ok (Header_encode h)"
    "\<And>q s. (q, s) \<in> set cs \<Longrightarrow> q \<noteq> p \<Longrightarrow> read_le_u64 M m' q = read_le_u64 M m q"
proof -
  obtain n where n: "mem_size M m = Ok n" using size_ok [OF \<open>wf_mem m\<close>] by blast
  have "unat p + 8 \<le> unat n" using heap_inv_chunk(5) [OF inv mem n] chunk_len_ge [of r] by simp
  then obtain m' where m': "write_le_u64 M m p (Header_encode h) = Ok m'" "wf_mem m'" "mem_size M m' = Ok n"
      "read_le_u64 M m' p = Ok (Header_encode h)"
      "\<forall>q. unat q + 8 \<le> unat p \<or> unat p + 8 \<le> unat q \<longrightarrow> read_le_u64 M m' q = read_le_u64 M m q"
    using write_ok [OF \<open>wf_mem m\<close> n] by blast
  have tl: "tiled b cs (unat (bumper a))" using inv by (simp add: heap_inv_def)
  have "read_le_u64 M m' q = read_le_u64 M m q" if "(q, s) \<in> set cs" "q \<noteq> p" for q s
    using m'(5) tiled_headers_apart [OF tl mem that(1)] that(2) by auto
  with m' n that [of m'] show thesis by (simp add: Header_write_into_def)
qed

lemma allocate_reuse:
  assumes inv: "heap_inv M a m b cs fl" and wf: "wf_mem m" and ord: "Order_from_size sz = Ok (Order r)"
    and r: "unat r < 22" and fl: "fl r = p # ps"
  obtains a' m' where "allocate M a m sz = (a', m', Ok (p + HEADER_SIZE))" "wf_mem m'"
    "mem_size M m' = mem_size M m" "heap_inv M a' m' b cs (fl(r := ps))"
    "(p, r) \<notin> live cs fl" "live cs (fl(r := ps)) = insert (p, r) (live cs fl)"
proof -
  obtain n where n: "mem_size M m = Ok n" using size_ok [OF wf] by blast
  from inv r fl have fp: "free_path M m (heads a ! unat r) (p # ps)" and dst: "distinct (p # ps)"
    and mem: "(p, r) \<in> set cs" "\<forall>q \<in> set ps. (q, r) \<in> set cs" and len: "length (heads a) = 22"
    and np: "\<not> poisoned a" and tl: "tiled b cs (unat (bumper a))" by (auto simp: heap_inv_def)
  note ch = heap_inv_chunk [OF inv mem(1) n]
  obtain l' where l': "heads a ! unat r = Ptr p" "Header_read_from M m p = Ok (Free l')"
      "free_path M m l' ps" using fp by auto
  obtain m' where m': "Header_write_into M (Occupied (Order r)) m p = Ok m'" "wf_mem m'"
      "mem_size M m' = mem_size M m" "read_le_u64 M m' p = Ok (Header_encode (Occupied (Order r)))"
      and frame: "\<And>q s. (q, s) \<in> set cs \<Longrightarrow> q \<noteq> p \<Longrightarrow> read_le_u64 M m' q = read_le_u64 M m q"
    using rewrite_header [OF inv wf mem(1), of "Occupied (Order r)"] by blast
  note cw = chunk_len_word [OF r]
  have "unat p + unat (Order_size (Order r) + HEADER_SIZE) < 2 ^ LENGTH(32)"
    using ch(5,6) cw by (simp add: addr_limit_def)
  then have fits: "p + Order_size (Order r) + HEADER_SIZE \<le> n"
    using ch(5) by (simp add: word_le_nat_alt add.assoc unat_add_nowrap cw)
  define a' where "a' = a\<lparr>heads := (heads a)[unat r := l'],
      total_size := total_size a + (Order_size (Order r) + HEADER_SIZE)\<rparr>"
  have run: "allocate M a m sz = (a', m', Ok (p + HEADER_SIZE))"
    using len r l' n fits np ord m'(1)
    by (simp add: allocate_def take_header_def free_lists_get_def free_lists_set_def a'_def)
  have lv: "(p, r) \<notin> live cs fl" "live cs (fl(r := ps)) = insert (p, r) (live cs fl)"
    using fl dst mem by (auto simp: live_def)
  have "unat (total_size a) + chunk_len r = (\<Sum>(p, r) \<in> live cs (fl(r := ps)). chunk_len r)"
    unfolding lv(2) using lv(1) inv by (simp add: heap_inv_def)
  moreover have "\<dots> < 2 ^ LENGTH(32)"
    using live_sum_le [OF tl, of "fl(r := ps)"] unat_u32_less [of "bumper a"] by simp
  ultimately have total: "unat (total_size a') = (\<Sum>(p, r) \<in> live cs (fl(r := ps)). chunk_len r)"
    using cw by (simp add: a'_def unat_add_nowrap)
  have "heap_inv M a' m' b cs (fl(r := ps))"
  proof (rule heap_inv_turn [OF inv mem(1) frame m'(3), where a' = a' and l = l'])
    show "free_path M m' l' ps" using frame mem(2) dst by (intro free_path_frame [OF l'(3)]) auto
    show "Header_read_from M m' p = Ok (Occupied (Order r))"
      using m'(4) r by (simp add: read_header_written decode_encode_Occupied del: Header_encode.simps)
    show "set ps - {p} = set (fl r) - {p}" using fl by simp
  qed (use np dst total in \<open>simp_all add: a'_def\<close>)
  with run m' lv that show thesis by blast
qed

lemma allocate_bump:
  assumes inv: "heap_inv M a m b cs fl" and wf: "wf_mem m" and ord: "Order_from_size sz = Ok (Order r)"
    and r: "unat r < 22" and fl: "fl r = []" and n: "mem_size M m = Ok n"
    and room: "unat (bumper a) + chunk_len r \<le> unat n"
  obtains a' m' where "allocate M a m sz = (a', m', Ok (bumper a + HEADER_SIZE))" "wf_mem m'"
    "mem_size M m' = mem_size M m" "heap_inv M a' m' b ((bumper a, r) # cs) fl"
    "(bumper a, r) \<notin> live cs fl" "live ((bumper a, r) # cs) fl = insert (bumper a, r) (live cs fl)"
proof -
  let ?p = "bumper a" and ?cs = "(bumper a, r) # cs"
  from inv r fl have hd: "heads a ! unat r = Nil_link" and len: "length (heads a) = 22"
    and np: "\<not> poisoned a" and tl: "tiled b cs (unat (bumper a))" and lim: "unat n < addr_limit"
    using n by (auto simp: heap_inv_def)
  have fresh: "q \<noteq> ?p \<and> (unat q + 8 \<le> unat ?p)" if "(q, s) \<in> set cs" for q s
    using tiled_bounds [OF tl that] chunk_len_ge [of s] by auto
  obtain m' where m': "write_le_u64 M m ?p (Header_encode (Occupied (Order r))) = Ok m'" "wf_mem m'"
      "mem_size M m' = Ok n" "read_le_u64 M m' ?p = Ok (Header_encode (Occupied (Order r)))"
      and frame: "\<forall>q. unat q + 8 \<le> unat ?p \<or> unat ?p + 8 \<le> unat q \<longrightarrow> read_le_u64 M m' q = read_le_u64 M m q"
    using write_ok [OF wf n, of ?p "Header_encode (Occupied (Order r))"] room chunk_len_ge [of r] by auto
  note cw = chunk_len_word [OF r]
  have bmp: "unat (?p + (Order_size (Order r) + HEADER_SIZE)) = unat ?p + chunk_len r"
    using room lim cw by (subst unat_add_nowrap) (auto simp: addr_limit_def)
  define a' where "a' = a\<lparr>bumper := ?p + (Order_size (Order r) + HEADER_SIZE),
      total_size := total_size a + (Order_size (Order r) + HEADER_SIZE)\<rparr>"
  have run: "allocate M a m sz = (a', m', Ok (?p + HEADER_SIZE))"
    using len r hd n np ord m'(1) room bmp
    by (simp add: allocate_def take_header_def free_lists_get_def bump_def word_less_nat_alt
        Header_write_into_def a'_def del: Header_encode.simps)
  have inv': "heap_inv M a m' b cs fl"
    using heap_inv_frame [OF inv _ n m'(3)] frame fresh lim by blast
  have lv: "(?p, r) \<notin> live cs fl" "live ?cs fl = insert (?p, r) (live cs fl)"
    using fresh [of ?p r] fl by (auto simp: live_def)
  have tl': "tiled b ?cs (unat (bumper a'))" using r tl bmp by (simp add: a'_def)
  have "unat (total_size a) + chunk_len r = (\<Sum>(p, r) \<in> live ?cs fl. chunk_len r)"
    unfolding lv(2) using lv(1) inv by (simp add: heap_inv_def)
  moreover have "\<dots> < 2 ^ LENGTH(32)"
    using live_sum_le [OF tl', of fl] unat_u32_less [of "bumper a'"] by simp
  ultimately have total: "unat (total_size a') = (\<Sum>(p, r) \<in> live ?cs fl. chunk_len r)"
    using cw by (simp add: a'_def unat_add_nowrap)
  have "Header_read_from M m' ?p = Ok (Occupied (Order r))"
    using m'(4) r by (simp add: read_header_written decode_encode_Occupied del: Header_encode.simps)
  then have "heap_inv M a' m' b ?cs fl"
    using inv' tl' total lv(2) m'(3) lim room bmp by (auto simp: heap_inv_def a'_def)
  with run m' n lv that show thesis by simp
qed

lemma allocate_exhausted:
  assumes inv: "heap_inv M a m b cs fl" and ord: "Order_from_size sz = Ok (Order r)"
    and r: "unat r < 22" and fl: "fl r = []" and n: "mem_size M m = Ok n"
    and full: "unat n < unat (bumper a) + chunk_len r"
  shows "allocate M a m sz = (detonate a, m, Err AllocatorOutOfSpace)"
proof -
  from inv r fl have hd: "heads a ! unat r = Nil_link" and len: "length (heads a) = 22"
    and np: "\<not> poisoned a" by (auto simp: heap_inv_def)
  have "unat (bumper a) < addr_limit" using inv n by (auto simp: heap_inv_def)
  then have "unat (bumper a + (Order_size (Order r) + HEADER_SIZE)) = unat (bumper a) + chunk_len r"
    using chunk_len_max [OF r] chunk_len_word [OF r] by (subst unat_add_nowrap) (auto simp: addr_limit_def)
  with full show ?thesis
    using len r hd n np ord
    by (simp add: allocate_def take_header_def free_lists_get_def bump_def word_less_nat_alt detonate_def)
qed

lemma deallocate_live:
  assumes inv: "heap_inv M a m b cs fl" and wf: "wf_mem m" and lv: "(p, r) \<in> live cs fl"
  obtains a' m' where "deallocate M a m (p + HEADER_SIZE) = (a', m', Ok ())" "wf_mem m'"
    "mem_size M m' = mem_size M m" "heap_inv M a' m' b cs (fl(r := p # fl r))"
    "live cs (fl(r := p # fl r)) = live cs fl - {(p, r)}"
proof -
  obtain n where n: "mem_size M m = Ok n" using size_ok [OF wf] by blast
  have mem: "(p, r) \<in> set cs" and nfree: "p \<notin> set (fl r)" using lv by (auto simp: live_def)
  note ch = heap_inv_chunk [OF inv mem n]
  from inv ch(1) lv have fp: "free_path M m (heads a ! unat r) (fl r)" and dst: "distinct (fl r)"
    and mem': "\<forall>q \<in> set (fl r). (q, r) \<in> set cs" and len: "length (heads a) = 22" and np: "\<not> poisoned a"
    and rd: "Header_read_from M m p = Ok (Occupied (Order r))"
    by (auto simp: heap_inv_def)
  obtain m' where m': "Header_write_into M (Free (heads a ! unat r)) m p = Ok m'" "wf_mem m'"
      "mem_size M m' = mem_size M m" "read_le_u64 M m' p = Ok (Header_encode (Free (heads a ! unat r)))"
      and frame: "\<And>q s. (q, s) \<in> set cs \<Longrightarrow> q \<noteq> p \<Longrightarrow> read_le_u64 M m' q = read_le_u64 M m q"
    using rewrite_header [OF inv wf mem, of "Free (heads a ! unat r)"] by blast
  note cw = chunk_len_word [OF ch(1)]
  have p8: "unat (p + HEADER_SIZE) = unat p + 8"
    using ch(5,6) chunk_len_ge [of r] by (subst unat_add_nowrap) (auto simp: addr_limit_def HEADER_SIZE_def)
  have sub: "live cs (fl(r := p # fl r)) = live cs fl - {(p, r)}" by (auto simp: live_def)
  have sum: "(\<Sum>(p, r) \<in> live cs fl. chunk_len r)
      = chunk_len r + (\<Sum>(p, r) \<in> live cs fl - {(p, r)}. chunk_len r)"
    using sum.remove [OF finite_live lv, of "\<lambda>(p, r). chunk_len r"] by simp
  then have tot: "Order_size (Order r) + HEADER_SIZE \<le> total_size a"
    using inv cw by (simp add: word_le_nat_alt heap_inv_def)
  define a' where "a' = a\<lparr>heads := (heads a)[unat r := Ptr p],
      total_size := total_size a - (Order_size (Order r) + HEADER_SIZE)\<rparr>"
  have run: "deallocate M a m (p + HEADER_SIZE) = (a', m', Ok ())"
    using np p8 rd len ch(1) m'(1) tot
    by (simp add: deallocate_def checked_sub_u32_def word_le_nat_alt HEADER_SIZE_def free_lists_get_def
        free_lists_set_def a'_def)
  have hd_ok: "heads a ! unat r \<noteq> Ptr NIL_MARKER"
  proof
    assume eq: "heads a ! unat r = Ptr NIL_MARKER"
    with fp have "(NIL_MARKER, r) \<in> set cs" using mem' by (cases "fl r") auto
    then show False using heap_inv_chunk(5,6) [OF inv _ n, of NIL_MARKER r]
      by (auto simp: NIL_MARKER_def addr_limit_def unsigned_minus_1_eq_mask mask_eq_exp_minus_1)
  qed
  have "heap_inv M a' m' b cs (fl(r := p # fl r))"
  proof (rule heap_inv_turn [OF inv mem frame m'(3), where a' = a' and l = "Ptr p"])
    have "free_path M m' (heads a ! unat r) (fl r)"
      using fp frame mem' nfree by (intro free_path_frame [OF fp]) auto
    moreover have "Header_read_from M m' p = Ok (Free (heads a ! unat r))"
      using m'(4) hd_ok by (simp add: read_header_written decode_encode_Free del: Header_encode.simps)
    ultimately show "free_path M m' (Ptr p) (p # fl r)" by simp
    show "unat (total_size a') = (\<Sum>(p, r) \<in> live cs (fl(r := p # fl r)). chunk_len r)"
      unfolding sub using sum tot inv cw by (simp add: a'_def unat_sub_nowrap word_le_nat_alt heap_inv_def)
    show "set (p # fl r) - {p} = set (fl r) - {p}" by simp
  qed (use np dst nfree in \<open>simp_all add: a'_def\<close>)
  with run m' sub that show thesis by blast
qed

end


section \<open>Byte slices implement the memory interface\<close>

lemma low_byte_join: "ucast (ucast v :: u8) OR push_bit 8 (drop_bit 8 v) = (v :: u64)"
proof (rule bit_word_eqI)
  fix n
  assume "n < LENGTH(64)"
  then show "bit (ucast (ucast v :: u8) OR push_bit 8 (drop_bit 8 v) :: u64) n = bit v n"
    by (cases "n < 8") (auto simp: bit_simps)
qed

lemma le_bytes_from:
  "from_le_bytes (map (\<lambda>i. ucast (drop_bit (8 * i) v)) [k..<8]) = drop_bit (8 * k) v" if "k \<le> 8"
  using that
proof (induction "8 - k" arbitrary: k)
  case 0
  then have "[k..<8] = []" "drop_bit (8 * k) v = 0" by (auto intro!: bit_word_eqI simp: bit_simps)
  then show ?case by simp
next
  case (Suc d)
  then have k: "k < 8" "[k..<8] = k # [Suc k..<8]" by (auto simp: upt_conv_Cons)
  have "from_le_bytes (map (\<lambda>i. ucast (drop_bit (8 * i) v)) [Suc k..<8]) = drop_bit (8 * Suc k) v"
    using Suc k by auto
  then have "from_le_bytes (map (\<lambda>i. ucast (drop_bit (8 * i) v)) [k..<8])
      = ucast (ucast (drop_bit (8 * k) v) :: u8) OR push_bit 8 (drop_bit 8 (drop_bit (8 * k) v))"
    by (simp add: k(2) drop_bit_drop_bit)
  then show ?case by (simp only: low_byte_join)
qed

lemma le_bytes_roundtrip: "from_le_bytes (to_le_bytes v) = v"
  using le_bytes_from [of 0 v] by (simp add: to_le_bytes_def)

lemma length_to_le_bytes [simp]: "length (to_le_bytes v) = 8"
  by (simp add: to_le_bytes_def)

lemma heap_range_in:
  assumes "unat p + 8 \<le> n" "n < 2 ^ 32"
  shows "heap_range p 8 n = Some (unat p, unat p + 8)"
  using assms unat_add_nowrap [of p 8] by (auto simp: heap_range_def)

lemma slice_read_in:
  assumes "unat p + 8 \<le> length m" "length m < 2 ^ 32"
  shows "slice_read m p = Ok (from_le_bytes (take 8 (drop (unat p) m)))"
  using heap_range_in [OF assms] by (simp add: slice_read_def)

lemma slice_read_out: "length m < unat p + 8 \<Longrightarrow> slice_read m p = Err (Other ''read out of heap bounds'')"
  using unat_add_nowrap [of p 8] by (auto simp: slice_read_def heap_range_def)

lemma slice_read_cong:
  assumes "length m' = length m" "length m < 2 ^ 32" "\<And>i. unat p \<le> i \<Longrightarrow> i < unat p + 8 \<Longrightarrow> m' ! i = m ! i"
  shows "slice_read m' p = slice_read m p"
proof (cases "unat p + 8 \<le> length m")
  case True
  then have "take 8 (drop (unat p) m') = take 8 (drop (unat p) m)"
    using assms by (intro nth_equalityI) auto
  then show ?thesis using True assms by (simp add: slice_read_in)
qed (use assms in \<open>simp add: slice_read_out\<close>)

lemma slice_write_in:
  assumes "unat p + 8 \<le> length m" "length m < 2 ^ 32"
  shows "slice_write m p v = Ok (take (unat p) m @ to_le_bytes v @ drop (unat p + 8) m)"
  using heap_range_in [OF assms] by (simp add: slice_write_def)

interpretation sm: linear_memory slice_memory "\<lambda>m. length m < 2 ^ 32"
proof unfold_locales
  fix m :: "u8 list" and n p :: u32 and v :: u64
  assume wf: "length m < 2 ^ 32"
  then show "\<exists>n. mem_size slice_memory m = Ok n" by (simp add: slice_memory_def slice_size_def)
  assume "mem_size slice_memory m = Ok n" and "unat p + 8 \<le> unat n"
  with wf have fit: "unat p + 8 \<le> length m" and n: "slice_size m = Ok n"
    by (auto simp: slice_memory_def slice_size_def unat_of_nat)
  let ?m = "take (unat p) m @ to_le_bytes v @ drop (unat p + 8) m"
  have len: "length ?m = length m" using fit by simp
  have "slice_read ?m p = Ok v" using fit wf len by (subst slice_read_in) (auto simp: le_bytes_roundtrip)
  moreover have "slice_read ?m q = slice_read m q" if "unat q + 8 \<le> unat p \<or> unat p + 8 \<le> unat q" for q
    by (rule slice_read_cong) (use len wf that fit in \<open>auto simp: nth_append\<close>)
  moreover have "slice_size ?m = Ok n" using n unfolding slice_size_def len .
  ultimately show "\<exists>m'. write_le_u64 slice_memory m p v = Ok m' \<and> length m' < 2 ^ 32
      \<and> mem_size slice_memory m' = Ok n \<and> read_le_u64 slice_memory m' p = Ok v
      \<and> (\<forall>q. unat q + 8 \<le> unat p \<or> unat p + 8 \<le> unat q
          \<longrightarrow> read_le_u64 slice_memory m' q = read_le_u64 slice_memory m q)"
    using slice_write_in [OF fit wf] len wf by (intro exI [of _ ?m]) (simp add: slice_memory_def)
qed

section \<open>The client's view\<close>

text \<open>
  A run of the heap: the host allocates and frees, the guest stores bytes inside its live allocations
  and grows the memory. \<open>L\<close> is the client's record of live allocations, as pointer and requested size.
\<close>

inductive heap_run :: "allocator \<Rightarrow> u8 list \<Rightarrow> (u32 \<times> u32) set \<Rightarrow> bool" where
  start: "unat heap_base + 7 < addr_limit \<Longrightarrow> length m < addr_limit \<Longrightarrow>
    heap_run (new_allocator heap_base) m {}"
| alloc: "heap_run a m L \<Longrightarrow> allocate slice_memory a m sz = (a', m', Ok ptr) \<Longrightarrow>
    heap_run a' m' (insert (ptr, sz) L)"
| dealloc: "heap_run a m L \<Longrightarrow> (ptr, sz) \<in> L \<Longrightarrow> deallocate slice_memory a m ptr = (a', m', Ok ()) \<Longrightarrow>
    heap_run a' m' (L - {(ptr, sz)})"
| store: "heap_run a m L \<Longrightarrow> (ptr, sz) \<in> L \<Longrightarrow> unat ptr \<le> i \<Longrightarrow> i < unat ptr + unat sz \<Longrightarrow>
    heap_run a (m[i := byte]) L"
| grow: "heap_run a m L \<Longrightarrow> length m + k < addr_limit \<Longrightarrow> heap_run a (m @ replicate k 0) L"

text \<open>The client's record and the heap agree: each live allocation is the payload of a live chunk.\<close>

definition client_inv :: "allocator \<Rightarrow> u8 list \<Rightarrow> (u32 \<times> u32) set \<Rightarrow> nat \<Rightarrow> chunk list \<Rightarrow> (u32 \<Rightarrow> u32 list) \<Rightarrow> bool" where
  "client_inv a m L b cs fl \<longleftrightarrow>
     heap_inv slice_memory a m b cs fl \<and> length m < addr_limit \<and> inj_on fst L
   \<and> (\<forall>(ptr, sz) \<in> L. \<exists>p r. (p, r) \<in> live cs fl \<and> ptr = p + HEADER_SIZE \<and> Order_from_size sz = Ok (Order r))"

lemma addr_limit_word: "addr_limit < 2 ^ 32"
  by (simp add: addr_limit_def)

lemma slice_size_limit: "length m < addr_limit \<Longrightarrow> mem_size slice_memory m = Ok (of_nat (length m))"
  using addr_limit_word by (simp add: slice_memory_def slice_size_def)

lemma unat_slice_size: "length m < addr_limit \<Longrightarrow> unat (of_nat (length m) :: u32) = length m"
  using addr_limit_word by (simp add: unat_of_nat)

lemma client_inv_payload:
  assumes "client_inv a m L b cs fl" "(ptr, sz) \<in> L"
  obtains p r where "(p, r) \<in> set cs" "p \<notin> set (fl r)" "ptr = p + HEADER_SIZE" "unat ptr = unat p + 8"
    "unat ptr + unat sz \<le> unat p + chunk_len r" "unat p + chunk_len r \<le> length m" "8 dvd unat ptr"
proof -
  from assms obtain p r where p: "(p, r) \<in> live cs fl" "ptr = p + HEADER_SIZE" "Order_from_size sz = Ok (Order r)"
    and inv: "heap_inv slice_memory a m b cs fl" and len: "length m < addr_limit"
    by (auto simp: client_inv_def)
  have mem: "(p, r) \<in> set cs" "p \<notin> set (fl r)" using p by (auto simp: live_def)
  note ch = heap_inv_chunk [OF inv mem(1) slice_size_limit [OF len], unfolded unat_slice_size [OF len]]
  have "unat ptr = unat p + 8"
    using p(2) ch(5,6) chunk_len_ge [of r]
    by (simp add: HEADER_SIZE_def unat_add_nowrap addr_limit_def)
  then show thesis using that [OF mem p(2)] Order_from_size_fits [OF p(3)] p ch by (auto simp: chunk_len_def)
qed


lemma client_inv_start:
  assumes "unat heap_base + 7 < addr_limit" "length m < addr_limit"
  shows "client_inv (new_allocator heap_base) m {} (unat (bumper (new_allocator heap_base))) [] (\<lambda>_. [])"
proof -
  have "unat (heap_base + 7) = unat heap_base + 7"
    using assms(1) by (simp add: unat_add_nowrap addr_limit_def)
  then have q: "unat ((heap_base + 7) div 8) = (unat heap_base + 7) div 8" by (simp add: unat_div_distrib)
  then have bump: "unat (bumper (new_allocator heap_base)) = (unat heap_base + 7) div 8 * 8"
  proof -
    have "(unat heap_base + 7) div 8 < 536870912" using assms(1) by (simp add: addr_limit_def)
    then show ?thesis using q unat_mult_lem [of "(heap_base + 7) div 8" 8]
      by (simp add: new_allocator_def ALIGNMENT_def add_diff_eq [symmetric])
  qed
  show ?thesis
    using assms bump slice_size_limit [OF assms(2)] unat_slice_size [OF assms(2)]
    by (auto simp: client_inv_def heap_inv_def new_allocator_def N_ORDERS_def live_def)
qed

lemma client_inv_insert:
  assumes inv: "client_inv a m L b cs fl"
    and new: "allocate slice_memory a m sz = (a', m', Ok (p + HEADER_SIZE))" "heap_inv slice_memory a' m' b cs' fl'"
      "mem_size slice_memory m' = mem_size slice_memory m" "length m' < 2 ^ 32"
      "(p, r) \<notin> live cs fl" "live cs' fl' = insert (p, r) (live cs fl)" and fits: "Order_from_size sz = Ok (Order r)"
  shows "\<exists>a' m' ptr cs' fl'. allocate slice_memory a m sz = (a', m', Ok ptr) \<and> ptr \<notin> fst ` L
            \<and> client_inv a' m' (insert (ptr, sz) L) b cs' fl'"
proof -
  have len: "length m < addr_limit" and inj: "inj_on fst L" and L: "\<And>ptr s. (ptr, s) \<in> L \<Longrightarrow>
      \<exists>p r. (p, r) \<in> live cs fl \<and> ptr = p + HEADER_SIZE \<and> Order_from_size s = Ok (Order r)"
    using inv by (auto simp: client_inv_def)
  have "length m < 2 ^ 32" using len addr_limit_word by simp
  then have "length m' = length m"
    using new(3,4) by (auto simp: slice_memory_def slice_size_def dest: arg_cong [of _ _ unat] simp: unat_of_nat)
  moreover have "q \<noteq> p" if "(q, s) \<in> live cs fl" for q s
  proof -
    have "tiled b cs' (unat (bumper a'))" "(p, r) \<in> set cs'" "(q, s) \<in> set cs'"
      using new(2,6) that by (auto simp: heap_inv_def live_def set_eq_iff)
    then show ?thesis using tiled_same_ptr new(5) that by metis
  qed
  then have fresh: "p + HEADER_SIZE \<notin> fst ` L" using L by fastforce
  moreover have "inj_on fst (insert (p + HEADER_SIZE, sz) L)" using inj fresh by (simp add: inj_on_insert) blast
  moreover have "\<forall>(ptr, s) \<in> insert (p + HEADER_SIZE, sz) L.
      \<exists>q t. (q, t) \<in> live cs' fl' \<and> ptr = q + HEADER_SIZE \<and> Order_from_size s = Ok (Order t)"
    using L fits unfolding new(6) by blast
  ultimately have "client_inv a' m' (insert (p + HEADER_SIZE, sz) L) b cs' fl'"
    using new(2) len unfolding client_inv_def by simp
  then show ?thesis using new(1) fresh by blast
qed

text \<open>What one allocation request does to the client's view.\<close>

lemma client_alloc:
  assumes inv: "client_inv a m L b cs fl" and small: "unat sz \<le> 2 ^ 24"
  shows "(\<exists>a' m' ptr cs' fl'. allocate slice_memory a m sz = (a', m', Ok ptr) \<and> ptr \<notin> fst ` L
            \<and> client_inv a' m' (insert (ptr, sz) L) b cs' fl')
       \<or> (\<exists>r. Order_from_size sz = Ok (Order r) \<and> fl r = []
            \<and> length m < unat (bumper a) + chunk_len r
            \<and> allocate slice_memory a m sz = (detonate a, m, Err AllocatorOutOfSpace))"
proof -
  have h: "heap_inv slice_memory a m b cs fl" and len: "length m < addr_limit"
    using inv by (auto simp: client_inv_def)
  have wf: "length m < 2 ^ 32" using len addr_limit_word by simp
  note size = slice_size_limit [OF len] and usize = unat_slice_size [OF len]
  obtain r where r: "Order_from_size sz = Ok (Order r)" "unat r < 22" "unat sz \<le> 8 * 2 ^ unat r"
    using Order_from_size_ok [OF small] by metis
  note extend = client_inv_insert [OF inv _ _ _ _ _ _ r(1)]
  show ?thesis
  proof (cases "fl r")
    case (Cons p ps)
    then show ?thesis using sm.allocate_reuse [OF h wf r(1,2) Cons] extend by metis
  next
    case Nil
    show ?thesis
    proof (cases "unat (bumper a) + chunk_len r \<le> length m")
      case True
      then show ?thesis using sm.allocate_bump [OF h wf r(1,2) Nil size] usize extend by metis
    next
      case False
      then show ?thesis using sm.allocate_exhausted [OF h r(1,2) Nil size] usize r Nil by auto
    qed
  qed
qed

lemma client_dealloc:
  assumes inv: "client_inv a m L b cs fl" and mem: "(ptr, sz) \<in> L"
  shows "\<exists>a' m' fl'. deallocate slice_memory a m ptr = (a', m', Ok ())
    \<and> client_inv a' m' (L - {(ptr, sz)}) b cs fl'"
proof -
  have h: "heap_inv slice_memory a m b cs fl" and len: "length m < addr_limit" and inj: "inj_on fst L"
    and L: "\<And>ptr s. (ptr, s) \<in> L \<Longrightarrow>
      \<exists>p r. (p, r) \<in> live cs fl \<and> ptr = p + HEADER_SIZE \<and> Order_from_size s = Ok (Order r)"
    using inv by (auto simp: client_inv_def)
  have wf: "length m < 2 ^ 32" using len addr_limit_word by simp
  obtain p r where p: "(p, r) \<in> live cs fl" "ptr = p + HEADER_SIZE" using L [OF mem] by blast
  obtain a' m' where d: "deallocate slice_memory a m ptr = (a', m', Ok ())" "length m' < 2 ^ 32"
      "mem_size slice_memory m' = mem_size slice_memory m"
      "heap_inv slice_memory a' m' b cs (fl(r := p # fl r))"
      "live cs (fl(r := p # fl r)) = live cs fl - {(p, r)}"
    using sm.deallocate_live [OF h wf p(1)] p(2) by metis
  have "length m' = length m"
    using d(2,3) wf by (auto simp: slice_memory_def slice_size_def dest: arg_cong [of _ _ unat] simp: unat_of_nat)
  moreover have "\<exists>q s. (q, s) \<in> live cs (fl(r := p # fl r)) \<and> ptr' = q + HEADER_SIZE \<and> Order_from_size sz' = Ok (Order s)"
    if "(ptr', sz') \<in> L - {(ptr, sz)}" for ptr' sz'
  proof -
    have "ptr' \<noteq> ptr" using that mem inj by (force simp: inj_on_def)
    then show ?thesis using L [of ptr' sz'] that d(5) p(2) by auto
  qed
  ultimately have "client_inv a' m' (L - {(ptr, sz)}) b cs (fl(r := p # fl r))"
    using d(4) len inj by (auto simp: client_inv_def intro: inj_on_diff)
  then show ?thesis using d(1) by blast
qed


lemma client_inv_store:
  assumes inv: "client_inv a m L b cs fl" and mem: "(ptr, sz) \<in> L"
    and i: "unat ptr \<le> i" "i < unat ptr + unat sz"
  shows "client_inv a (m[i := byte]) L b cs fl"
proof -
  obtain p r where p: "(p, r) \<in> set cs" "unat ptr = unat p + 8" "unat ptr + unat sz \<le> unat p + chunk_len r"
    using client_inv_payload [OF inv mem] by metis
  have h: "heap_inv slice_memory a m b cs fl" and len: "length m < addr_limit"
    using inv by (auto simp: client_inv_def)
  have "slice_read (m[i := byte]) q = slice_read m q" if q: "(q, s) \<in> set cs" for q s
  proof (rule slice_read_cong)
    fix j
    assume j: "unat q \<le> j" "j < unat q + 8"
    have "unat q + 8 \<le> i \<or> i < unat q"
    proof (cases "q = p")
      case False
      then show ?thesis
        using tiled_disjoint [OF _ p(1) q] h p i chunk_len_ge [of s] by (force simp: heap_inv_def)
    qed (use i p in auto)
    then show "m[i := byte] ! j = m ! j" using j by auto
  qed (use len addr_limit_word in auto)
  then have "heap_inv slice_memory a (m[i := byte]) b cs fl"
    using heap_inv_frame [OF h _ slice_size_limit [OF len] slice_size_limit [of "m[i := byte]"]] len
    by (auto simp: slice_memory_def unat_slice_size)
  then show ?thesis using inv by (simp add: client_inv_def)
qed

lemma client_inv_grow:
  assumes inv: "client_inv a m L b cs fl" and k: "length m + k < addr_limit"
  shows "client_inv a (m @ replicate k 0) L b cs fl"
proof -
  have h: "heap_inv slice_memory a m b cs fl" and len: "length m < addr_limit"
    using inv by (auto simp: client_inv_def)
  have "slice_read (m @ replicate k 0) q = slice_read m q" if q: "(q, s) \<in> set cs" for q s
  proof -
    have "unat q + 8 \<le> length m"
      using heap_inv_chunk(5) [OF h q slice_size_limit [OF len]] chunk_len_ge [of s] len
      by (simp add: unat_slice_size)
    then show ?thesis using k len addr_limit_word by (simp add: slice_read_in)
  qed
  then have "heap_inv slice_memory a (m @ replicate k 0) b cs fl"
    using heap_inv_frame [OF h _ slice_size_limit [OF len] slice_size_limit [of "m @ replicate k 0"]] len k
    by (auto simp: slice_memory_def unat_slice_size simp del: of_nat_add
        simp: unat_slice_size [of "m @ replicate k 0", simplified])
  then show ?thesis using inv k by (simp add: client_inv_def)
qed

lemma allocate_too_large:
  "2 ^ 24 < unat sz \<Longrightarrow> \<not> poisoned a \<Longrightarrow>
   allocate M a m sz = (detonate a, m, Err RequestedAllocationTooLarge)"
  by (simp add: allocate_def Order_from_size_def MAX_POSSIBLE_ALLOCATION_def word_less_nat_alt)

lemma heap_run_inv: "heap_run a m L \<Longrightarrow> \<exists>b cs fl. client_inv a m L b cs fl"
proof (induction rule: heap_run.induct)
  case (start heap_base m)
  then show ?case using client_inv_start by blast
next
  case (alloc a m L sz a' m' ptr)
  then obtain b cs fl where inv: "client_inv a m L b cs fl" by blast
  then have "\<not> poisoned a" by (simp add: client_inv_def heap_inv_def)
  with alloc(2) have "unat sz \<le> 2 ^ 24"
    using allocate_too_large [of sz a slice_memory m] by (cases "2 ^ 24 < unat sz") auto
  from client_alloc [OF inv this] alloc(2) show ?case by auto
next
  case (dealloc a m L ptr sz a' m')
  then obtain b cs fl where "client_inv a m L b cs fl" by blast
  from client_dealloc [OF this dealloc(2)] dealloc(3) show ?case by auto
next
  case (store a m L ptr sz i byte)
  then show ?case using client_inv_store by blast
next
  case (grow a m L k)
  then show ?case using client_inv_grow by blast
qed

section \<open>Properties\<close>


definition mem0 :: "u8 list" where "mem0 = replicate 64 0"

definition mem1 :: "u8 list" where
  "mem1 = to_le_bytes (Header_encode (Occupied (Order 0))) @ drop 8 mem0"

definition mem2 :: "u8 list" where
  "mem2 = take 16 mem1 @ to_le_bytes (Header_encode (Occupied (Order 1))) @ drop 24 mem1"

definition alloc2 :: allocator where
  "alloc2 = \<lparr>bumper = 40, heads = replicate 22 Nil_link, total_size = 40, poisoned = False\<rparr>"

lemma example_orders: "Order_from_size 1 = Ok (Order 0)" "Order_from_size 9 = Ok (Order 1)"
  "Order_size (Order 0) = 8" "Order_size (Order 1) = 16"
  by code_simp+

lemma length_mems: "length mem0 = 64" "length mem1 = 64" "length mem2 = 64"
  by (simp_all add: mem0_def mem1_def mem2_def)

lemmas alloc_eval = allocate_def take_header_def alloc_consts free_lists_get_def bump_def
  Header_write_into_def slice_memory_def slice_size_def slice_write_in example_orders length_mems

lemma example_run: "heap_run alloc2 mem2 {(24, 9), (8, 1)}"
proof -
  have "heap_run (new_allocator 0) mem0 {}"
    by (rule heap_run.start) (simp_all add: addr_limit_def length_mems)
  moreover have "allocate slice_memory (new_allocator 0) mem0 1
      = (\<lparr>bumper = 16, heads = replicate 22 Nil_link, total_size = 16, poisoned = False\<rparr>, mem1, Ok 8)"
    by (simp add: alloc_eval new_allocator_def mem1_def del: Header_encode.simps)
  ultimately have "heap_run \<lparr>bumper = 16, heads = replicate 22 Nil_link, total_size = 16, poisoned = False\<rparr>
      mem1 {(8, 1)}" by (rule heap_run.alloc)
  moreover have "allocate slice_memory
      \<lparr>bumper = 16, heads = replicate 22 Nil_link, total_size = 16, poisoned = False\<rparr> mem1 9
      = (alloc2, mem2, Ok 24)"
    by (simp add: alloc_eval alloc2_def mem2_def del: Header_encode.simps)
  ultimately show ?thesis by (rule heap_run.alloc)
qed


text \<open>
  C4. In every reachable state an allocation request has one of three outcomes: a fresh live
  allocation; \<open>AllocatorOutOfSpace\<close>; or, exactly for more than 16 MiB, \<open>RequestedAllocationTooLarge\<close>.
  It never panics, and never reports a corrupted header or an out-of-bounds access.
\<close>

theorem allocate_outcomes:
  assumes "heap_run a m L"
  shows "case allocate slice_memory a m sz of
      (a', m', Ok ptr) \<Rightarrow> unat sz \<le> 2 ^ 24 \<and> ptr \<notin> fst ` L \<and> \<not> poisoned a' \<and> heap_run a' m' (insert (ptr, sz) L)
    | (a', m', Err e) \<Rightarrow> poisoned a' \<and> m' = m
        \<and> e = (if 2 ^ 24 < unat sz then RequestedAllocationTooLarge else AllocatorOutOfSpace)
    | (a', m', Panic) \<Rightarrow> False"
proof -
  obtain b cs fl where inv: "client_inv a m L b cs fl" using heap_run_inv [OF assms] by blast
  then have np: "\<not> poisoned a" by (simp add: client_inv_def heap_inv_def)
  show ?thesis
  proof (cases "unat sz \<le> 2 ^ 24")
    case True
    from client_alloc [OF inv True] show ?thesis
    proof (elim disjE exE conjE)
      fix a' m' ptr cs' fl'
      assume new: "allocate slice_memory a m sz = (a', m', Ok ptr)" "ptr \<notin> fst ` L"
        "client_inv a' m' (insert (ptr, sz) L) b cs' fl'"
      then show ?thesis using True heap_run.alloc [OF assms new(1)]
        by (simp add: client_inv_def heap_inv_def)
    qed (use True in \<open>simp add: detonate_def\<close>)
  next
    case False
    then have "2 ^ 24 < unat sz" by simp
    from allocate_too_large [OF this np, of slice_memory m] this show ?thesis by (simp add: detonate_def)
  qed
qed

theorem allocate_outcomes_witness:
  "heap_run alloc2 mem2 {(24, 9), (8, 1)}
   \<and> poisoned (fst (allocate slice_memory alloc2 mem2 33554432))"
proof -
  have a: "allocate slice_memory alloc2 mem2 33554432 = (detonate alloc2, mem2, Err RequestedAllocationTooLarge)"
    by (rule allocate_too_large) (simp_all add: alloc2_def)
  show ?thesis using allocate_outcomes [OF example_run, of 33554432] example_run by (simp add: a)
qed

text \<open>
  C5. Freeing a live allocation always succeeds in a reachable state and removes exactly that
  allocation, and the chunk is reusable at once: the next request of the same order gets the same
  pointer back.
\<close>

theorem deallocate_then_reuse:
  assumes "heap_run a m L" and "(ptr, sz) \<in> L"
  shows "\<exists>a' m'. deallocate slice_memory a m ptr = (a', m', Ok ()) \<and> heap_run a' m' (L - {(ptr, sz)})
      \<and> (\<forall>sz'. Order_from_size sz' = Order_from_size sz \<longrightarrow>
           snd (snd (allocate slice_memory a' m' sz')) = Ok ptr)"
proof -
  obtain b cs fl where inv: "client_inv a m L b cs fl" using heap_run_inv [OF assms(1)] by blast
  then obtain p r where p: "(p, r) \<in> live cs fl" "ptr = p + HEADER_SIZE" "Order_from_size sz = Ok (Order r)"
    and h: "heap_inv slice_memory a m b cs fl" and wf: "length m < 2 ^ 32"
    using assms(2) addr_limit_word by (auto simp: client_inv_def)
  obtain a' m' where d: "deallocate slice_memory a m ptr = (a', m', Ok ())" "length m' < 2 ^ 32"
      "heap_inv slice_memory a' m' b cs (fl(r := p # fl r))"
    using sm.deallocate_live [OF h wf p(1)] p(2) by metis
  have "snd (snd (allocate slice_memory a' m' sz')) = Ok ptr" if "Order_from_size sz' = Order_from_size sz" for sz'
    using sm.allocate_reuse [OF d(3,2), of sz' r p "fl r"] that p Order_from_size_fits [OF p(3)]
    by (metis fun_upd_same snd_conv)
  with d(1) heap_run.dealloc [OF assms d(1)] show ?thesis by blast
qed

theorem deallocate_then_reuse_witness:
  "heap_run alloc2 mem2 {(24, 9), (8, 1)}
   \<and> (\<exists>a' m'. deallocate slice_memory alloc2 mem2 24 = (a', m', Ok ())
        \<and> snd (snd (allocate slice_memory a' m' 9)) = Ok 24)"
  using deallocate_then_reuse [OF example_run, of 24 9] example_run by auto

text \<open>
  An error of either operation poisons the allocator, and a poisoned allocator refuses every later
  request without touching its state or the memory.
\<close>

theorem errors_poison:
  "(case allocate M a m sz of (a', m', r) \<Rightarrow> (\<exists>ptr. r = Ok ptr) \<or> poisoned a')
 \<and> (case deallocate M a m ptr of (a', m', r) \<Rightarrow> r = Ok () \<or> poisoned a')
 \<and> (poisoned a \<longrightarrow> allocate M a m sz = (a, m, Err (Other ''the allocator has been poisoned''))
      \<and> deallocate M a m ptr = (a, m, Err (Other ''the allocator has been poisoned'')))"
proof -
  have "case allocate M a m sz of (a', m', r) \<Rightarrow> (\<exists>ptr. r = Ok ptr) \<or> poisoned a'"
    by (auto simp: allocate_def detonate_def split: result.splits prod.splits)
  moreover have "case deallocate M a m ptr of (a', m', r) \<Rightarrow> r = Ok () \<or> poisoned a'"
    by (auto simp: deallocate_def detonate_def Let_def split: result.splits prod.splits option.splits)
  ultimately show ?thesis by (simp add: allocate_def deallocate_def)
qed

theorem errors_poison_witness:
  "allocate slice_memory (detonate alloc2) mem2 1
    = (detonate alloc2, mem2, Err (Other ''the allocator has been poisoned''))"
  using errors_poison [of slice_memory "detonate alloc2" mem2 1 8] by (simp add: detonate_def)

text \<open>
  \<open>Order::from_size\<close> picks the least power of two: for a request of at most 16 MiB the order is below
  \<open>N_ORDERS\<close>, its size covers the request, and unless the order is 0 half that size would not do.
\<close>

theorem order_from_size_least:
  assumes "unat sz \<le> 2 ^ 24"
  shows "\<exists>r. Order_from_size sz = Ok (Order r) \<and> unat r < N_ORDERS \<and> unat (Order_size (Order r)) = 8 * 2 ^ unat r
      \<and> unat sz \<le> unat (Order_size (Order r)) \<and> (r = 0 \<or> unat (Order_size (Order r)) < 2 * unat sz)"
proof -
  obtain r where r: "Order_from_size sz = Ok (Order r)" "unat r < 22" "unat sz \<le> 8 * 2 ^ unat r"
      "r = 0 \<or> 8 * 2 ^ (unat r - 1) < unat sz"
    using Order_from_size_ok [OF assms] by metis
  have "r \<noteq> 0 \<Longrightarrow> (8::nat) * 2 ^ unat r = 2 * (8 * 2 ^ (unat r - 1))"
    by (cases "unat r") (simp_all add: unat_eq_zero)
  with r(4) have "r = 0 \<or> 8 * 2 ^ unat r < 2 * unat sz" by (cases "r = 0") auto
  with r show ?thesis by (auto simp: Order_size_nat N_ORDERS_def)
qed

theorem order_from_size_least_witness:
  "unat (9 :: u32) \<le> 2 ^ 24 \<and> (\<exists>r. Order_from_size 9 = Ok (Order r) \<and> unat r < N_ORDERS)"
  using order_from_size_least [of 9] by auto



end
