(* ===== verification/SystemAccounts.thy ===== *)
theory SystemAccounts
  imports Prelude
begin

text \<open>
  The account store of \<^verbatim>\<open>frame/system/src/lib.rs\<close>: accounts with a nonce and two reference
  counters, the event log, and the \<open>StoredMap\<close> view other pallets keep their per-account data
  through. A storage map is a function to \<open>option\<close>; its accessors are those of
  \<^verbatim>\<open>frame/support/src/storage/generator/map.rs\<close> for a \<open>ValueQuery\<close> map, whose missing entries
  read as the default. The state is an open record, so that a pallet adds its own storage items.
\<close>

section \<open>Storage maps\<close>

definition map_get :: "'v \<Rightarrow> ('k \<Rightarrow> 'v option) \<Rightarrow> 'k \<Rightarrow> 'v" where
  "map_get dflt m k = (case m k of None \<Rightarrow> dflt | Some v \<Rightarrow> v)"

definition map_contains_key :: "('k \<Rightarrow> 'v option) \<Rightarrow> 'k \<Rightarrow> bool" where
  "map_contains_key m k \<longleftrightarrow> m k \<noteq> None"

definition map_insert :: "'k \<Rightarrow> 'v \<Rightarrow> ('k \<Rightarrow> 'v option) \<Rightarrow> ('k \<Rightarrow> 'v option)" where
  "map_insert k v m = m(k \<mapsto> v)"

definition map_remove :: "'k \<Rightarrow> ('k \<Rightarrow> 'v option) \<Rightarrow> ('k \<Rightarrow> 'v option)" where
  "map_remove k m = m(k := None)"

definition map_mutate :: "'v \<Rightarrow> 'k \<Rightarrow> ('v \<Rightarrow> 'v) \<Rightarrow> ('k \<Rightarrow> 'v option) \<Rightarrow> ('k \<Rightarrow> 'v option)" where
  "map_mutate dflt k f m = map_insert k (f (map_get dflt m k)) m"

lemma map_get_insert [simp]: "map_get d (map_insert k v m) k' = (if k' = k then v else map_get d m k')"
  by (simp add: map_get_def map_insert_def)

lemma map_get_remove [simp]: "map_get d (map_remove k m) k' = (if k' = k then d else map_get d m k')"
  by (simp add: map_get_def map_remove_def)

lemma map_get_mutate [simp]:
  "map_get d (map_mutate d k f m) k' = (if k' = k then f (map_get d m k) else map_get d m k')"
  by (simp add: map_mutate_def)

section \<open>System storage\<close>

type_synonym hash = "u8 list"

datatype Phase = ApplyExtrinsic u32 | Finalization | Initialization

text \<open>The runtime's outer event: the two system events, or an event of another pallet.\<close>

datatype ('acc, 'p) runtime_event = NewAccount 'acc | KilledAccount 'acc | Pallet_event 'p

record ('acc, 'p) EventRecord =
  phase :: Phase
  event :: "('acc, 'p) runtime_event"
  topics :: "hash list"

record 'd AccountInfo =
  nonce :: u32
  consumers :: u32
  providers :: u32
  data :: 'd

record ('acc, 'd, 'p) system =
  account_map :: "'acc \<Rightarrow> 'd AccountInfo option"
  block_number :: u32
  execution_phase :: "Phase option"
  event_count :: u32
  events :: "('acc, 'p) EventRecord list"
  event_topics :: "hash \<Rightarrow> (u32 \<times> u32) list"

datatype 'acc RawOrigin = Root | Signed 'acc | No_origin
datatype IncRefStatus = Created | Existed
datatype DecRefStatus = Reaped | Exists
datatype DecRefError = ConsumerRemaining_ref
datatype IncRefError = NoProviders_ref
datatype StoredMapError = NoProviders_map | ConsumerRemaining_map

definition default_info :: "'d \<Rightarrow> 'd AccountInfo" where
  "default_info d0 = \<lparr>nonce = 0, consumers = 0, providers = 0, data = d0\<rparr>"

definition account_info :: "'d \<Rightarrow> 'acc \<Rightarrow> ('acc, 'd, 'p, 'z) system_scheme \<Rightarrow> 'd AccountInfo" where
  "account_info d0 who st = map_get (default_info d0) (account_map st) who"

section \<open>Origins\<close>

fun ensure_signed :: "'acc RawOrigin \<Rightarrow> 'acc option" where
  "ensure_signed (Signed t) = Some t"
| "ensure_signed _ = None"

fun ensure_root :: "'acc RawOrigin \<Rightarrow> unit option" where
  "ensure_root Root = Some ()"
| "ensure_root _ = None"

section \<open>Events\<close>

definition deposit_event_indexed ::
    "hash list \<Rightarrow> ('acc, 'p) runtime_event \<Rightarrow> ('acc, 'd, 'p, 'z) system_scheme \<Rightarrow> ('acc, 'd, 'p, 'z) system_scheme" where
  "deposit_event_indexed tps ev st =
     (if block_number st = 0 then st
      else
        let rec = \<lparr>phase = (case execution_phase st of None \<Rightarrow> Initialization | Some p \<Rightarrow> p),
                   event = ev, topics = tps\<rparr>;
            old_event_count = event_count st
        in if old_event_count = - 1 then st
           else st\<lparr>event_count := old_event_count + 1, events := events st @ [rec],
                   event_topics := foldl (\<lambda>m t. m(t := m t @ [(block_number st, old_event_count)]))
                     (event_topics st) tps\<rparr>)"

definition deposit_event ::
    "('acc, 'p) runtime_event \<Rightarrow> ('acc, 'd, 'p, 'z) system_scheme \<Rightarrow> ('acc, 'd, 'p, 'z) system_scheme" where
  "deposit_event ev st = deposit_event_indexed [] ev st"

section \<open>Reference counting\<close>

text \<open>
  \<open>OnNewAccount\<close> and \<open>OnKilledAccount\<close> are \<open>()\<close> in the node's runtime, so creating and killing an
  account only deposits the event.
\<close>

definition on_created_account :: "'acc \<Rightarrow> ('acc, 'd, 'p, 'z) system_scheme \<Rightarrow> ('acc, 'd, 'p, 'z) system_scheme" where
  "on_created_account who st = deposit_event (NewAccount who) st"

definition on_killed_account :: "'acc \<Rightarrow> ('acc, 'd, 'p, 'z) system_scheme \<Rightarrow> ('acc, 'd, 'p, 'z) system_scheme" where
  "on_killed_account who st = deposit_event (KilledAccount who) st"

definition saturating_succ :: "u32 \<Rightarrow> u32" where
  "saturating_succ n = (if n = - 1 then n else n + 1)"

definition inc_providers ::
    "'d \<Rightarrow> 'acc \<Rightarrow> ('acc, 'd, 'p, 'z) system_scheme \<Rightarrow> ('acc, 'd, 'p, 'z) system_scheme \<times> IncRefStatus" where
  "inc_providers d0 who st =
     (let a = account_info d0 who st
      in if providers a = 0 then
           let st1 = on_created_account who st
           in (st1\<lparr>account_map := map_insert who (a\<lparr>providers := 1\<rparr>) (account_map st1)\<rparr>, Created)
         else
           (st\<lparr>account_map := map_insert who (a\<lparr>providers := saturating_succ (providers a)\<rparr>) (account_map st)\<rparr>,
            Existed))"

definition dec_providers ::
    "'acc \<Rightarrow> ('acc, 'd, 'p, 'z) system_scheme \<Rightarrow> ('acc, 'd, 'p, 'z) system_scheme \<times> (DecRefError + DecRefStatus)" where
  "dec_providers who st =
     (case account_map st who of
        Some a \<Rightarrow>
          (if providers a = 0 then (st\<lparr>account_map := map_remove who (account_map st)\<rparr>, Inr Reaped)
           else if providers a = 1 then
             (if consumers a = 0 then
                (let st1 = on_killed_account who st
                 in (st1\<lparr>account_map := map_remove who (account_map st1)\<rparr>, Inr Reaped))
              else (st, Inl ConsumerRemaining_ref))
           else
             (st\<lparr>account_map := map_insert who (a\<lparr>providers := providers a - 1\<rparr>) (account_map st)\<rparr>, Inr Exists))
      | None \<Rightarrow> (st\<lparr>account_map := map_remove who (account_map st)\<rparr>, Inr Reaped))"

definition inc_consumers ::
    "'d \<Rightarrow> 'acc \<Rightarrow> ('acc, 'd, 'p, 'z) system_scheme \<Rightarrow> ('acc, 'd, 'p, 'z) system_scheme \<times> (IncRefError + unit)" where
  "inc_consumers d0 who st =
     (let a = account_info d0 who st
      in if providers a > 0 then
           (st\<lparr>account_map := map_insert who (a\<lparr>consumers := saturating_succ (consumers a)\<rparr>) (account_map st)\<rparr>, Inr ())
         else (st, Inl NoProviders_ref))"

definition dec_consumers :: "'d \<Rightarrow> 'acc \<Rightarrow> ('acc, 'd, 'p, 'z) system_scheme \<Rightarrow> ('acc, 'd, 'p, 'z) system_scheme" where
  "dec_consumers d0 who st =
     st\<lparr>account_map := map_mutate (default_info d0) who
          (\<lambda>a. if consumers a > 0 then a\<lparr>consumers := consumers a - 1\<rparr> else a) (account_map st)\<rparr>"

definition is_provider_required :: "'d \<Rightarrow> 'acc \<Rightarrow> ('acc, 'd, 'p, 'z) system_scheme \<Rightarrow> bool" where
  "is_provider_required d0 who st \<longleftrightarrow> consumers (account_info d0 who st) \<noteq> 0"

definition inc_account_nonce :: "'d \<Rightarrow> 'acc \<Rightarrow> ('acc, 'd, 'p, 'z) system_scheme \<Rightarrow> ('acc, 'd, 'p, 'z) system_scheme" where
  "inc_account_nonce d0 who st =
     st\<lparr>account_map := map_mutate (default_info d0) who (\<lambda>a. a\<lparr>nonce := nonce a + 1\<rparr>) (account_map st)\<rparr>"

section \<open>The account store as a StoredMap\<close>

text \<open>
  \<open>f\<close> is the caller's closure: it gets the current value and the state and returns the new state with
  an error or with the new value and a result. \<open>from\<close> is the conversion of \<open>StoredMapError\<close> into the
  caller's error type, and \<open>drp\<close> is the destructor of the result, which runs when the result of the
  closure is thrown away because the account could not be removed.
\<close>

definition stored_get :: "'d \<Rightarrow> 'acc \<Rightarrow> ('acc, 'd, 'p, 'z) system_scheme \<Rightarrow> 'd" where
  "stored_get d0 k st = data (account_info d0 k st)"

definition is_providing :: "'d \<Rightarrow> 'd \<Rightarrow> bool" where
  "is_providing d0 d \<longleftrightarrow> d \<noteq> d0"

definition put_data :: "'d \<Rightarrow> 'acc \<Rightarrow> 'd option \<Rightarrow> ('acc, 'd, 'p, 'z) system_scheme \<Rightarrow> ('acc, 'd, 'p, 'z) system_scheme" where
  "put_data d0 k some_data st =
     st\<lparr>account_map := map_mutate (default_info d0) k
          (\<lambda>a. a\<lparr>data := (case some_data of None \<Rightarrow> d0 | Some d \<Rightarrow> d)\<rparr>) (account_map st)\<rparr>"

definition try_mutate_exists ::
    "'d \<Rightarrow> (StoredMapError \<Rightarrow> 'e) \<Rightarrow> ('r \<Rightarrow> ('acc, 'd, 'p, 'z) system_scheme \<Rightarrow> ('acc, 'd, 'p, 'z) system_scheme) \<Rightarrow>
     'acc \<Rightarrow>
     ('d option \<Rightarrow> ('acc, 'd, 'p, 'z) system_scheme \<Rightarrow> ('acc, 'd, 'p, 'z) system_scheme \<times> ('e + 'd option \<times> 'r)) \<Rightarrow>
     ('acc, 'd, 'p, 'z) system_scheme \<Rightarrow> ('acc, 'd, 'p, 'z) system_scheme \<times> ('e + 'r)" where
  "try_mutate_exists d0 from drp k f st =
     (let account_data = stored_get d0 k st;
          was_providing = is_providing d0 account_data;
          some_data = (if was_providing then Some account_data else None)
      in case f some_data st of
           (st1, Inl e) \<Rightarrow> (st1, Inl e)
         | (st1, Inr (some_data', result)) \<Rightarrow>
             (let now_providing = (some_data' \<noteq> None)
              in if \<not> was_providing \<and> now_providing then
                   (put_data d0 k some_data' (fst (inc_providers d0 k st1)), Inr result)
                 else if was_providing \<and> \<not> now_providing then
                   (case dec_providers k st1 of
                      (st2, Inl ConsumerRemaining_ref) \<Rightarrow> (drp result st2, Inl (from ConsumerRemaining_map))
                    | (st2, Inr Reaped) \<Rightarrow> (st2, Inr result)
                    | (st2, Inr Exists) \<Rightarrow> (put_data d0 k some_data' st2, Inr result))
                 else if \<not> was_providing \<and> \<not> now_providing then (st1, Inr result)
                 else (put_data d0 k some_data' st1, Inr result)))"

end
