(* ===== verification/SystemAccountsSafety.thy ===== *)
theory SystemAccountsSafety
  imports SystemAccounts
begin

text \<open>
  Lemmas on the account store: what each reference-counting operation does to an account, the contract
  of a \<open>StoredMap\<close> as the locale \<open>stored_map\<close>, interpreted on the system pallet, and the runs of the
  store with a ghost count of the consumer references held on each account.
\<close>

section \<open>Events leave the store alone\<close>

lemma deposit_event_account_map [simp]: "account_map (deposit_event ev st) = account_map st"
  by (simp add: deposit_event_def deposit_event_indexed_def Let_def)

lemma deposit_event_more [simp]: "system.more (deposit_event ev st) = system.more st"
  by (simp add: deposit_event_def deposit_event_indexed_def Let_def)

lemma on_created_account_map [simp]: "account_map (on_created_account who st) = account_map st"
  by (simp add: on_created_account_def)

lemma on_killed_account_map [simp]: "account_map (on_killed_account who st) = account_map st"
  by (simp add: on_killed_account_def)

lemma on_created_more [simp]: "system.more (on_created_account who st) = system.more st"
  by (simp add: on_created_account_def)

lemma on_killed_more [simp]: "system.more (on_killed_account who st) = system.more st"
  by (simp add: on_killed_account_def)

lemma account_info_upd [simp]:
  "account_info d0 k (st\<lparr>account_map := m\<rparr>) = map_get (default_info d0) m k"
  by (simp add: account_info_def)

lemma default_info_sel [simp]:
  "nonce (default_info d) = 0" "consumers (default_info d) = 0" "providers (default_info d) = 0"
  "data (default_info d) = d"
  by (simp_all add: default_info_def)

section \<open>The account store satisfies the StoredMap contract\<close>

text \<open>
  \<open>vital k st\<close>: the value of \<open>k\<close> is all that keeps an account alive which others still refer to.
\<close>

definition vital :: "'acc \<Rightarrow> ('acc, 'd, 'p, 'z) system_scheme \<Rightarrow> bool" where
  "vital k st \<longleftrightarrow> (case account_map st k of None \<Rightarrow> False | Some a \<Rightarrow> providers a = 1 \<and> consumers a \<noteq> 0)"

text \<open>What a client of the trait may rely on, for each of the outcomes of its closure.\<close>

locale stored_map =
  fixes get :: "'k \<Rightarrow> 's \<Rightarrow> 'd" and dflt :: 'd and rest :: "'s \<Rightarrow> 'x" and refused :: "'k \<Rightarrow> 's \<Rightarrow> bool"
    and tme :: "(StoredMapError \<Rightarrow> 'e) \<Rightarrow> ('r \<Rightarrow> 's \<Rightarrow> 's) \<Rightarrow> 'k \<Rightarrow>
                ('d option \<Rightarrow> 's \<Rightarrow> 's \<times> ('e + 'd option \<times> 'r)) \<Rightarrow> 's \<Rightarrow> 's \<times> ('e + 'r)"
  assumes tme_err:
    "f (if get k st = dflt then None else Some (get k st)) st = (st1, Inl e) \<Longrightarrow> tme conv drp k f st = (st1, Inl e)"
  and tme_some:
    "f (if get k st = dflt then None else Some (get k st)) st = (st1, Inr (Some d, r)) \<Longrightarrow>
     \<exists>st2. tme conv drp k f st = (st2, Inr r) \<and> (\<forall>k'. get k' st2 = (if k' = k then d else get k' st1)) \<and> rest st2 = rest st1"
  and tme_none:
    "f (if get k st = dflt then None else Some (get k st)) st = (st1, Inr (None, r)) \<Longrightarrow>
     get k st1 = get k st \<Longrightarrow> \<not> (get k st \<noteq> dflt \<and> refused k st1) \<Longrightarrow>
     \<exists>st2. tme conv drp k f st = (st2, Inr r) \<and> (\<forall>k'. get k' st2 = (if k' = k then dflt else get k' st1)) \<and> rest st2 = rest st1"
  and tme_refused:
    "f (if get k st = dflt then None else Some (get k st)) st = (st1, Inr (None, r)) \<Longrightarrow>
     get k st \<noteq> dflt \<Longrightarrow> refused k st1 \<Longrightarrow> tme conv drp k f st = (drp r st1, Inl (conv ConsumerRemaining_map))"
begin

text \<open>The trait's \<open>insert\<close> never fails and is read back.\<close>

lemma insert_lookup:
  "\<exists>st2. tme conv drp k (\<lambda>_ s. (s, Inr (Some t, r))) st = (st2, Inr r) \<and>
         (\<forall>k'. get k' st2 = (if k' = k then t else get k' st)) \<and> rest st2 = rest st"
  by (rule tme_some) simp

text \<open>The trait's \<open>remove\<close> resets the value, or leaves the store as it was.\<close>

lemma remove_lookup:
  "\<exists>st2 x. tme conv (\<lambda>_ s. s) k (\<lambda>_ s. (s, Inr (None, r))) st = (st2, x) \<and> rest st2 = rest st \<and>
     (x = Inr r \<and> (\<forall>k'. get k' st2 = (if k' = k then dflt else get k' st)) \<or>
      x = Inl (conv ConsumerRemaining_map) \<and> st2 = st)"
proof (cases "get k st \<noteq> dflt \<and> refused k st")
  case True
  then show ?thesis
    using tme_refused [of "\<lambda>_ s. (s, Inr (None, r))" k st st r conv "\<lambda>_ s. s"] by auto
next
  case False
  then show ?thesis
    using tme_none [of "\<lambda>_ s. (s, Inr (None, r))" k st st r conv "\<lambda>_ s. s"] by auto
qed

end

lemma stored_get_put_data [simp]:
  "stored_get d0 k' (put_data d0 k sd st) = (if k' = k then (case sd of None \<Rightarrow> d0 | Some d \<Rightarrow> d) else stored_get d0 k' st)"
  by (simp add: stored_get_def put_data_def account_info_def)

lemma put_data_more [simp]: "system.more (put_data d0 k sd st) = system.more st"
  by (simp add: put_data_def)

lemma stored_get_inc_providers [simp]: "stored_get d0 k' (fst (inc_providers d0 k st)) = stored_get d0 k' st"
  by (simp add: stored_get_def inc_providers_def Let_def account_info_def)

lemma inc_providers_more [simp]: "system.more (fst (inc_providers d0 k st)) = system.more st"
  by (simp add: inc_providers_def Let_def)

lemma dec_providers_vital: "vital k st \<Longrightarrow> dec_providers k st = (st, Inl ConsumerRemaining_ref)"
  by (auto simp: vital_def dec_providers_def split: option.splits)

lemma dec_providers_not_vital:
  assumes "\<not> vital k st"
  obtains st2 s where "dec_providers k st = (st2, Inr s)" "system.more st2 = system.more st"
    "\<And>k'. k' \<noteq> k \<Longrightarrow> stored_get d0 k' st2 = stored_get d0 k' st"
    "s = Reaped \<Longrightarrow> stored_get d0 k st2 = d0"
proof -
  have "\<exists>st2 s. dec_providers k st = (st2, Inr s)"
    using assms by (auto simp: vital_def dec_providers_def Let_def split: option.splits)
  then obtain st2 s where dec: "dec_providers k st = (st2, Inr s)" by blast
  show thesis
    by (rule that [OF dec]) (insert dec, auto simp: dec_providers_def Let_def stored_get_def account_info_def split: option.splits if_splits)
qed

lemma try_mutate_exists_err:
  assumes "f (if stored_get d0 k st = d0 then None else Some (stored_get d0 k st)) st = (st1, Inl e)"
  shows "try_mutate_exists d0 conv drp k f st = (st1, Inl e)"
  using assms by (auto simp: try_mutate_exists_def is_providing_def Let_def split: if_splits)

lemma try_mutate_exists_some:
  assumes "f (if stored_get d0 k st = d0 then None else Some (stored_get d0 k st)) st = (st1, Inr (Some d, r))"
  shows "\<exists>st2. try_mutate_exists d0 conv drp k f st = (st2, Inr r) \<and>
           (\<forall>k'. stored_get d0 k' st2 = (if k' = k then d else stored_get d0 k' st1)) \<and> system.more st2 = system.more st1"
  using assms by (cases "stored_get d0 k st = d0") (auto simp: try_mutate_exists_def is_providing_def Let_def)

lemma try_mutate_exists_refused:
  assumes "f (if stored_get d0 k st = d0 then None else Some (stored_get d0 k st)) st = (st1, Inr (None, r))"
    and "stored_get d0 k st \<noteq> d0" "vital k st1"
  shows "try_mutate_exists d0 conv drp k f st = (drp r st1, Inl (conv ConsumerRemaining_map))"
  using assms by (auto simp: try_mutate_exists_def is_providing_def Let_def dec_providers_vital)

lemma try_mutate_exists_none:
  assumes f: "f (if stored_get d0 k st = d0 then None else Some (stored_get d0 k st)) st = (st1, Inr (None, r))"
    and same: "stored_get d0 k st1 = stored_get d0 k st" and nv: "\<not> (stored_get d0 k st \<noteq> d0 \<and> vital k st1)"
  shows "\<exists>st2. try_mutate_exists d0 conv drp k f st = (st2, Inr r) \<and>
           (\<forall>k'. stored_get d0 k' st2 = (if k' = k then d0 else stored_get d0 k' st1)) \<and> system.more st2 = system.more st1"
proof (cases "stored_get d0 k st = d0")
  case True
  then show ?thesis using f same by (auto simp: try_mutate_exists_def is_providing_def Let_def)
next
  case False
  with nv obtain st2 s where "dec_providers k st1 = (st2, Inr s)" "system.more st2 = system.more st1"
    "\<And>k'. k' \<noteq> k \<Longrightarrow> stored_get d0 k' st2 = stored_get d0 k' st1" "s = Reaped \<Longrightarrow> stored_get d0 k st2 = d0"
    using dec_providers_not_vital [of k st1] by metis
  then show ?thesis
    using f False by (cases s) (auto simp: try_mutate_exists_def is_providing_def Let_def)
qed

interpretation sys: stored_map "stored_get d0" d0 system.more vital "try_mutate_exists d0"
  by unfold_locales
    (fact try_mutate_exists_err try_mutate_exists_some try_mutate_exists_none try_mutate_exists_refused)+

section \<open>Runs of the store with the consumer references held\<close>

text \<open>
  \<open>sys_run d0 st held\<close>: \<open>st\<close> is reached from an empty store by the operations of the system pallet, and
  \<open>held k\<close> references taken by successful calls of \<open>inc_consumers\<close> on \<open>k\<close> have not been given back. As the
  source demands, a reference is given back only once; the counter is assumed not to saturate.
\<close>

inductive sys_run :: "'d \<Rightarrow> ('acc, 'd, 'p, 'z) system_scheme \<Rightarrow> ('acc \<Rightarrow> nat) \<Rightarrow> bool" for d0 where
  start: "account_map st = (\<lambda>_. None) \<Longrightarrow> sys_run d0 st (\<lambda>_. 0)"
| provide: "sys_run d0 st h \<Longrightarrow> sys_run d0 (fst (inc_providers d0 k st)) h"
| unprovide: "sys_run d0 st h \<Longrightarrow> sys_run d0 (fst (dec_providers k st)) h"
| consume: "sys_run d0 st h \<Longrightarrow> h k < 2 ^ 32 - 1 \<Longrightarrow> inc_consumers d0 k st = (st', Inr ()) \<Longrightarrow>
    sys_run d0 st' (h(k := h k + 1))"
| consume_err: "sys_run d0 st h \<Longrightarrow> inc_consumers d0 k st = (st', Inl e) \<Longrightarrow> sys_run d0 st' h"
| release: "sys_run d0 st h \<Longrightarrow> 0 < h k \<Longrightarrow> sys_run d0 (dec_consumers d0 k st) (h(k := h k - 1))"
| use_nonce: "sys_run d0 st h \<Longrightarrow> sys_run d0 (inc_account_nonce d0 k st) h"
| mutate: "sys_run d0 st h \<Longrightarrow>
    sys_run d0 (fst (try_mutate_exists d0 (\<lambda>e. e) (\<lambda>_ s. s) k (\<lambda>sd s. (s, Inr (g sd, ()))) st)) h"

definition refs_inv :: "'d \<Rightarrow> ('acc, 'd, 'p, 'z) system_scheme \<Rightarrow> ('acc \<Rightarrow> nat) \<Rightarrow> bool" where
  "refs_inv d0 st h \<longleftrightarrow> (\<forall>k. unat (consumers (account_info d0 k st)) = h k \<and>
     (h k \<noteq> 0 \<longrightarrow> providers (account_info d0 k st) \<noteq> 0))"

lemma saturating_succ_nz [simp]: "saturating_succ n \<noteq> 0"
  using add_eq_0_iff2 [of n 1] by (auto simp: saturating_succ_def)

lemma unat_saturating_succ: "unat n < 2 ^ 32 - 1 \<Longrightarrow> unat (saturating_succ n) = unat n + 1"
proof -
  assume n: "unat n < 2 ^ 32 - 1"
  have "unat (- 1 :: u32) = 2 ^ 32 - 1" by (simp add: unsigned_minus_1_eq_mask mask_eq_exp_minus_1)
  then have "n \<noteq> - 1" using n by auto
  then show ?thesis using n by (simp add: saturating_succ_def unat_add_nowrap)
qed

lemma account_info_inc_providers:
  "account_info d0 k' (fst (inc_providers d0 k st)) =
     (if k' = k then (account_info d0 k st)\<lparr>providers :=
        (if providers (account_info d0 k st) = 0 then 1 else saturating_succ (providers (account_info d0 k st)))\<rparr>
      else account_info d0 k' st)"
  by (simp add: inc_providers_def Let_def account_info_def)

lemma refs_inv_inc_providers: "refs_inv d0 st h \<Longrightarrow> refs_inv d0 (fst (inc_providers d0 k st)) h"
  by (simp add: refs_inv_def account_info_inc_providers)

lemma refs_inv_put_data: "refs_inv d0 st h \<Longrightarrow> refs_inv d0 (put_data d0 k sd st) h"
  by (simp add: refs_inv_def put_data_def account_info_def)

lemma refs_inv_dec_providers:
  assumes "refs_inv d0 st h"
  shows "refs_inv d0 (fst (dec_providers k st)) h"
  unfolding refs_inv_def
proof
  fix k'
  have *: "unat (consumers (account_info d0 k' st)) = h k'" "h k' \<noteq> 0 \<longrightarrow> providers (account_info d0 k' st) \<noteq> 0"
    using assms by (auto simp: refs_inv_def)
  show "unat (consumers (account_info d0 k' (fst (dec_providers k st)))) = h k' \<and>
        (h k' \<noteq> 0 \<longrightarrow> providers (account_info d0 k' (fst (dec_providers k st))) \<noteq> 0)"
  proof (cases "k' = k")
    case False
    with * show ?thesis
      by (auto simp: dec_providers_def Let_def account_info_def split: option.splits)
  next
    case True
    with * show ?thesis
      by (auto simp: dec_providers_def Let_def account_info_def map_get_def map_insert_def map_remove_def
          split: option.splits if_splits)
  qed
qed

lemma refs_inv_inc_consumers:
  assumes "refs_inv d0 st h" "h k < 2 ^ 32 - 1" "inc_consumers d0 k st = (st', Inr ())"
  shows "refs_inv d0 st' (h(k := h k + 1))"
  using assms by (auto simp: refs_inv_def inc_consumers_def Let_def account_info_def unat_saturating_succ split: if_splits)

lemma refs_inv_dec_consumers:
  assumes "refs_inv d0 st h" "0 < h k"
  shows "refs_inv d0 (dec_consumers d0 k st) (h(k := h k - 1))"
proof -
  have c: "unat (consumers (account_info d0 k st)) = h k" using assms by (simp add: refs_inv_def)
  then have "consumers (account_info d0 k st) \<noteq> 0" using assms(2) by (metis less_numeral_extra(3) unat_0)
  then have "unat (consumers (account_info d0 k st) - 1) = h k - 1"
    using c by (simp add: unat_minus_one)
  then show ?thesis
    using assms \<open>consumers (account_info d0 k st) \<noteq> 0\<close>
    by (auto simp: refs_inv_def dec_consumers_def account_info_def word_neq_0_conv)
qed

lemma refs_inv_mutate:
  assumes "refs_inv d0 st h"
  shows "refs_inv d0 (fst (try_mutate_exists d0 (\<lambda>e. e) (\<lambda>_ s. s) k (\<lambda>sd s. (s, Inr (g sd, ()))) st)) h"
  using refs_inv_dec_providers [OF assms, of k] assms
  by (auto simp: try_mutate_exists_def Let_def refs_inv_inc_providers refs_inv_put_data
      split: prod.splits sum.splits DecRefError.splits DecRefStatus.splits)

lemma sys_run_refs_inv: "sys_run d0 st h \<Longrightarrow> refs_inv d0 st h"
proof (induction rule: sys_run.induct)
  case (start st)
  then show ?case by (simp add: refs_inv_def account_info_def map_get_def)
next
  case (consume_err st h k st' e)
  then show ?case by (auto simp: inc_consumers_def Let_def split: if_splits)
next
  case (use_nonce st h k)
  then show ?case by (auto simp: refs_inv_def inc_account_nonce_def account_info_def)
next
  case (consume st h k st')
  then show ?case by (intro refs_inv_inc_consumers)
next
  case (release st h k)
  then show ?case by (intro refs_inv_dec_consumers)
qed (simp_all add: refs_inv_inc_providers refs_inv_dec_providers refs_inv_mutate)

section \<open>Properties\<close>

text \<open>
  C15. The reference counters do what they are for. In every state the store reaches, the consumer counter
  of an account is exactly the number of references held on it, and an account somebody holds a
  reference on is in the store with a provider, whatever other pallets did to its providers and its
  data in between; removing its last provider is refused and changes nothing.
\<close>

theorem consumers_keep_account:
  assumes "sys_run d0 st held"
  shows "unat (consumers (account_info d0 k st)) = held k \<and>
    (held k \<noteq> 0 \<longrightarrow> (\<exists>a. account_map st k = Some a \<and> providers a \<noteq> 0)) \<and>
    (held k \<noteq> 0 \<longrightarrow> providers (account_info d0 k st) = 1 \<longrightarrow> dec_providers k st = (st, Inl ConsumerRemaining_ref))"
proof -
  have inv: "unat (consumers (account_info d0 k st)) = held k"
    "held k \<noteq> 0 \<longrightarrow> providers (account_info d0 k st) \<noteq> 0"
    using sys_run_refs_inv [OF assms] by (auto simp: refs_inv_def)
  have ex: "\<exists>a. account_map st k = Some a \<and> providers a \<noteq> 0" if "held k \<noteq> 0"
    using inv that by (cases "account_map st k") (auto simp: account_info_def map_get_def)
  have "dec_providers k st = (st, Inl ConsumerRemaining_ref)"
    if "held k \<noteq> 0" "providers (account_info d0 k st) = 1"
    using ex inv that by (intro dec_providers_vital) (auto simp: vital_def account_info_def map_get_def)
  with ex inv show ?thesis by blast
qed

definition empty_system :: "('acc, 'd, 'p) system" where
  "empty_system = \<lparr>account_map = (\<lambda>_. None), block_number = 1, execution_phase = None, event_count = 0,
     events = [], event_topics = (\<lambda>_. [])\<rparr>"

definition one_consumer :: "(nat, nat, unit) system" where
  "one_consumer = fst (inc_consumers 0 7 (fst (inc_providers 0 7 empty_system)))"

lemma one_consumer_run: "sys_run 0 one_consumer ((\<lambda>_. 0)(7 := 1))"
proof -
  let ?s = "fst (inc_providers 0 7 empty_system) :: (nat, nat, unit) system"
  have "sys_run 0 ?s (\<lambda>_. 0)" by (intro provide start) (simp add: empty_system_def)
  moreover have "inc_consumers 0 7 ?s = (one_consumer, Inr ())"
    by (simp add: one_consumer_def inc_consumers_def account_info_inc_providers Let_def word_neq_0_conv [symmetric])
  ultimately show ?thesis using consume [of 0 ?s "\<lambda>_. 0" 7 one_consumer] by simp
qed

theorem consumers_keep_account_witness:
  "dec_providers 7 one_consumer = (one_consumer, Inl ConsumerRemaining_ref) \<and>
   unat (consumers (account_info 0 7 one_consumer)) = 1"
proof -
  have "providers (account_info 0 7 one_consumer) = 1"
    by (simp add: one_consumer_def inc_consumers_def account_info_inc_providers Let_def account_info_def
        empty_system_def map_get_def map_insert_def inc_providers_def on_created_account_def)
  then show ?thesis
    using consumers_keep_account [OF one_consumer_run, of 7]
    by simp
qed

end
