(* ===== verification/Balances.thy ===== *)
theory Balances
  imports SystemAccounts
begin

unbundle bit_operations_syntax

text \<open>
  The balances pallet, \<^verbatim>\<open>frame/balances/src/lib.rs\<close>: account data, imbalances with their destructors,
  and the implementations of \<open>Currency\<close>, \<open>ReservableCurrency\<close> and \<open>LockableCurrency\<close>. The account store
  is the one of the system pallet, as in the node's runtime, and the dust handler is \<open>()\<close>, which drops
  the imbalance. A balance is a \<open>u128\<close>, here a natural number with the checked, saturating and wrapping
  operations of the type written out; subtractions the source guards by a minimum or a comparison are
  subtractions of natural numbers. The existential deposit \<open>ed\<close> is a parameter, as in the pallet's
  configuration. An operation that fails keeps whatever it had already written.
\<close>

section \<open>Balances\<close>

type_synonym balance = nat

definition BAL_MAX :: balance where
  "BAL_MAX = 2 ^ 128 - 1"

definition checked_add :: "balance \<Rightarrow> balance \<Rightarrow> balance option" where
  "checked_add a b = (if a + b \<le> BAL_MAX then Some (a + b) else None)"

definition checked_sub :: "balance \<Rightarrow> balance \<Rightarrow> balance option" where
  "checked_sub a b = (if b \<le> a then Some (a - b) else None)"

definition saturating_add :: "balance \<Rightarrow> balance \<Rightarrow> balance" where
  "saturating_add a b = min (a + b) BAL_MAX"

definition saturating_sub :: "balance \<Rightarrow> balance \<Rightarrow> balance" where
  "saturating_sub a b = a - b"

definition wrapping_add :: "balance \<Rightarrow> balance \<Rightarrow> balance" where
  "wrapping_add a b = (a + b) mod 2 ^ 128"

section \<open>Pallet types\<close>

datatype Reasons = Fee | Misc | All

type_synonym WithdrawReasons = "8 word"

definition TRANSACTION_PAYMENT :: WithdrawReasons where "TRANSACTION_PAYMENT = 0b00000001"
definition TRANSFER :: WithdrawReasons where "TRANSFER = 0b00000010"
definition RESERVE :: WithdrawReasons where "RESERVE = 0b00000100"

definition Reasons_from :: "WithdrawReasons \<Rightarrow> Reasons" where
  "Reasons_from r =
     (if r = TRANSACTION_PAYMENT then Fee
      else if r AND TRANSACTION_PAYMENT = TRANSACTION_PAYMENT then All
      else Misc)"

definition Reasons_bitor :: "Reasons \<Rightarrow> Reasons \<Rightarrow> Reasons" where
  "Reasons_bitor a b = (if a = b then a else All)"

type_synonym LockIdentifier = "u8 list"

record BalanceLock =
  lock_id :: LockIdentifier
  amount :: balance
  reasons :: Reasons

record AccountData =
  free :: balance
  reserved :: balance
  misc_frozen :: balance
  fee_frozen :: balance

definition default_data :: AccountData where
  "default_data = \<lparr>free = 0, reserved = 0, misc_frozen = 0, fee_frozen = 0\<rparr>"

definition frozen :: "AccountData \<Rightarrow> Reasons \<Rightarrow> balance" where
  "frozen a r = (case r of All \<Rightarrow> max (misc_frozen a) (fee_frozen a) | Misc \<Rightarrow> misc_frozen a | Fee \<Rightarrow> fee_frozen a)"

definition usable :: "AccountData \<Rightarrow> Reasons \<Rightarrow> balance" where
  "usable a r = saturating_sub (free a) (frozen a r)"

definition total :: "AccountData \<Rightarrow> balance" where
  "total a = saturating_add (free a) (reserved a)"

datatype BalanceStatus = Status_Free | Status_Reserved
datatype ExistenceRequirement = KeepAlive | AllowDeath

datatype 'acc BalancesEvent =
    Endowed 'acc balance
  | DustLost 'acc balance
  | Transfer 'acc 'acc balance
  | BalanceSet 'acc balance balance
  | Deposit 'acc balance
  | Reserved 'acc balance
  | Unreserved 'acc balance
  | ReserveRepatriated 'acc 'acc balance BalanceStatus

datatype BalancesError =
    VestingBalance | LiquidityRestrictions | Overflow | InsufficientBalance
  | ExistentialDeposit | KeepAliveError | ExistingVestingSchedule | DeadAccount

text \<open>
  The variants of \<open>sp_runtime::DispatchError\<close>; the module variant carries the pallet's error value in
  place of its index and message.
\<close>

datatype DispatchError =
    OtherError string | CannotLookup | BadOrigin | ModuleError BalancesError
  | ConsumerRemaining | NoProviders

fun DispatchError_from :: "StoredMapError \<Rightarrow> DispatchError" where
  "DispatchError_from NoProviders_map = NoProviders"
| "DispatchError_from ConsumerRemaining_map = ConsumerRemaining"

text \<open>The pallet's storage next to the system's; \<open>'q\<close> stands for the events of the other pallets.\<close>

record ('acc, 'q) balances_state = "('acc, AccountData, 'acc BalancesEvent + 'q) system" +
  total_issuance :: balance
  locks_map :: "'acc \<Rightarrow> BalanceLock list option"

type_synonym ('acc, 'q, 'z) bst = "('acc, 'q, 'z) balances_state_scheme"

definition balances_event :: "'acc BalancesEvent \<Rightarrow> ('acc, 'q, 'z) bst \<Rightarrow> ('acc, 'q, 'z) bst" where
  "balances_event ev st = deposit_event (Pallet_event (Inl ev)) st"

section \<open>Imbalances\<close>

datatype PositiveImbalance = PositiveImbalance (pos_peek: balance)
datatype NegativeImbalance = NegativeImbalance (neg_peek: balance)
datatype SignedImbalance = Positive PositiveImbalance | Negative NegativeImbalance

definition pos_drop :: "PositiveImbalance \<Rightarrow> ('acc, 'q, 'z) bst \<Rightarrow> ('acc, 'q, 'z) bst" where
  "pos_drop p st = st\<lparr>total_issuance := saturating_add (total_issuance st) (pos_peek p)\<rparr>"

definition neg_drop :: "NegativeImbalance \<Rightarrow> ('acc, 'q, 'z) bst \<Rightarrow> ('acc, 'q, 'z) bst" where
  "neg_drop n st = st\<lparr>total_issuance := saturating_sub (total_issuance st) (neg_peek n)\<rparr>"

fun signed_drop :: "SignedImbalance \<Rightarrow> ('acc, 'q, 'z) bst \<Rightarrow> ('acc, 'q, 'z) bst" where
  "signed_drop (Positive p) st = pos_drop p st"
| "signed_drop (Negative n) st = neg_drop n st"

definition pos_drop_zero :: "PositiveImbalance \<Rightarrow> PositiveImbalance + unit" where
  "pos_drop_zero p = (if pos_peek p = 0 then Inr () else Inl p)"

definition neg_drop_zero :: "NegativeImbalance \<Rightarrow> NegativeImbalance + unit" where
  "neg_drop_zero n = (if neg_peek n = 0 then Inr () else Inl n)"

definition pos_split :: "PositiveImbalance \<Rightarrow> balance \<Rightarrow> PositiveImbalance \<times> PositiveImbalance" where
  "pos_split p a = (let first = min (pos_peek p) a; second = pos_peek p - first
                    in (PositiveImbalance first, PositiveImbalance second))"

definition neg_split :: "NegativeImbalance \<Rightarrow> balance \<Rightarrow> NegativeImbalance \<times> NegativeImbalance" where
  "neg_split n a = (let first = min (neg_peek n) a; second = neg_peek n - first
                    in (NegativeImbalance first, NegativeImbalance second))"

definition pos_merge :: "PositiveImbalance \<Rightarrow> PositiveImbalance \<Rightarrow> PositiveImbalance" where
  "pos_merge p q = PositiveImbalance (saturating_add (pos_peek p) (pos_peek q))"

definition neg_merge :: "NegativeImbalance \<Rightarrow> NegativeImbalance \<Rightarrow> NegativeImbalance" where
  "neg_merge n m = NegativeImbalance (saturating_add (neg_peek n) (neg_peek m))"

definition pos_offset :: "PositiveImbalance \<Rightarrow> NegativeImbalance \<Rightarrow> NegativeImbalance + PositiveImbalance" where
  "pos_offset p n = (let a = pos_peek p; b = neg_peek n
                     in if a \<ge> b then Inr (PositiveImbalance (a - b)) else Inl (NegativeImbalance (b - a)))"

definition neg_offset :: "NegativeImbalance \<Rightarrow> PositiveImbalance \<Rightarrow> PositiveImbalance + NegativeImbalance" where
  "neg_offset n p = (let a = neg_peek n; b = pos_peek p
                     in if a \<ge> b then Inr (NegativeImbalance (a - b)) else Inl (PositiveImbalance (b - a)))"

section \<open>Reading and changing an account\<close>

definition account :: "'acc \<Rightarrow> ('acc, 'q, 'z) bst \<Rightarrow> AccountData" where
  "account who st = stored_get default_data who st"

definition free_balance :: "'acc \<Rightarrow> ('acc, 'q, 'z) bst \<Rightarrow> balance" where
  "free_balance who st = free (account who st)"

definition reserved_balance :: "'acc \<Rightarrow> ('acc, 'q, 'z) bst \<Rightarrow> balance" where
  "reserved_balance who st = reserved (account who st)"

definition usable_balance :: "'acc \<Rightarrow> ('acc, 'q, 'z) bst \<Rightarrow> balance" where
  "usable_balance who st = usable (account who st) Misc"

definition usable_balance_for_fees :: "'acc \<Rightarrow> ('acc, 'q, 'z) bst \<Rightarrow> balance" where
  "usable_balance_for_fees who st = usable (account who st) Fee"

definition total_balance :: "'acc \<Rightarrow> ('acc, 'q, 'z) bst \<Rightarrow> balance" where
  "total_balance who st = total (account who st)"

definition post_mutation ::
    "balance \<Rightarrow> 'acc \<Rightarrow> AccountData \<Rightarrow> ('acc, 'q, 'z) bst \<Rightarrow> ('acc, 'q, 'z) bst \<times> AccountData option" where
  "post_mutation ed who new st =
     (let t = total new
      in if t < ed then
           ((if t \<noteq> 0 then balances_event (DustLost who t) (neg_drop (NegativeImbalance t) st) else st), None)
         else (st, Some new))"

text \<open>The closure \<open>try_mutate_account\<close> passes to the store.\<close>

definition mutate_closure ::
    "balance \<Rightarrow> 'acc \<Rightarrow>
     (AccountData \<Rightarrow> bool \<Rightarrow> ('acc, 'q, 'z) bst \<Rightarrow> ('acc, 'q, 'z) bst \<times> ('e + AccountData \<times> 'r)) \<Rightarrow>
     AccountData option \<Rightarrow> ('acc, 'q, 'z) bst \<Rightarrow>
     ('acc, 'q, 'z) bst \<times> ('e + AccountData option \<times> (balance option \<times> 'r))" where
  "mutate_closure ed who f maybe_account st =
     (let is_new = (maybe_account = None);
          a = (case maybe_account of None \<Rightarrow> default_data | Some d \<Rightarrow> d)
      in case f a is_new st of
           (st1, Inl e) \<Rightarrow> (st1, Inl e)
         | (st1, Inr (a', result)) \<Rightarrow>
             (let maybe_endowed = (if is_new then Some (free a') else None);
                  (st2, maybe_account') = post_mutation ed who a' st1
              in (st2, Inr (maybe_account', (maybe_endowed, result)))))"

definition try_mutate_account ::
    "balance \<Rightarrow> (StoredMapError \<Rightarrow> 'e) \<Rightarrow> ('r \<Rightarrow> ('acc, 'q, 'z) bst \<Rightarrow> ('acc, 'q, 'z) bst) \<Rightarrow> 'acc \<Rightarrow>
     (AccountData \<Rightarrow> bool \<Rightarrow> ('acc, 'q, 'z) bst \<Rightarrow> ('acc, 'q, 'z) bst \<times> ('e + AccountData \<times> 'r)) \<Rightarrow>
     ('acc, 'q, 'z) bst \<Rightarrow> ('acc, 'q, 'z) bst \<times> ('e + 'r)" where
  "try_mutate_account ed from drp who f st =
     (case try_mutate_exists default_data from (\<lambda>(_, r). drp r) who (mutate_closure ed who f) st of
        (st3, Inl e) \<Rightarrow> (st3, Inl e)
      | (st3, Inr (maybe_endowed, result)) \<Rightarrow>
          ((case maybe_endowed of Some endowed \<Rightarrow> balances_event (Endowed who endowed) st3 | None \<Rightarrow> st3),
           Inr result))"

text \<open>A closure that cannot fail; the state it gets is only written through destructors.\<close>

definition mutate_account ::
    "balance \<Rightarrow> ('r \<Rightarrow> ('acc, 'q, 'z) bst \<Rightarrow> ('acc, 'q, 'z) bst) \<Rightarrow> 'acc \<Rightarrow>
     (AccountData \<Rightarrow> ('acc, 'q, 'z) bst \<Rightarrow> ('acc, 'q, 'z) bst \<times> (AccountData \<times> 'r)) \<Rightarrow>
     ('acc, 'q, 'z) bst \<Rightarrow> ('acc, 'q, 'z) bst \<times> (StoredMapError + 'r)" where
  "mutate_account ed drp who f st =
     try_mutate_account ed (\<lambda>e. e) drp who (\<lambda>a _ st0. case f a st0 of (st1, r) \<Rightarrow> (st1, Inr r)) st"

definition no_drop :: "'r \<Rightarrow> ('acc, 'q, 'z) bst \<Rightarrow> ('acc, 'q, 'z) bst" where
  "no_drop r st = st"

section \<open>Currency\<close>

definition can_slash :: "'acc \<Rightarrow> balance \<Rightarrow> ('acc, 'q, 'z) bst \<Rightarrow> bool" where
  "can_slash who value st \<longleftrightarrow> (if value = 0 then True else free_balance who st \<ge> value)"

definition burn :: "balance \<Rightarrow> ('acc, 'q, 'z) bst \<Rightarrow> ('acc, 'q, 'z) bst \<times> PositiveImbalance" where
  "burn amt st =
     (if amt = 0 then (st, PositiveImbalance 0)
      else case checked_sub (total_issuance st) amt of
             Some issued \<Rightarrow> (st\<lparr>total_issuance := issued\<rparr>, PositiveImbalance amt)
           | None \<Rightarrow> (st\<lparr>total_issuance := 0\<rparr>, PositiveImbalance (total_issuance st)))"

definition issue :: "balance \<Rightarrow> ('acc, 'q, 'z) bst \<Rightarrow> ('acc, 'q, 'z) bst \<times> NegativeImbalance" where
  "issue amt st =
     (if amt = 0 then (st, NegativeImbalance 0)
      else case checked_add (total_issuance st) amt of
             Some issued \<Rightarrow> (st\<lparr>total_issuance := issued\<rparr>, NegativeImbalance amt)
           | None \<Rightarrow> (st\<lparr>total_issuance := BAL_MAX\<rparr>, NegativeImbalance (BAL_MAX - total_issuance st)))"

definition ensure_can_withdraw ::
    "'acc \<Rightarrow> balance \<Rightarrow> WithdrawReasons \<Rightarrow> balance \<Rightarrow> ('acc, 'q, 'z) bst \<Rightarrow> DispatchError + unit" where
  "ensure_can_withdraw who amt rs new_balance st =
     (if amt = 0 then Inr ()
      else let min_balance = frozen (account who st) (Reasons_from rs)
           in if new_balance \<ge> min_balance then Inr () else Inl (ModuleError LiquidityRestrictions))"

text \<open>The inner closure of \<open>transfer\<close>; the new data of the destination is its result.\<close>

definition transfer_from ::
    "balance \<Rightarrow> 'acc \<Rightarrow> balance \<Rightarrow> ExistenceRequirement \<Rightarrow> AccountData \<Rightarrow>
     AccountData \<Rightarrow> bool \<Rightarrow> ('acc, 'q, 'z) bst \<Rightarrow>
     ('acc, 'q, 'z) bst \<times> (DispatchError + AccountData \<times> AccountData)" where
  "transfer_from ed transactor value existence_requirement to_account from_account is_new st =
     (st,
      case checked_sub (free from_account) value of
        None \<Rightarrow> Inl (ModuleError InsufficientBalance)
      | Some from_free \<Rightarrow>
        (case checked_add (free to_account) value of
           None \<Rightarrow> Inl (ModuleError Overflow)
         | Some to_free \<Rightarrow>
           (let from' = from_account\<lparr>free := from_free\<rparr>; to' = to_account\<lparr>free := to_free\<rparr>
            in if \<not> total to' \<ge> ed then Inl (ModuleError ExistentialDeposit)
               else case ensure_can_withdraw transactor value TRANSFER (free from') st of
                 Inl _ \<Rightarrow> Inl (ModuleError LiquidityRestrictions)
               | Inr _ \<Rightarrow>
                 (let allow_death = (existence_requirement = AllowDeath);
                      allow_death = (allow_death \<and> \<not> is_provider_required default_data transactor st)
                  in if \<not> (allow_death \<or> free from' \<ge> ed) then Inl (ModuleError KeepAliveError)
                     else Inr (from', to')))))"

definition transfer ::
    "balance \<Rightarrow> 'acc \<Rightarrow> 'acc \<Rightarrow> balance \<Rightarrow> ExistenceRequirement \<Rightarrow> ('acc, 'q, 'z) bst \<Rightarrow>
     ('acc, 'q, 'z) bst \<times> (DispatchError + unit)" where
  "transfer ed transactor dest value existence_requirement st =
     (if value = 0 \<or> transactor = dest then (st, Inr ())
      else
        case try_mutate_account ed DispatchError_from no_drop dest
               (\<lambda>to_account _ st0.
                  case try_mutate_account ed DispatchError_from no_drop transactor
                         (transfer_from ed transactor value existence_requirement to_account) st0 of
                    (st1, Inl e) \<Rightarrow> (st1, Inl e)
                  | (st1, Inr to') \<Rightarrow> (st1, Inr (to', ()))) st of
          (st2, Inl e) \<Rightarrow> (st2, Inl e)
        | (st2, Inr _) \<Rightarrow> (balances_event (Transfer transactor dest value) st2, Inr ()))"

text \<open>
  \<open>slash\<close> tries twice: first the full value, then, when the store refuses to remove the account, as
  much as leaves the existential deposit.
\<close>

definition slash_closure :: "balance \<Rightarrow> nat \<Rightarrow> balance \<Rightarrow> AccountData \<Rightarrow> AccountData \<times> (NegativeImbalance \<times> balance)" where
  "slash_closure ed attempt value a =
     (let best_value = (if attempt = 0 then value
                        else min value (saturating_sub (wrapping_add (free a) (reserved a)) ed));
          free_slash = min (free a) best_value;
          a1 = a\<lparr>free := free a - free_slash\<rparr>;
          remaining_slash = best_value - free_slash
      in if remaining_slash \<noteq> 0 then
           let reserved_slash = min (reserved a1) remaining_slash
           in (a1\<lparr>reserved := reserved a1 - reserved_slash\<rparr>,
               (NegativeImbalance (wrapping_add free_slash reserved_slash), value - free_slash - reserved_slash))
         else (a1, (NegativeImbalance free_slash, value - free_slash)))"

definition slash_drop :: "NegativeImbalance \<times> balance \<Rightarrow> ('acc, 'q, 'z) bst \<Rightarrow> ('acc, 'q, 'z) bst" where
  "slash_drop r st = neg_drop (fst r) st"

definition slash_attempt ::
    "balance \<Rightarrow> nat \<Rightarrow> 'acc \<Rightarrow> balance \<Rightarrow> ('acc, 'q, 'z) bst \<Rightarrow>
     ('acc, 'q, 'z) bst \<times> (StoredMapError + NegativeImbalance \<times> balance)" where
  "slash_attempt ed attempt who value st =
     try_mutate_account ed (\<lambda>e. e) slash_drop who (\<lambda>a _ st0. (st0, Inr (slash_closure ed attempt value a))) st"

definition slash ::
    "balance \<Rightarrow> 'acc \<Rightarrow> balance \<Rightarrow> ('acc, 'q, 'z) bst \<Rightarrow> ('acc, 'q, 'z) bst \<times> (NegativeImbalance \<times> balance)" where
  "slash ed who value st =
     (if value = 0 then (st, (NegativeImbalance 0, 0))
      else if total_balance who st = 0 then (st, (NegativeImbalance 0, value))
      else case slash_attempt ed 0 who value st of
             (st1, Inr r) \<Rightarrow> (st1, r)
           | (st1, Inl _) \<Rightarrow>
               (case slash_attempt ed 1 who value st1 of
                  (st2, Inr r) \<Rightarrow> (st2, r)
                | (st2, Inl _) \<Rightarrow> (st2, (NegativeImbalance 0, value))))"

definition deposit_existing_closure ::
    "balance \<Rightarrow> AccountData \<Rightarrow> bool \<Rightarrow> ('acc, 'q, 'z) bst \<Rightarrow>
     ('acc, 'q, 'z) bst \<times> (DispatchError + AccountData \<times> PositiveImbalance)" where
  "deposit_existing_closure value a is_new st =
     (st,
      if is_new then Inl (ModuleError DeadAccount)
      else case checked_add (free a) value of
             None \<Rightarrow> Inl (ModuleError Overflow)
           | Some x \<Rightarrow> Inr (a\<lparr>free := x\<rparr>, PositiveImbalance value))"

definition deposit_into_existing ::
    "balance \<Rightarrow> 'acc \<Rightarrow> balance \<Rightarrow> ('acc, 'q, 'z) bst \<Rightarrow>
     ('acc, 'q, 'z) bst \<times> (DispatchError + PositiveImbalance)" where
  "deposit_into_existing ed who value st =
     (if value = 0 then (st, Inr (PositiveImbalance 0))
      else try_mutate_account ed DispatchError_from pos_drop who (deposit_existing_closure value) st)"

definition deposit_creating_closure ::
    "balance \<Rightarrow> balance \<Rightarrow> AccountData \<Rightarrow> bool \<Rightarrow> ('acc, 'q, 'z) bst \<Rightarrow>
     ('acc, 'q, 'z) bst \<times> (DispatchError + AccountData \<times> PositiveImbalance)" where
  "deposit_creating_closure ed value a is_new st =
     (st,
      if \<not> (value \<ge> ed \<or> \<not> is_new) then Inl (ModuleError ExistentialDeposit)
      else case checked_add (free a) value of
             None \<Rightarrow> Inr (a, PositiveImbalance 0)
           | Some x \<Rightarrow> Inr (a\<lparr>free := x\<rparr>, PositiveImbalance value))"

definition deposit_creating ::
    "balance \<Rightarrow> 'acc \<Rightarrow> balance \<Rightarrow> ('acc, 'q, 'z) bst \<Rightarrow> ('acc, 'q, 'z) bst \<times> PositiveImbalance" where
  "deposit_creating ed who value st =
     (if value = 0 then (st, PositiveImbalance 0)
      else case try_mutate_account ed DispatchError_from pos_drop who (deposit_creating_closure ed value) st of
             (st1, Inr p) \<Rightarrow> (st1, p)
           | (st1, Inl _) \<Rightarrow> (st1, PositiveImbalance 0))"

definition withdraw_closure ::
    "balance \<Rightarrow> 'acc \<Rightarrow> balance \<Rightarrow> WithdrawReasons \<Rightarrow> ExistenceRequirement \<Rightarrow> AccountData \<Rightarrow> bool \<Rightarrow> ('acc, 'q, 'z) bst \<Rightarrow>
     ('acc, 'q, 'z) bst \<times> (DispatchError + AccountData \<times> NegativeImbalance)" where
  "withdraw_closure ed who value rs liveness a is_new st =
     (st,
      case checked_sub (free a) value of
        None \<Rightarrow> Inl (ModuleError InsufficientBalance)
      | Some new_free_account \<Rightarrow>
        (let would_be_dead = (wrapping_add new_free_account (reserved a) < ed);
             would_kill = (would_be_dead \<and> wrapping_add (free a) (reserved a) \<ge> ed)
         in if \<not> (liveness = AllowDeath \<or> \<not> would_kill) then Inl (ModuleError KeepAliveError)
            else case ensure_can_withdraw who value rs new_free_account st of
                   Inl e \<Rightarrow> Inl e
                 | Inr _ \<Rightarrow> Inr (a\<lparr>free := new_free_account\<rparr>, NegativeImbalance value)))"

definition withdraw ::
    "balance \<Rightarrow> 'acc \<Rightarrow> balance \<Rightarrow> WithdrawReasons \<Rightarrow> ExistenceRequirement \<Rightarrow> ('acc, 'q, 'z) bst \<Rightarrow>
     ('acc, 'q, 'z) bst \<times> (DispatchError + NegativeImbalance)" where
  "withdraw ed who value rs liveness st =
     (if value = 0 then (st, Inr (NegativeImbalance 0))
      else try_mutate_account ed DispatchError_from neg_drop who (withdraw_closure ed who value rs liveness) st)"

definition make_free_closure ::
    "balance \<Rightarrow> balance \<Rightarrow> AccountData \<Rightarrow> bool \<Rightarrow> ('acc, 'q, 'z) bst \<Rightarrow>
     ('acc, 'q, 'z) bst \<times> (DispatchError + AccountData \<times> SignedImbalance)" where
  "make_free_closure ed value a is_new st =
     (st,
      let t = saturating_add value (reserved a)
      in if \<not> (t \<ge> ed \<or> \<not> is_new) then Inl (ModuleError ExistentialDeposit)
         else let imbalance = (if free a \<le> value then Positive (PositiveImbalance (value - free a))
                               else Negative (NegativeImbalance (free a - value)))
              in Inr (a\<lparr>free := value\<rparr>, imbalance))"

definition make_free_balance_be ::
    "balance \<Rightarrow> 'acc \<Rightarrow> balance \<Rightarrow> ('acc, 'q, 'z) bst \<Rightarrow> ('acc, 'q, 'z) bst \<times> SignedImbalance" where
  "make_free_balance_be ed who value st =
     (case try_mutate_account ed DispatchError_from signed_drop who (make_free_closure ed value) st of
        (st1, Inr r) \<Rightarrow> (st1, r)
      | (st1, Inl _) \<Rightarrow> (st1, Positive (PositiveImbalance 0)))"

section \<open>ReservableCurrency\<close>

definition can_reserve :: "'acc \<Rightarrow> balance \<Rightarrow> ('acc, 'q, 'z) bst \<Rightarrow> bool" where
  "can_reserve who value st \<longleftrightarrow>
     (if value = 0 then True
      else case checked_sub (free (account who st)) value of
             None \<Rightarrow> False
           | Some new_balance \<Rightarrow> ensure_can_withdraw who value RESERVE new_balance st = Inr ())"

definition reserve_closure ::
    "'acc \<Rightarrow> balance \<Rightarrow> AccountData \<Rightarrow> bool \<Rightarrow> ('acc, 'q, 'z) bst \<Rightarrow>
     ('acc, 'q, 'z) bst \<times> (DispatchError + AccountData \<times> unit)" where
  "reserve_closure who value a is_new st =
     (st,
      case checked_sub (free a) value of
        None \<Rightarrow> Inl (ModuleError InsufficientBalance)
      | Some f \<Rightarrow>
        (case checked_add (reserved a) value of
           None \<Rightarrow> Inl (ModuleError Overflow)
         | Some r \<Rightarrow>
           (case ensure_can_withdraw who value RESERVE f st of
              Inl e \<Rightarrow> Inl e
            | Inr _ \<Rightarrow> Inr (a\<lparr>free := f, reserved := r\<rparr>, ()))))"

definition reserve ::
    "balance \<Rightarrow> 'acc \<Rightarrow> balance \<Rightarrow> ('acc, 'q, 'z) bst \<Rightarrow> ('acc, 'q, 'z) bst \<times> (DispatchError + unit)" where
  "reserve ed who value st =
     (if value = 0 then (st, Inr ())
      else case try_mutate_account ed DispatchError_from no_drop who (reserve_closure who value) st of
             (st1, Inl e) \<Rightarrow> (st1, Inl e)
           | (st1, Inr _) \<Rightarrow> (balances_event (Reserved who value) st1, Inr ()))"

definition unreserve_closure :: "balance \<Rightarrow> AccountData \<Rightarrow> ('acc, 'q, 'z) bst \<Rightarrow> ('acc, 'q, 'z) bst \<times> (AccountData \<times> balance)" where
  "unreserve_closure value a st =
     (let actual = min (reserved a) value
      in (st, (a\<lparr>reserved := reserved a - actual, free := saturating_add (free a) actual\<rparr>, actual)))"

definition unreserve ::
    "balance \<Rightarrow> 'acc \<Rightarrow> balance \<Rightarrow> ('acc, 'q, 'z) bst \<Rightarrow> ('acc, 'q, 'z) bst \<times> balance" where
  "unreserve ed who value st =
     (if value = 0 then (st, 0)
      else if total_balance who st = 0 then (st, value)
      else case mutate_account ed no_drop who (unreserve_closure value) st of
             (st1, Inr actual) \<Rightarrow> (balances_event (Unreserved who actual) st1, value - actual)
           | (st1, Inl _) \<Rightarrow> (st1, value))"

definition slash_reserved_closure ::
    "balance \<Rightarrow> nat \<Rightarrow> balance \<Rightarrow> AccountData \<Rightarrow> ('acc, 'q, 'z) bst \<Rightarrow>
     ('acc, 'q, 'z) bst \<times> (AccountData \<times> (NegativeImbalance \<times> balance))" where
  "slash_reserved_closure ed attempt value a st =
     (let best_value = (if attempt = 0 then value
                        else min value (saturating_sub (wrapping_add (free a) (reserved a)) ed));
          actual = min (reserved a) best_value
      in (st, (a\<lparr>reserved := reserved a - actual\<rparr>, (NegativeImbalance actual, value - actual))))"

definition slash_reserved_attempt ::
    "balance \<Rightarrow> nat \<Rightarrow> 'acc \<Rightarrow> balance \<Rightarrow> ('acc, 'q, 'z) bst \<Rightarrow>
     ('acc, 'q, 'z) bst \<times> (StoredMapError + NegativeImbalance \<times> balance)" where
  "slash_reserved_attempt ed attempt who value st =
     mutate_account ed slash_drop who (slash_reserved_closure ed attempt value) st"

definition slash_reserved ::
    "balance \<Rightarrow> 'acc \<Rightarrow> balance \<Rightarrow> ('acc, 'q, 'z) bst \<Rightarrow> ('acc, 'q, 'z) bst \<times> (NegativeImbalance \<times> balance)" where
  "slash_reserved ed who value st =
     (if value = 0 then (st, (NegativeImbalance 0, 0))
      else if total_balance who st = 0 then (st, (NegativeImbalance 0, value))
      else case slash_reserved_attempt ed 0 who value st of
             (st1, Inr r) \<Rightarrow> (st1, r)
           | (st1, Inl _) \<Rightarrow>
               (case slash_reserved_attempt ed 1 who value st1 of
                  (st2, Inr r) \<Rightarrow> (st2, r)
                | (st2, Inl _) \<Rightarrow> (st2, (NegativeImbalance 0, value))))"

definition repatriate_from ::
    "balance \<Rightarrow> BalanceStatus \<Rightarrow> AccountData \<Rightarrow> AccountData \<Rightarrow> bool \<Rightarrow> ('acc, 'q, 'z) bst \<Rightarrow>
     ('acc, 'q, 'z) bst \<times> (DispatchError + AccountData \<times> (AccountData \<times> balance))" where
  "repatriate_from value status to_account from_account is_new st =
     (st,
      let actual = min (reserved from_account) value;
          from' = from_account\<lparr>reserved := reserved from_account - actual\<rparr>
      in case status of
           Status_Free \<Rightarrow>
             (case checked_add (free to_account) actual of
                None \<Rightarrow> Inl (ModuleError Overflow)
              | Some x \<Rightarrow> Inr (from', (to_account\<lparr>free := x\<rparr>, actual)))
         | Status_Reserved \<Rightarrow>
             (case checked_add (reserved to_account) actual of
                None \<Rightarrow> Inl (ModuleError Overflow)
              | Some x \<Rightarrow> Inr (from', (to_account\<lparr>reserved := x\<rparr>, actual))))"

definition repatriate_reserved ::
    "balance \<Rightarrow> 'acc \<Rightarrow> 'acc \<Rightarrow> balance \<Rightarrow> BalanceStatus \<Rightarrow> ('acc, 'q, 'z) bst \<Rightarrow>
     ('acc, 'q, 'z) bst \<times> (DispatchError + balance)" where
  "repatriate_reserved ed slashed beneficiary value status st =
     (if value = 0 then (st, Inr 0)
      else if slashed = beneficiary then
        (case status of
           Status_Free \<Rightarrow> (case unreserve ed slashed value st of (st1, r) \<Rightarrow> (st1, Inr r))
         | Status_Reserved \<Rightarrow> (st, Inr (saturating_sub value (reserved_balance slashed st))))
      else
        case try_mutate_account ed DispatchError_from no_drop beneficiary
               (\<lambda>to_account is_new st0.
                  if is_new then (st0, Inl (ModuleError DeadAccount))
                  else case try_mutate_account ed DispatchError_from no_drop slashed
                              (repatriate_from value status to_account) st0 of
                         (st1, Inl e) \<Rightarrow> (st1, Inl e)
                       | (st1, Inr (to', actual)) \<Rightarrow> (st1, Inr (to', actual))) st of
          (st2, Inl e) \<Rightarrow> (st2, Inl e)
        | (st2, Inr actual) \<Rightarrow>
            (balances_event (ReserveRepatriated slashed beneficiary actual status) st2, Inr (value - actual)))"

section \<open>LockableCurrency\<close>

definition locks :: "'acc \<Rightarrow> ('acc, 'q, 'z) bst \<Rightarrow> BalanceLock list" where
  "locks who st = map_get [] (locks_map st) who"

definition apply_locks :: "BalanceLock list \<Rightarrow> AccountData \<Rightarrow> AccountData" where
  "apply_locks ls b =
     foldl (\<lambda>b l.
        let b1 = (if reasons l = All \<or> reasons l = Misc then b\<lparr>misc_frozen := max (misc_frozen b) (amount l)\<rparr> else b)
        in if reasons l = All \<or> reasons l = Fee then b1\<lparr>fee_frozen := max (fee_frozen b1) (amount l)\<rparr> else b1)
       (b\<lparr>misc_frozen := 0, fee_frozen := 0\<rparr>) ls"

definition update_locks :: "balance \<Rightarrow> 'acc \<Rightarrow> BalanceLock list \<Rightarrow> ('acc, 'q, 'z) bst \<Rightarrow> ('acc, 'q, 'z) bst" where
  "update_locks ed who ls st =
     (let st1 = fst (mutate_account ed no_drop who (\<lambda>b st0. (st0, (apply_locks ls b, ()))) st);
          existed = map_contains_key (locks_map st1) who
      in if ls = [] then
           let st2 = st1\<lparr>locks_map := map_remove who (locks_map st1)\<rparr>
           in if existed then dec_consumers default_data who st2 else st2
         else
           let st2 = st1\<lparr>locks_map := map_insert who ls (locks_map st1)\<rparr>
           in if \<not> existed then fst (inc_consumers default_data who st2) else st2)"

text \<open>
  The \<open>filter_map\<close> of \<open>set_lock\<close> and \<open>extend_lock\<close>: the first lock with the identifier is replaced by
  what \<open>f\<close> makes of it and the new lock, later ones are removed; without one the new lock is appended.
\<close>

fun replace_lock :: "(BalanceLock \<Rightarrow> BalanceLock \<Rightarrow> BalanceLock) \<Rightarrow> BalanceLock option \<Rightarrow> LockIdentifier \<Rightarrow> BalanceLock list \<Rightarrow> BalanceLock list" where
  "replace_lock f new_lock i [] = (case new_lock of Some l \<Rightarrow> [l] | None \<Rightarrow> [])"
| "replace_lock f new_lock i (l # ls) =
     (if lock_id l = i then
        (case new_lock of
           Some nl \<Rightarrow> f l nl # replace_lock f None i ls
         | None \<Rightarrow> replace_lock f None i ls)
      else l # replace_lock f new_lock i ls)"

definition set_lock ::
    "balance \<Rightarrow> LockIdentifier \<Rightarrow> 'acc \<Rightarrow> balance \<Rightarrow> WithdrawReasons \<Rightarrow> ('acc, 'q, 'z) bst \<Rightarrow> ('acc, 'q, 'z) bst" where
  "set_lock ed i who amt rs st =
     (if amt = 0 \<or> rs = 0 then st
      else let new_lock = Some \<lparr>lock_id = i, amount = amt, reasons = Reasons_from rs\<rparr>
           in update_locks ed who (replace_lock (\<lambda>_ nl. nl) new_lock i (locks who st)) st)"

definition extend_lock ::
    "balance \<Rightarrow> LockIdentifier \<Rightarrow> 'acc \<Rightarrow> balance \<Rightarrow> WithdrawReasons \<Rightarrow> ('acc, 'q, 'z) bst \<Rightarrow> ('acc, 'q, 'z) bst" where
  "extend_lock ed i who amt rs st =
     (if amt = 0 \<or> rs = 0 then st
      else let new_lock = Some \<lparr>lock_id = i, amount = amt, reasons = Reasons_from rs\<rparr>
           in update_locks ed who
                (replace_lock (\<lambda>l nl. \<lparr>lock_id = lock_id l, amount = max (amount l) (amount nl),
                                         reasons = Reasons_bitor (reasons l) (reasons nl)\<rparr>)
                   new_lock i (locks who st)) st)"

definition remove_lock :: "balance \<Rightarrow> LockIdentifier \<Rightarrow> 'acc \<Rightarrow> ('acc, 'q, 'z) bst \<Rightarrow> ('acc, 'q, 'z) bst" where
  "remove_lock ed i who st = update_locks ed who (filter (\<lambda>l. lock_id l \<noteq> i) (locks who st)) st"

section \<open>Dispatchable calls and genesis\<close>

definition transfer_call ::
    "balance \<Rightarrow> ('src \<Rightarrow> 'acc option) \<Rightarrow> 'acc RawOrigin \<Rightarrow> 'src \<Rightarrow> balance \<Rightarrow> ('acc, 'q, 'z) bst \<Rightarrow>
     ('acc, 'q, 'z) bst \<times> (DispatchError + unit)" where
  "transfer_call ed lookup origin dest value st =
     (case ensure_signed origin of
        None \<Rightarrow> (st, Inl BadOrigin)
      | Some transactor \<Rightarrow>
          (case lookup dest of
             None \<Rightarrow> (st, Inl CannotLookup)
           | Some d \<Rightarrow> transfer ed transactor d value AllowDeath st))"

definition transfer_keep_alive ::
    "balance \<Rightarrow> ('src \<Rightarrow> 'acc option) \<Rightarrow> 'acc RawOrigin \<Rightarrow> 'src \<Rightarrow> balance \<Rightarrow> ('acc, 'q, 'z) bst \<Rightarrow>
     ('acc, 'q, 'z) bst \<times> (DispatchError + unit)" where
  "transfer_keep_alive ed lookup origin dest value st =
     (case ensure_signed origin of
        None \<Rightarrow> (st, Inl BadOrigin)
      | Some transactor \<Rightarrow>
          (case lookup dest of
             None \<Rightarrow> (st, Inl CannotLookup)
           | Some d \<Rightarrow> transfer ed transactor d value KeepAlive st))"

definition force_transfer ::
    "balance \<Rightarrow> ('src \<Rightarrow> 'acc option) \<Rightarrow> 'acc RawOrigin \<Rightarrow> 'src \<Rightarrow> 'src \<Rightarrow> balance \<Rightarrow> ('acc, 'q, 'z) bst \<Rightarrow>
     ('acc, 'q, 'z) bst \<times> (DispatchError + unit)" where
  "force_transfer ed lookup origin source dest value st =
     (case ensure_root origin of
        None \<Rightarrow> (st, Inl BadOrigin)
      | Some _ \<Rightarrow>
          (case lookup source of
             None \<Rightarrow> (st, Inl CannotLookup)
           | Some s \<Rightarrow>
             (case lookup dest of
                None \<Rightarrow> (st, Inl CannotLookup)
              | Some d \<Rightarrow> transfer ed s d value AllowDeath st)))"

definition set_balance_closure ::
    "balance \<Rightarrow> balance \<Rightarrow> AccountData \<Rightarrow> ('acc, 'q, 'z) bst \<Rightarrow> ('acc, 'q, 'z) bst \<times> (AccountData \<times> (balance \<times> balance))" where
  "set_balance_closure new_free new_reserved a st =
     (let st1 = (if new_free > free a then pos_drop (PositiveImbalance (new_free - free a)) st
                 else if new_free < free a then neg_drop (NegativeImbalance (free a - new_free)) st
                 else st);
          st2 = (if new_reserved > reserved a then pos_drop (PositiveImbalance (new_reserved - reserved a)) st1
                 else if new_reserved < reserved a then neg_drop (NegativeImbalance (reserved a - new_reserved)) st1
                 else st1)
      in (st2, (a\<lparr>free := new_free, reserved := new_reserved\<rparr>, (new_free, new_reserved))))"

definition set_balance ::
    "balance \<Rightarrow> ('src \<Rightarrow> 'acc option) \<Rightarrow> 'acc RawOrigin \<Rightarrow> 'src \<Rightarrow> balance \<Rightarrow> balance \<Rightarrow> ('acc, 'q, 'z) bst \<Rightarrow>
     ('acc, 'q, 'z) bst \<times> (DispatchError + unit)" where
  "set_balance ed lookup origin who new_free new_reserved st =
     (case ensure_root origin of
        None \<Rightarrow> (st, Inl BadOrigin)
      | Some _ \<Rightarrow>
          (case lookup who of
             None \<Rightarrow> (st, Inl CannotLookup)
           | Some w \<Rightarrow>
               (let wipeout = (wrapping_add new_free new_reserved < ed);
                    new_free = (if wipeout then 0 else new_free);
                    new_reserved = (if wipeout then 0 else new_reserved)
                in case mutate_account ed no_drop w (set_balance_closure new_free new_reserved) st of
                     (st1, Inl e) \<Rightarrow> (st1, Inl (DispatchError_from e))
                   | (st1, Inr (f, r)) \<Rightarrow> (balances_event (BalanceSet w f r) st1, Inr ()))))"

text \<open>Building the genesis state; a failed assertion is \<open>None\<close>.\<close>

definition store_insert :: "'acc \<Rightarrow> AccountData \<Rightarrow> ('acc, 'q, 'z) bst \<Rightarrow> ('acc, 'q, 'z) bst \<times> (StoredMapError + unit)" where
  "store_insert k t st = try_mutate_exists default_data (\<lambda>e. e) no_drop k (\<lambda>_ st0. (st0, Inr (Some t, ()))) st"

fun insert_all :: "('acc \<times> balance) list \<Rightarrow> ('acc, 'q, 'z) bst \<Rightarrow> ('acc, 'q, 'z) bst option" where
  "insert_all [] st = Some st"
| "insert_all ((who, f) # bs) st =
     (case store_insert who (default_data\<lparr>free := f\<rparr>) st of
        (st1, Inr _) \<Rightarrow> insert_all bs st1
      | (st1, Inl _) \<Rightarrow> None)"

definition genesis_build :: "balance \<Rightarrow> ('acc \<times> balance) list \<Rightarrow> ('acc, 'q, 'z) bst \<Rightarrow> ('acc, 'q, 'z) bst option" where
  "genesis_build ed bs st =
     (let st1 = st\<lparr>total_issuance := foldl (\<lambda>acc (_, n). wrapping_add acc n) 0 bs\<rparr>
      in if \<not> (\<forall>(_, b) \<in> set bs. b \<ge> ed) then None
         else if \<not> length (remdups (map fst bs)) = length bs then None
         else insert_all bs st1)"

end
