(* ===== verification/BalancesSafety.thy ===== *)
theory BalancesSafety
  imports Balances SystemAccountsSafety
begin

text \<open>
  Lemmas on the balances pallet. The accounts are read through \<open>account\<close>; an operation is described by
  the accounts, the total issuance and the locks it leaves. The outcomes of \<open>try_mutate_account\<close> are
  derived once from the \<open>StoredMap\<close> contract of the system pallet and carry the operations.
\<close>

section \<open>Arithmetic\<close>

named_theorems bal_arith

lemma checked_add_Some [bal_arith]: "checked_add a b = Some c \<longleftrightarrow> a + b \<le> BAL_MAX \<and> c = a + b"
  by (auto simp: checked_add_def)

lemma checked_add_None [bal_arith]: "checked_add a b = None \<longleftrightarrow> BAL_MAX < a + b"
  by (auto simp: checked_add_def)

lemma checked_sub_Some [bal_arith]: "checked_sub a b = Some c \<longleftrightarrow> b \<le> a \<and> c = a - b"
  by (auto simp: checked_sub_def)

lemma checked_sub_None [bal_arith]: "checked_sub a b = None \<longleftrightarrow> a < b"
  by (auto simp: checked_sub_def)

lemma saturating_add_exact [simp]: "a + b \<le> BAL_MAX \<Longrightarrow> saturating_add a b = a + b"
  by (simp add: saturating_add_def)

lemma wrapping_add_exact [simp]: "a + b \<le> BAL_MAX \<Longrightarrow> wrapping_add a b = a + b"
  by (simp add: wrapping_add_def BAL_MAX_def)

lemma default_data_sel [simp]:
  "free default_data = 0" "reserved default_data = 0" "misc_frozen default_data = 0" "fee_frozen default_data = 0"
  by (simp_all add: default_data_def)

lemma total_default [simp]: "total default_data = 0"
  by (simp add: total_def saturating_add_def)

section \<open>Frames\<close>

lemma bst_more_cong:
  fixes st st' :: "('acc, 'q, 'z) bst"
  assumes "system.more st = system.more st'"
  shows "total_issuance st = total_issuance st'" "locks_map st = locks_map st'"
  using assms by (cases st; cases st'; simp)+

lemma balances_event_simps [simp]:
  "account_map (balances_event ev st) = account_map st"
  "account k (balances_event ev st) = account k st"
  "total_issuance (balances_event ev st) = total_issuance st"
  "locks_map (balances_event ev st) = locks_map st"
  using bst_more_cong [of "balances_event ev st" st]
  by (simp_all add: balances_event_def account_def stored_get_def account_info_def)

lemma issuance_upd_simps [simp]:
  "account k (st\<lparr>total_issuance := x\<rparr>) = account k st"
  by (simp add: account_def stored_get_def account_info_def)

lemma drop_simps [simp]:
  "account k (neg_drop n st) = account k st" "account k (pos_drop p st) = account k st"
  "account_map (neg_drop n st) = account_map st" "account_map (pos_drop p st) = account_map st"
  "locks_map (neg_drop n st) = locks_map st" "locks_map (pos_drop p st) = locks_map st"
  "total_issuance (neg_drop n st) = total_issuance st - neg_peek n"
  "total_issuance (pos_drop p st) = saturating_add (total_issuance st) (pos_peek p)"
  by (simp_all add: neg_drop_def pos_drop_def account_def stored_get_def account_info_def saturating_sub_def)

lemma vital_cong: "account_map st k = account_map st' k \<Longrightarrow> vital k st = vital k st'"
  by (simp add: vital_def)

lemma post_mutation_simps:
  assumes "post_mutation ed who a st = (st', x)"
  shows "account_map st' = account_map st" "account k st' = account k st" "locks_map st' = locks_map st"
    "total_issuance st' = (if total a < ed then total_issuance st - total a else total_issuance st)"
    "x = (if total a < ed then None else Some a)" "\<not> total a < ed \<Longrightarrow> st' = st"
  using assms by (auto simp: post_mutation_def Let_def split: if_splits)

section \<open>Outcomes of changing an account\<close>

text \<open>\<open>moved st st' who a\<close>: from \<open>st\<close> to \<open>st'\<close> only the account of \<open>who\<close> changed, to \<open>a\<close>.\<close>

definition moved :: "('acc, 'q, 'z) bst \<Rightarrow> ('acc, 'q, 'z) bst \<Rightarrow> 'acc \<Rightarrow> AccountData \<Rightarrow> bool" where
  "moved st st' who a \<longleftrightarrow> (\<forall>k. account k st' = (if k = who then a else account k st)) \<and> locks_map st' = locks_map st"

text \<open>What the store hands to the closure, in terms of \<open>account\<close>.\<close>

lemma mutate_closure_view:
  "mutate_closure ed who f
     (if stored_get default_data who st = default_data then None else Some (stored_get default_data who st)) st =
   (case f (account who st) (account who st = default_data) st of
      (st1, Inl e) \<Rightarrow> (st1, Inl e)
    | (st1, Inr (a, r)) \<Rightarrow>
        (fst (post_mutation ed who a st1),
         Inr (snd (post_mutation ed who a st1), (if account who st = default_data then Some (free a) else None, r))))"
  by (auto simp: mutate_closure_def account_def Let_def split: prod.split sum.split)

lemma tma_err:
  assumes "f (account who st) (account who st = default_data) st = (st1, Inl e)"
  shows "try_mutate_account ed conv drp who f st = (st1, Inl e)"
  using sys.tme_err [of "mutate_closure ed who f" default_data who st st1 e] assms
  by (simp add: try_mutate_account_def mutate_closure_view)

lemma tma_keep:
  assumes f: "f (account who st) (account who st = default_data) st = (st1, Inr (a, r))" "ed \<le> total a"
  shows "\<exists>st2. try_mutate_account ed conv drp who f st = (st2, Inr r) \<and> moved st1 st2 who a \<and>
           total_issuance st2 = total_issuance st1"
proof -
  let ?e = "if account who st = default_data then Some (free a) else None"
  obtain st2 where "try_mutate_exists default_data conv (\<lambda>(_, r). drp r) who (mutate_closure ed who f) st =
      (st2, Inr (?e, r))"
    "\<forall>k'. stored_get default_data k' st2 = (if k' = who then a else stored_get default_data k' st1)"
    "system.more st2 = system.more st1"
    using sys.tme_some [of "mutate_closure ed who f" default_data who st st1 a "(?e, r)" conv "\<lambda>(_, r). drp r"] f
    by (auto simp: mutate_closure_view post_mutation_def Let_def)
  then show ?thesis
    using bst_more_cong [of st2 st1]
    by (auto simp: try_mutate_account_def moved_def account_def [symmetric] split: option.split)
qed

lemma tma_dust:
  assumes f: "f (account who st) (account who st = default_data) st = (st1, Inr (a, r))" "total a < ed"
    and st1: "account who st1 = account who st" "\<not> (account who st \<noteq> default_data \<and> vital who st1)"
  shows "\<exists>st2. try_mutate_account ed conv drp who f st = (st2, Inr r) \<and> moved st1 st2 who default_data \<and>
           total_issuance st2 = total_issuance st1 - total a"
proof -
  let ?e = "if account who st = default_data then Some (free a) else None"
  obtain stp where pm: "post_mutation ed who a st1 = (stp, None)"
    using f(2) by (simp add: post_mutation_def Let_def)
  have "vital who stp = vital who st1" "account who stp = account who st1"
    using post_mutation_simps [OF pm] by (auto simp: vital_def)
  then obtain st2 where "try_mutate_exists default_data conv (\<lambda>(_, r). drp r) who (mutate_closure ed who f) st =
      (st2, Inr (?e, r))"
    "\<forall>k'. stored_get default_data k' st2 = (if k' = who then default_data else stored_get default_data k' stp)"
    "system.more st2 = system.more stp"
    using sys.tme_none [of "mutate_closure ed who f" default_data who st stp "(?e, r)" conv "\<lambda>(_, r). drp r"] st1 f pm
    by (auto simp: mutate_closure_view account_def)
  then show ?thesis
    using bst_more_cong [of st2 stp] post_mutation_simps [OF pm] f(2)
    by (auto simp: try_mutate_account_def moved_def account_def [symmetric] split: option.split)
qed

lemma tma_refused:
  assumes f: "f (account who st) (account who st = default_data) st = (st1, Inr (a, r))" "total a < ed"
    and st1: "account who st \<noteq> default_data" "vital who st1"
  shows "\<exists>st2. try_mutate_account ed conv drp who f st = (drp r st2, Inl (conv ConsumerRemaining_map)) \<and>
           account_map st2 = account_map st1 \<and> (\<forall>k. account k st2 = account k st1) \<and>
           locks_map st2 = locks_map st1 \<and> total_issuance st2 = total_issuance st1 - total a"
proof -
  obtain stp where pm: "post_mutation ed who a st1 = (stp, None)"
    using f(2) by (simp add: post_mutation_def Let_def)
  have "vital who stp"
    using post_mutation_simps [OF pm] st1 by (auto simp: vital_def)
  then have "try_mutate_exists default_data conv (\<lambda>(_, r). drp r) who (mutate_closure ed who f) st =
      (drp r stp, Inl (conv ConsumerRemaining_map))"
    using sys.tme_refused [of "mutate_closure ed who f" default_data who st stp "(None, r)" conv "\<lambda>(_, r). drp r"]
      mutate_closure_view [of ed who f st] st1 f pm
    by (simp add: account_def)
  then show ?thesis
    using post_mutation_simps [OF pm] f(2) by (auto simp: try_mutate_account_def)
qed

section \<open>Accounting\<close>

definition bal :: "AccountData \<Rightarrow> nat" where
  "bal a = free a + reserved a"

definition holders :: "('acc, 'q, 'z) bst \<Rightarrow> 'acc set" where
  "holders st = {k. account k st \<noteq> default_data}"

definition held :: "('acc, 'q, 'z) bst \<Rightarrow> nat" where
  "held st = (\<Sum>k \<in> holders st. bal (account k st))"

text \<open>
  The books with \<open>p\<close> units of positive and \<open>n\<close> units of negative imbalance outstanding: the issuance and
  the accounts differ by exactly these, nothing overflows, and every account in use holds at least the
  existential deposit.
\<close>

definition books :: "balance \<Rightarrow> ('acc, 'q, 'z) bst \<Rightarrow> nat \<Rightarrow> nat \<Rightarrow> bool" where
  "books ed st p n \<longleftrightarrow> finite (holders st) \<and> total_issuance st + p = held st + n \<and> held st + n \<le> BAL_MAX \<and>
     (\<forall>k. account k st = default_data \<or> ed \<le> bal (account k st))"

lemma bal_default [simp]: "bal default_data = 0"
  by (simp add: bal_def)

lemma total_exact: "bal a \<le> BAL_MAX \<Longrightarrow> total a = bal a"
  by (simp add: bal_def total_def)

lemma held_insert:
  assumes "finite (holders st)"
  shows "held st = bal (account k st) + (\<Sum>k' \<in> holders st - {k}. bal (account k' st))"
proof (cases "k \<in> holders st")
  case True
  then show ?thesis using assms by (simp add: held_def sum.remove)
next
  case False
  then show ?thesis by (simp add: held_def holders_def)
qed

lemma bal_le_held: "finite (holders st) \<Longrightarrow> bal (account k st) \<le> held st"
  using held_insert [of st k] by simp

lemma two_le_held:
  assumes "finite (holders st)" "k \<noteq> k'"
  shows "bal (account k st) + bal (account k' st) \<le> held st"
proof -
  have "bal (account k' st) \<le> (\<Sum>j \<in> holders st - {k}. bal (account j st))"
  proof (cases "k' \<in> holders st")
    case True
    then show ?thesis using assms by (intro member_le_sum) auto
  next
    case False
    then show ?thesis by (simp add: holders_def)
  qed
  then show ?thesis using held_insert [OF assms(1), of k] by simp
qed

lemma held_moved:
  assumes "moved st st' who a" "finite (holders st)"
  shows "held st' + bal (account who st) = held st + bal a" "finite (holders st')"
proof -
  have h: "holders st' - {who} = holders st - {who}" "account who st' = a"
    using assms by (auto simp: holders_def moved_def)
  then show fin: "finite (holders st')" using assms(2) by (metis finite_Diff_insert finite_Diff2 finite.emptyI)
  have "(\<Sum>k \<in> holders st' - {who}. bal (account k st')) = (\<Sum>k \<in> holders st - {who}. bal (account k st))"
    using assms h by (intro sum.cong) (auto simp: moved_def)
  then show "held st' + bal (account who st) = held st + bal a"
    using held_insert [OF fin, of who] held_insert [OF assms(2), of who] h by simp
qed

lemma books_bal: "books ed st p n \<Longrightarrow> bal (account k st) \<le> BAL_MAX"
  using bal_le_held [of st k] by (simp add: books_def)

lemma books_total: "books ed st p n \<Longrightarrow> total (account k st) = bal (account k st)"
  by (simp add: total_exact books_bal)

lemma books_ed: "books ed st p n \<Longrightarrow> account k st \<noteq> default_data \<Longrightarrow> ed \<le> bal (account k st)"
  by (auto simp: books_def)

lemma books_event [simp]: "books ed (balances_event ev st) p n = books ed st p n"
  by (simp add: books_def held_def holders_def)

lemma moved_event [simp]: "moved st (balances_event ev st') who a = moved st st' who a"
  by (simp add: moved_def)

text \<open>
  One change of an account, with the funds moved into or out of it accounted as imbalance. Unless the
  closure empties an account the store refuses to remove, it succeeds and keeps the books.
\<close>

lemma books_tma:
  assumes b: "books ed st1 p n" and same: "account who st1 = account who st"
    and f: "f (account who st) (account who st = default_data) st = (st1, Inr (a, r))"
    and moved_by: "bal a + n' + p = bal (account who st) + n + p'"
    and bound: "bal a + n' + held st1 \<le> BAL_MAX + bal (account who st)"
    and dust: "bal a < ed \<Longrightarrow> bal a \<le> total_issuance st1"
    and live: "bal a < ed \<Longrightarrow> \<not> (account who st \<noteq> default_data \<and> vital who st1)"
  shows "\<exists>st2. try_mutate_account ed conv drp who f st = (st2, Inr r) \<and> books ed st2 p' n' \<and>
    moved st1 st2 who (if bal a < ed then default_data else a) \<and>
    total_issuance st2 = total_issuance st1 - (if bal a < ed then bal a else 0)"
proof -
  have fin: "finite (holders st1)" and ti: "total_issuance st1 + p = held st1 + n"
    using b by (auto simp: books_def)
  have "bal (account who st) \<le> held st1" using bal_le_held [OF fin, of who] same by simp
  then have tot: "total a = bal a" using bound by (intro total_exact) simp
  let ?a = "if bal a < ed then default_data else a"
  have "\<exists>st2. try_mutate_account ed conv drp who f st = (st2, Inr r) \<and> moved st1 st2 who ?a \<and>
    total_issuance st2 = total_issuance st1 - (if bal a < ed then bal a else 0)"
    using tma_keep [of f who st st1 a r ed conv drp, OF f] tma_dust [of f who st st1 a r ed conv drp, OF f] same live
    by (cases "bal a < ed") (simp_all add: tot)
  then obtain st2 where st2: "try_mutate_account ed conv drp who f st = (st2, Inr r)" "moved st1 st2 who ?a"
    "total_issuance st2 = total_issuance st1 - (if bal a < ed then bal a else 0)" by blast
  have h: "held st2 + bal (account who st) = held st1 + bal ?a" "finite (holders st2)"
    using held_moved [OF st2(2) fin] same by auto
  have "account k st2 = default_data \<or> ed \<le> bal (account k st2)" for k
    using b st2(2) by (auto simp: books_def moved_def)
  moreover have "total_issuance st2 + p' = held st2 + n'" "held st2 + n' \<le> BAL_MAX"
    using h(1) ti moved_by bound dust st2(3) by (auto split: if_splits)
  ultimately have "books ed st2 p' n'" using h by (simp add: books_def)
  with st2 show ?thesis by blast
qed

section \<open>The books under each operation\<close>

text \<open>
  Issuance that disappears while the accounts stay. It is booked with the positive imbalances, as if someone held it.
\<close>

lemma books_loss:
  assumes "books ed st p n" "\<And>k. account k st' = account k st" "total_issuance st' + x = total_issuance st"
  shows "books ed st' (p + x) n"
  using assms by (simp add: books_def held_def holders_def)

lemma account_map_cong: "account_map st' = account_map st \<Longrightarrow> account k st' = account k st"
  by (simp add: account_def stored_get_def account_info_def)

lemma not_required_not_vital: "\<not> is_provider_required default_data who st \<Longrightarrow> \<not> vital who st"
  by (auto simp: is_provider_required_def vital_def account_info_def map_get_def split: option.splits)

lemma Reasons_from_simps [simp]:
  "Reasons_from TRANSFER = Misc" "Reasons_from RESERVE = Misc" "Reasons_from TRANSACTION_PAYMENT = Fee"
  by (simp_all add: Reasons_from_def TRANSFER_def RESERVE_def TRANSACTION_PAYMENT_def)

text \<open>
  The issuance covers an account, so that taking the balance off it does not saturate, unless more positive than negative
  imbalances are outstanding.
\<close>

lemma issuance_covers:
  assumes "books ed st p n" "p \<le> n"
  shows "bal (account k st) \<le> total_issuance st"
  using assms bal_le_held [of st k] by (simp add: books_def)

lemma ensure_can_withdraw_Inr:
  "ensure_can_withdraw who v rs nb st = Inr () \<longleftrightarrow> v = 0 \<or> frozen (account who st) (Reasons_from rs) \<le> nb"
  by (simp add: ensure_can_withdraw_def Let_def)

lemma ensure_can_withdraw_Inl:
  "ensure_can_withdraw who v rs nb st = Inl e \<longleftrightarrow>
   v \<noteq> 0 \<and> nb < frozen (account who st) (Reasons_from rs) \<and> e = ModuleError LiquidityRestrictions"
  by (auto simp: ensure_can_withdraw_def Let_def)

subsection \<open>Transfer\<close>

text \<open>The conditions under which a transfer of a positive value between two accounts goes through.\<close>

definition transferable ::
    "balance \<Rightarrow> 'acc \<Rightarrow> 'acc \<Rightarrow> balance \<Rightarrow> ExistenceRequirement \<Rightarrow> ('acc, 'q, 'z) bst \<Rightarrow> bool" where
  "transferable ed source dest v er st \<longleftrightarrow>
     v \<le> free (account source st) \<and> ed \<le> bal (account dest st) + v \<and>
     misc_frozen (account source st) \<le> free (account source st) - v \<and>
     (ed \<le> free (account source st) - v \<or> er = AllowDeath \<and> \<not> is_provider_required default_data source st)"

lemma transfer_from_exact:
  assumes b: "books ed st p n" "0 < v" "source \<noteq> dest"
  shows "transfer_from ed source v er (account dest st) (account source st) new st =
    (st, if transferable ed source dest v er st
         then Inr ((account source st)\<lparr>free := free (account source st) - v\<rparr>,
                   (account dest st)\<lparr>free := free (account dest st) + v\<rparr>)
         else Inl (ModuleError
           (if free (account source st) < v then InsufficientBalance
            else if bal (account dest st) + v < ed then ExistentialDeposit
            else if free (account source st) - v < misc_frozen (account source st) then LiquidityRestrictions
            else KeepAliveError)))"
proof (cases "free (account source st) < v")
  case True
  then show ?thesis by (simp add: transfer_from_def checked_sub_def transferable_def)
next
  case False
  have "bal (account source st) + bal (account dest st) \<le> BAL_MAX"
    using two_le_held [of st source dest] b by (simp add: books_def)
  then have bd: "free (account dest st) + reserved (account dest st) + v \<le> BAL_MAX"
    using False by (simp add: bal_def)
  then have t: "total ((account dest st)\<lparr>free := free (account dest st) + v\<rparr>) = bal (account dest st) + v"
    by (simp add: total_def bal_def)
  show ?thesis
    using False b(2) bd t
    by (auto simp: transfer_from_def checked_sub_def checked_add_def transferable_def Let_def
        ensure_can_withdraw_def frozen_def)
qed

lemma transfer_err:
  assumes b: "books ed st p n" "0 < v" "source \<noteq> dest" and no: "\<not> transferable ed source dest v er st"
  shows "\<exists>e. transfer ed source dest v er st = (st, Inl (ModuleError e)) \<and>
    e = (if free (account source st) < v then InsufficientBalance
         else if bal (account dest st) + v < ed then ExistentialDeposit
         else if free (account source st) - v < misc_frozen (account source st) then LiquidityRestrictions
         else KeepAliveError)"
  using b no
  by (simp add: transfer_def tma_err transfer_from_exact [OF b])

lemma transfer_ok:
  assumes b: "books ed st p n" "bal (account source st) \<le> total_issuance st" "0 < v" "source \<noteq> dest" and ok: "transferable ed source dest v er st"
  shows "\<exists>st'. transfer ed source dest v er st = (st', Inr ()) \<and> books ed st' p n \<and> locks_map st' = locks_map st \<and>
    (\<forall>k. account k st' =
      (if k = dest then (account dest st)\<lparr>free := free (account dest st) + v\<rparr>
       else if k = source then
         (if bal (account source st) - v < ed then default_data
          else (account source st)\<lparr>free := free (account source st) - v\<rparr>)
       else account k st)) \<and>
    total_issuance st' = total_issuance st - (if bal (account source st) - v < ed then bal (account source st) - v else 0)"
proof -
  let ?s = "account source st" and ?d = "account dest st"
  let ?s' = "?s\<lparr>free := free ?s - v\<rparr>" and ?d' = "?d\<lparr>free := free ?d + v\<rparr>"
  have fin: "finite (holders st)" and hb: "held st + n \<le> BAL_MAX" and v: "v \<le> free ?s"
    using b ok by (auto simp: books_def transferable_def)
  have two: "bal ?s + bal ?d \<le> held st" using two_le_held [OF fin b(4)] .
  have bs': "bal ?s' + v = bal ?s" "bal ?d' = bal ?d + v" using v by (auto simp: bal_def)
  have "\<not> vital source st" if "bal ?s' < ed"
    using that ok not_required_not_vital [of source st] by (auto simp: transferable_def bal_def)
  then obtain st1 where st1: "try_mutate_account ed DispatchError_from no_drop source (transfer_from ed source v er ?d) st = (st1, Inr ?d')"
    "books ed st1 p (n + v)" "moved st st1 source (if bal ?s' < ed then default_data else ?s')"
    "total_issuance st1 = total_issuance st - (if bal ?s' < ed then bal ?s' else 0)"
    using books_tma [OF b(1) refl, of "transfer_from ed source v er ?d" source ?s' ?d' "n + v" p DispatchError_from no_drop]
      ok bs' two hb b(2) transfer_from_exact [OF b(1,3,4)] by auto
  let ?f = "\<lambda>to_account _ st0. case try_mutate_account ed DispatchError_from no_drop source (transfer_from ed source v er to_account) st0 of
      (st1, Inl e) \<Rightarrow> (st1, Inl e) | (st1, Inr to') \<Rightarrow> (st1, Inr (to', ()))"
  have same: "account dest st1 = ?d" using st1(3) b(4) by (simp add: moved_def)
  have bd: "held st1 + (n + v) \<le> BAL_MAX" "bal ?d \<le> held st1"
    using st1(2) bal_le_held [of st1 dest] same by (auto simp: books_def)
  have "\<not> bal ?d' < ed" using ok bs' by (auto simp: transferable_def)
  then obtain st2 where st2: "try_mutate_account ed DispatchError_from no_drop dest ?f st = (st2, Inr ())"
    "books ed st2 p n" "moved st1 st2 dest ?d'" "total_issuance st2 = total_issuance st1"
    using books_tma [OF st1(2) same, of ?f ?d' "()" n p DispatchError_from no_drop] bs' bd st1(1) by auto
  have dust: "bal ?s' = bal ?s - v" using bs' by simp
  show ?thesis
    using st2 st1 b(3,4) unfolding transfer_def dust
    by (auto simp: moved_def)
qed

subsection \<open>Imbalances and issuance\<close>

lemma held_issuance_upd [simp]:
  "holders (st\<lparr>total_issuance := x\<rparr>) = holders st" "held (st\<lparr>total_issuance := x\<rparr>) = held st"
  by (simp_all add: holders_def held_def)

lemma books_issuance_upd:
  "books ed (st\<lparr>total_issuance := x\<rparr>) p n \<longleftrightarrow>
   finite (holders st) \<and> x + p = held st + n \<and> held st + n \<le> BAL_MAX \<and>
   (\<forall>k. account k st = default_data \<or> ed \<le> bal (account k st))"
  by (simp add: books_def)

lemma books_pos_drop: "books ed st p n \<Longrightarrow> x \<le> p \<Longrightarrow> books ed (pos_drop (PositiveImbalance x) st) (p - x) n"
  by (auto simp: pos_drop_def books_issuance_upd books_def)

lemma books_neg_drop: "books ed st p n \<Longrightarrow> x \<le> n \<Longrightarrow> x \<le> total_issuance st \<Longrightarrow> books ed (neg_drop (NegativeImbalance x) st) p (n - x)"
  by (auto simp: neg_drop_def books_issuance_upd books_def saturating_sub_def)

lemma books_offset: "books ed st p n \<Longrightarrow> x \<le> p \<Longrightarrow> x \<le> n \<Longrightarrow> books ed st (p - x) (n - x)"
  by (auto simp: books_def)

lemma books_burn:
  assumes "books ed st p n"
  shows "books ed (fst (burn x st)) (p + pos_peek (snd (burn x st))) n"
  using assms by (auto simp: burn_def books_issuance_upd books_def bal_arith split: option.split)

lemma books_issue:
  assumes "books ed st p n" "total_issuance st + p + x \<le> BAL_MAX"
  shows "books ed (fst (issue x st)) p (n + neg_peek (snd (issue x st)))"
  using assms by (auto simp: issue_def books_issuance_upd books_def bal_arith split: option.split)

subsection \<open>Deposits and withdrawals\<close>

lemma books_deposit_into_existing:
  assumes b: "books ed st p n" "held st + n + v \<le> BAL_MAX"
    and r: "deposit_into_existing ed who v st = (st', r)"
  shows "case r of Inl _ \<Rightarrow> st' = st | Inr i \<Rightarrow> books ed st' (p + pos_peek i) n"
proof (cases "v = 0 \<or> account who st = default_data")
  case True
  then show ?thesis
    using r b tma_err [of "deposit_existing_closure v" who st st "ModuleError DeadAccount"]
    by (cases "v = 0") (auto simp: deposit_into_existing_def deposit_existing_closure_def)
next
  case False
  let ?a = "(account who st)\<lparr>free := free (account who st) + v\<rparr>"
  have bound: "bal (account who st) \<le> held st" using b bal_le_held by (auto simp: books_def)
  have ba: "bal ?a = bal (account who st) + v" by (simp add: bal_def)
  then have "\<not> bal ?a < ed" using books_ed [OF b(1), of who] False by (simp add: trans_le_add1)
  then show ?thesis
    using books_tma [OF b(1) refl, of "deposit_existing_closure v" who ?a "PositiveImbalance v" n "p + v" DispatchError_from pos_drop]
      r False b bound ba
    by (auto simp: deposit_into_existing_def deposit_existing_closure_def checked_add_def bal_def)
qed

lemma books_deposit_creating:
  assumes b: "books ed st p n" "held st + n + v \<le> BAL_MAX"
    and r: "deposit_creating ed who v st = (st', i)"
  shows "books ed st' (p + pos_peek i) n"
proof (cases "v = 0 \<or> v < ed \<and> account who st = default_data")
  case True
  then show ?thesis
    using r b tma_err [of "deposit_creating_closure ed v" who st st "ModuleError ExistentialDeposit"]
    by (cases "v = 0") (auto simp: deposit_creating_def deposit_creating_closure_def)
next
  case False
  let ?a = "(account who st)\<lparr>free := free (account who st) + v\<rparr>"
  have bound: "bal (account who st) \<le> held st" using b bal_le_held by (auto simp: books_def)
  have ba: "bal ?a = bal (account who st) + v" by (simp add: bal_def)
  then have "\<not> bal ?a < ed" using books_ed [OF b(1), of who] False by (auto simp: trans_le_add1)
  then show ?thesis
    using books_tma [OF b(1) refl, of "deposit_creating_closure ed v" who ?a "PositiveImbalance v" n "p + v" DispatchError_from pos_drop]
      r False b bound ba
    by (auto simp: deposit_creating_def deposit_creating_closure_def checked_add_def bal_def)
qed

text \<open>
  What \<open>withdraw\<close> does, outcome by outcome. A refused removal is reported as \<open>ConsumerRemaining\<close>.
\<close>

definition withdrawable ::
    "balance \<Rightarrow> 'acc \<Rightarrow> balance \<Rightarrow> WithdrawReasons \<Rightarrow> ExistenceRequirement \<Rightarrow> ('acc, 'q, 'z) bst \<Rightarrow> bool" where
  "withdrawable ed who v rs er st \<longleftrightarrow>
     v \<le> free (account who st) \<and> frozen (account who st) (Reasons_from rs) \<le> free (account who st) - v \<and>
     (er = AllowDeath \<or> ed \<le> bal (account who st) - v)"

lemma withdraw_closure_exact:
  assumes b: "books ed st p n" "0 < v"
  shows "withdraw_closure ed who v rs er (account who st) new st =
    (st, if withdrawable ed who v rs er st
         then Inr ((account who st)\<lparr>free := free (account who st) - v\<rparr>, NegativeImbalance v)
         else Inl (ModuleError
           (if free (account who st) < v then InsufficientBalance
            else if er = KeepAlive \<and> bal (account who st) - v < ed then KeepAliveError
            else LiquidityRestrictions)))"
proof (cases "free (account who st) < v")
  case True
  then show ?thesis by (simp add: withdraw_closure_def checked_sub_def withdrawable_def)
next
  case False
  have "bal (account who st) \<le> BAL_MAX" using books_bal [OF b(1)] .
  then have "wrapping_add (free (account who st) - v) (reserved (account who st)) = bal (account who st) - v"
    "wrapping_add (free (account who st)) (reserved (account who st)) = bal (account who st)"
    using False by (auto simp: bal_def)
  moreover have "ed \<le> bal (account who st)" using False b(2) books_ed [OF b(1), of who] by (cases "account who st = default_data") auto
  ultimately show ?thesis
    using False b(2)
    by (cases er) (auto simp: withdraw_closure_def checked_sub_def ensure_can_withdraw_def Let_def withdrawable_def)
qed

lemma withdraw_err:
  assumes b: "books ed st p n" "0 < v" and no: "\<not> withdrawable ed who v rs er st"
  shows "withdraw ed who v rs er st = (st, Inl (ModuleError
     (if free (account who st) < v then InsufficientBalance
      else if er = KeepAlive \<and> bal (account who st) - v < ed then KeepAliveError
      else LiquidityRestrictions)))"
  using b(2) no by (simp add: withdraw_def tma_err withdraw_closure_exact [OF b])

lemma withdraw_ok:
  assumes b: "books ed st p n" "bal (account who st) \<le> total_issuance st" "0 < v" and ok: "withdrawable ed who v rs er st"
    and live: "bal (account who st) - v < ed \<Longrightarrow> \<not> vital who st"
  shows "\<exists>st'. withdraw ed who v rs er st = (st', Inr (NegativeImbalance v)) \<and> books ed st' p (n + v) \<and>
    moved st st' who (if bal (account who st) - v < ed then default_data
                      else (account who st)\<lparr>free := free (account who st) - v\<rparr>) \<and>
    total_issuance st' = total_issuance st - (if bal (account who st) - v < ed then bal (account who st) - v else 0)"
proof -
  let ?a = "(account who st)\<lparr>free := free (account who st) - v\<rparr>" and ?f = "withdraw_closure ed who v rs er"
  have "v \<le> free (account who st)" using ok by (simp add: withdrawable_def)
  then have ba: "bal ?a = bal (account who st) - v" "v \<le> bal (account who st)" by (auto simp: bal_def)
  have bound: "bal (account who st) \<le> held st" "held st + n \<le> BAL_MAX"
    using b bal_le_held by (auto simp: books_def)
  have f: "?f (account who st) (account who st = default_data) st = (st, Inr (?a, NegativeImbalance v))"
    using ok by (simp add: withdraw_closure_exact [OF b(1,3)])
  then show ?thesis
    using books_tma [OF b(1) refl, of ?f who ?a "NegativeImbalance v" "n + v" p DispatchError_from neg_drop] b(2,3) bound ba live
    unfolding withdraw_def by auto
qed

text \<open>
  When the store refuses to remove the account, its data stays, but the dust and the imbalance that was
  never handed out have been taken off the issuance.
\<close>

lemma withdraw_refused:
  assumes b: "books ed st p n" "0 < v" and ok: "withdrawable ed who v rs er st"
    and dead: "bal (account who st) - v < ed" "vital who st"
  shows "\<exists>st'. withdraw ed who v rs er st = (st', Inl ConsumerRemaining) \<and> account_map st' = account_map st \<and>
    total_issuance st' = total_issuance st - bal (account who st)"
proof -
  let ?a = "(account who st)\<lparr>free := free (account who st) - v\<rparr>" and ?f = "withdraw_closure ed who v rs er"
  have v: "v \<le> free (account who st)" using ok by (simp add: withdrawable_def)
  then have ba: "bal ?a = bal (account who st) - v" "v \<le> bal (account who st)" by (auto simp: bal_def)
  then have t: "total ?a = bal (account who st) - v" using books_bal [OF b(1), of who] total_exact [of ?a] by simp
  have nd: "account who st \<noteq> default_data" using v b(2) by auto
  have f: "?f (account who st) (account who st = default_data) st = (st, Inr (?a, NegativeImbalance v))"
    using ok by (simp add: withdraw_closure_exact [OF b])
  then show ?thesis
    using tma_refused [of ?f, OF f, of ed DispatchError_from neg_drop] t dead nd b(2) ba
    unfolding withdraw_def by auto
qed

lemma books_withdraw:
  assumes b: "books ed st p n" "bal (account who st) \<le> total_issuance st" and r: "withdraw ed who v rs er st = (st', r)"
  shows "case r of
      Inl e \<Rightarrow> books ed st' (p + (if e = ConsumerRemaining then bal (account who st) else 0)) n
    | Inr i \<Rightarrow> books ed st' p (n + neg_peek i)"
proof (cases "0 < v \<and> withdrawable ed who v rs er st")
  case True
  show ?thesis
  proof (cases "bal (account who st) - v < ed \<and> vital who st")
    case refused: True
    then have "withdraw ed who v rs er st = (st', Inl ConsumerRemaining)" "books ed st' (p + bal (account who st)) n"
      using withdraw_refused [OF b(1), of v who rs er] True r b by (auto intro: books_loss [OF b(1)] account_map_cong)
    then show ?thesis using r by simp
  next
    case False
    then show ?thesis using withdraw_ok [OF b, of v rs er] True r by auto
  qed
next
  case False
  then show ?thesis using withdraw_err [OF b(1), of v who rs er] r b by (cases "v = 0") (auto simp: withdraw_def)
qed

lemma signed_drop_map [simp]: "account_map (signed_drop i st) = account_map st"
  by (cases i) simp_all

fun signed_pos :: "SignedImbalance \<Rightarrow> nat" where
  "signed_pos (Positive i) = pos_peek i"
| "signed_pos (Negative i) = 0"

fun signed_neg :: "SignedImbalance \<Rightarrow> nat" where
  "signed_neg (Positive i) = 0"
| "signed_neg (Negative i) = neg_peek i"

lemma books_make_free_balance_be:
  assumes b: "books ed st p n" "bal (account who st) \<le> total_issuance st" "held st + n + v \<le> BAL_MAX"
    and r: "make_free_balance_be ed who v st = (st', i)"
  shows "books ed st' (p + signed_pos i + (if vital who st \<and> v + reserved (account who st) < ed then bal (account who st) else 0))
    (n + signed_neg i)"
proof -
  let ?a = "(account who st)\<lparr>free := v\<rparr>" and ?f = "make_free_closure ed v"
  let ?i = "if free (account who st) \<le> v then Positive (PositiveImbalance (v - free (account who st)))
            else Negative (NegativeImbalance (free (account who st) - v))"
  have bound: "bal (account who st) \<le> held st" using b bal_le_held by (auto simp: books_def)
  have ba: "bal ?a + free (account who st) = bal (account who st) + v" by (simp add: bal_def)
  have t: "saturating_add v (reserved (account who st)) = bal ?a"
    using bound b(3) by (simp add: bal_def)
  show ?thesis
  proof (cases "ed \<le> bal ?a \<or> account who st \<noteq> default_data")
    case False
    then have "?f (account who st) (account who st = default_data) st = (st, Inl (ModuleError ExistentialDeposit))"
      using t False by (auto simp: make_free_closure_def)
    then show ?thesis using r b(1) False tma_err [of ?f who st st] by (auto simp: make_free_balance_be_def)
  next
    case True
    then have f: "?f (account who st) (account who st = default_data) st = (st, Inr (?a, ?i))"
      using t by (simp add: make_free_closure_def Let_def)
    have small: "ed \<le> bal (account who st)" "account who st \<noteq> default_data" if "bal ?a < ed"
      using True that books_ed [OF b(1), of who] by auto
    show ?thesis
    proof (cases "bal ?a < ed \<and> vital who st")
      case refused: True
      have "total ?a = bal ?a" using bound b(3) by (intro total_exact) (simp add: bal_def)
      then obtain st2 where st2: "try_mutate_account ed DispatchError_from signed_drop who ?f st = (signed_drop ?i st2, Inl ConsumerRemaining)"
        "\<forall>k. account k st2 = account k st" "total_issuance st2 = total_issuance st - bal ?a"
        using tma_refused [of ?f, OF f, of ed DispatchError_from signed_drop] refused small by auto
      have "v < free (account who st)" using refused small by (auto simp: bal_def)
      then have "books ed (signed_drop ?i st2) (p + bal (account who st)) n"
        using st2(2,3) small refused b(2) by (intro books_loss [OF b(1)]) (auto simp: bal_def)
      then show ?thesis using r st2(1) refused by (auto simp: make_free_balance_be_def bal_def)
    next
      case kept: False
      have "bal ?a \<le> total_issuance st" if "bal ?a < ed" using small that b(2) by simp
    moreover have "bal ?a + (n + signed_neg ?i) + p = bal (account who st) + n + (p + signed_pos ?i)"
      "bal ?a + (n + signed_neg ?i) + held st \<le> BAL_MAX + bal (account who st)"
      using ba b(3) by auto
    ultimately obtain st2 where "try_mutate_account ed DispatchError_from signed_drop who ?f st = (st2, Inr ?i)"
      "books ed st2 (p + signed_pos ?i) (n + signed_neg ?i)"
      using books_tma [where f = ?f and who = who and conv = DispatchError_from and drp = signed_drop, OF b(1) refl f] kept by blast
    moreover have "\<not> (vital who st \<and> v + reserved (account who st) < ed)" using kept by (auto simp: bal_def)
    ultimately show ?thesis using r by (auto simp: make_free_balance_be_def)
    qed
  qed
qed

subsection \<open>Slashing\<close>

lemma slash_closure_exact:
  assumes "bal a \<le> BAL_MAX"
  shows "slash_closure ed 0 v a =
    (a\<lparr>free := free a - min (free a) v, reserved := reserved a - min (reserved a) (v - min (free a) v)\<rparr>,
     (NegativeImbalance (min v (bal a)), v - min v (bal a)))"
  using assms by (auto simp: slash_closure_def Let_def bal_def min_def)

lemma slash_ok:
  assumes b: "books ed st p n" "bal (account who st) \<le> total_issuance st" and live: "bal (account who st) - v < ed \<Longrightarrow> \<not> vital who st"
    and nz: "0 < v" "account who st \<noteq> default_data" "bal (account who st) \<noteq> 0"
  defines "a \<equiv> account who st" and "s \<equiv> min v (bal (account who st))"
  shows "\<exists>st'. slash ed who v st = (st', (NegativeImbalance s, v - s)) \<and> books ed st' p (n + s) \<and>
    moved st st' who (if bal a - s < ed then default_data
      else a\<lparr>free := free a - min (free a) v, reserved := reserved a - min (reserved a) (v - min (free a) v)\<rparr>) \<and>
    total_issuance st' = total_issuance st - (if bal a - s < ed then bal a - s else 0)"
proof -
  let ?a = "a\<lparr>free := free a - min (free a) v, reserved := reserved a - min (reserved a) (v - min (free a) v)\<rparr>"
  let ?f = "\<lambda>a _ st0. (st0, Inr (slash_closure ed 0 v a))"
  have bound: "bal a \<le> held st" "held st + n \<le> BAL_MAX" "s \<le> bal a"
    using b bal_le_held [of st who] by (auto simp: books_def a_def s_def)
  have f: "?f (account who st) (account who st = default_data) st = (st, Inr (?a, (NegativeImbalance s, v - s)))"
    using slash_closure_exact [of a ed v] bound by (simp add: a_def s_def)
  have ba: "bal ?a = bal a - s" by (auto simp: bal_def a_def s_def min_def)
  have "\<not> vital who st" if "bal a - s < ed"
  proof -
    have "bal a - v < ed" using that by (auto simp: s_def a_def min_def split: if_splits)
    then show ?thesis using live by (simp add: a_def)
  qed
  moreover have "bal ?a + (n + s) + p = bal (account who st) + n + p"
    "bal ?a + (n + s) + held st \<le> BAL_MAX + bal (account who st)" "bal ?a \<le> total_issuance st"
    using bound ba b(2) by (auto simp: a_def)
  ultimately have "\<exists>st'. slash_attempt ed 0 who v st = (st', Inr (NegativeImbalance s, v - s)) \<and> books ed st' p (n + s) \<and>
    moved st st' who (if bal a - s < ed then default_data else ?a) \<and>
    total_issuance st' = total_issuance st - (if bal a - s < ed then bal a - s else 0)"
    using books_tma [where f = ?f and who = who and conv = "\<lambda>e. e" and drp = slash_drop and n' = "n + s" and p' = p, OF b(1) refl f]
    unfolding slash_attempt_def ba by blast
  moreover have "total_balance who st \<noteq> 0" using nz books_total [OF b(1)] by (simp add: total_balance_def)
  ultimately show ?thesis using nz by (auto simp: slash_def)
qed

text \<open>
  Both slashing operations try twice. The first attempt may be refused by the store; then the account is as it was, but the
  dust and the imbalance of the attempt are off the issuance. The second attempt leaves the existential deposit.
\<close>

lemma slash_closure_second:
  assumes "bal a \<le> BAL_MAX" "ed \<le> bal a" "bal a < v + ed"
  obtains a' where "slash_closure ed 1 v a = (a', (NegativeImbalance (bal a - ed), v - (bal a - ed)))" "bal a' = ed"
proof -
  have best: "min v (saturating_sub (wrapping_add (free a) (reserved a)) ed) = bal a - ed"
    using assms by (auto simp: saturating_sub_def bal_def)
  obtain a' x y where c: "slash_closure ed 1 v a = (a', (NegativeImbalance x, y))"
    by (metis NegativeImbalance.exhaust prod.exhaust)
  then have "x = bal a - ed" "y = v - (bal a - ed)" "bal a' = ed"
    using assms unfolding slash_closure_def best by (auto simp: Let_def bal_def min_def split: if_splits)
  with c that show thesis by blast
qed

lemma attempt_refused:
  assumes b: "books ed st p n" "bal (account who st) \<le> total_issuance st" and who: "account who st \<noteq> default_data" "vital who st"
    and f: "f (account who st) False st = (st, Inr (a, (NegativeImbalance x, y)))" "bal a + x = bal (account who st)" "bal a < ed"
  shows "\<exists>st'. try_mutate_account ed (\<lambda>e. e) slash_drop who f st = (st', Inl ConsumerRemaining_map) \<and>
    (\<forall>k. account k st' = account k st) \<and> total_issuance st' + bal (account who st) = total_issuance st"
proof -
  have "bal a \<le> BAL_MAX" using f(2) books_bal [OF b(1), of who] by simp
  then show ?thesis
    using tma_refused [where f = f and conv = "\<lambda>e. e" and drp = slash_drop and who = who and st = st and ed = ed] who f b(2)
    by (fastforce simp: total_exact slash_drop_def)
qed

lemma slash_refused:
  assumes b: "books ed st p n" "bal (account who st) \<le> total_issuance st" and v: "0 < v" "account who st \<noteq> default_data" "bal (account who st) \<noteq> 0"
    and vital: "vital who st" "bal (account who st) - v < ed"
  defines "s \<equiv> bal (account who st) - ed"
  shows "\<exists>st'. slash ed who v st = (st', (NegativeImbalance s, v - s)) \<and> books ed st' (p + bal (account who st)) (n + s) \<and>
    total_issuance st' + bal (account who st) = total_issuance st \<and> held st' + s = held st"
proof -
  let ?a = "account who st" and ?f = "\<lambda>i a _ st0. (st0, Inr (slash_closure ed i v a))"
  have ed: "ed \<le> bal ?a" and bm: "bal ?a \<le> BAL_MAX" using books_ed [OF b(1) v(2)] books_bal [OF b(1)] by auto
  let ?a1 = "?a\<lparr>free := free ?a - min (free ?a) v, reserved := reserved ?a - min (reserved ?a) (v - min (free ?a) v)\<rparr>"
  have b1: "bal ?a1 + min v (bal ?a) = bal ?a" by (auto simp: bal_def min_def)
  have small: "bal ?a1 < ed" "bal ?a < v + ed" using b1 vital(2) by (auto simp: min_def split: if_splits)
  have f1: "?f 0 ?a False st = (st, Inr (?a1, (NegativeImbalance (min v (bal ?a)), v - min v (bal ?a))))"
    using slash_closure_exact [OF bm, of ed v] by simp
  obtain st1 where st1: "slash_attempt ed 0 who v st = (st1, Inl ConsumerRemaining_map)" "\<And>k. account k st1 = account k st"
    "total_issuance st1 + bal ?a = total_issuance st"
    using attempt_refused [where f = "?f 0", OF b v(2) vital(1) f1 b1 small(1)] unfolding slash_attempt_def by blast
  have books1: "books ed st1 (p + bal ?a) n" using books_loss [OF b(1) st1(2,3)] .
  obtain a2 where a2: "slash_closure ed 1 v ?a = (a2, (NegativeImbalance s, v - s))" "bal a2 = ed"
    using slash_closure_second [OF bm ed small(2)] unfolding s_def by blast
  have f2: "?f 1 (account who st1) (account who st1 = default_data) st1 = (st1, Inr (a2, (NegativeImbalance s, v - s)))"
    using a2 st1(2) by simp
  have "bal ?a \<le> held st1" "held st1 + n \<le> BAL_MAX" "finite (holders st1)"
    using books1 bal_le_held [of st1 who] st1(2) by (auto simp: books_def)
  then obtain st2 where st2: "slash_attempt ed 1 who v st1 = (st2, Inr (NegativeImbalance s, v - s))" "moved st1 st2 who a2"
    "books ed st2 (p + bal ?a) (n + s)" "total_issuance st2 = total_issuance st1"
    using books_tma [where f = "?f 1" and who = who and conv = "\<lambda>e. e" and drp = slash_drop and n' = "n + s" and p' = "p + bal ?a",
        OF books1 refl f2] a2(2) ed st1(2) unfolding slash_attempt_def s_def by auto
  have "total_balance who st \<noteq> 0" using v(3) books_total [OF b(1)] by (simp add: total_balance_def)
  then have "slash ed who v st = (st2, (NegativeImbalance s, v - s))" using st1 st2 v(1) by (simp add: slash_def)
  moreover have "held st2 + s = held st"
    using books1 st2(3) b(1) st2(4) st1(3) by (simp add: books_def)
  ultimately show ?thesis using st2 st1(3) by auto
qed

lemma books_slash:
  assumes b: "books ed st p n" "bal (account who st) \<le> total_issuance st" and r: "slash ed who v st = (st', (i, rest))"
  shows "books ed st' (p + (if vital who st \<and> bal (account who st) - v < ed then bal (account who st) else 0)) (n + neg_peek i) \<and>
    neg_peek i + rest = v"
proof (cases "v = 0 \<or> bal (account who st) = 0")
  case True
  then have "bal (account who st) = 0 \<or> \<not> bal (account who st) - v < ed"
    using books_ed [OF b(1), of who] by (cases "account who st = default_data") auto
  then show ?thesis
    using True r b books_total [OF b(1), of who] by (auto simp: slash_def total_balance_def split: if_splits)
next
  case False
  then have nd: "account who st \<noteq> default_data" by auto
  show ?thesis
  proof (cases "vital who st \<and> bal (account who st) - v < ed")
    case True
    then show ?thesis using slash_refused [OF b, of v] False nd r books_ed [OF b(1) nd] by auto
  next
    case live: False
    then have "bal (account who st) - v < ed \<Longrightarrow> \<not> vital who st" by blast
    from slash_ok [where who = who and v = v, OF b this] show ?thesis using nd False r live by auto
  qed
qed

lemma slash_reserved_refused:
  assumes b: "books ed st p n" "bal (account who st) \<le> total_issuance st" and v: "0 < v" "account who st \<noteq> default_data" "bal (account who st) \<noteq> 0"
  defines "s \<equiv> min (reserved (account who st)) v" and "s' \<equiv> min (reserved (account who st)) (min v (bal (account who st) - ed))"
  assumes vital: "vital who st" "bal (account who st) < ed + s"
  shows "\<exists>st'. slash_reserved ed who v st = (st', (NegativeImbalance s', v - s')) \<and> books ed st' (p + bal (account who st)) (n + s')"
proof -
  let ?a = "account who st" and ?f = "\<lambda>i a _ st0. case slash_reserved_closure ed i v a st0 of (st1, r) \<Rightarrow> (st1, Inr r)"
  have ed: "ed \<le> bal ?a" and bm: "bal ?a \<le> BAL_MAX" using books_ed [OF b(1) v(2)] books_bal [OF b(1)] by auto
  let ?a1 = "\<lambda>s. ?a\<lparr>reserved := reserved ?a - s\<rparr>"
  have f1: "?f 0 ?a False st = (st, Inr (?a1 s, (NegativeImbalance s, v - s)))"
    by (simp add: slash_reserved_closure_def Let_def s_def)
  have b1: "bal (?a1 s) + s = bal ?a" by (simp add: bal_def s_def)
  obtain st1 where st1: "slash_reserved_attempt ed 0 who v st = (st1, Inl ConsumerRemaining_map)" "\<And>k. account k st1 = account k st"
    "total_issuance st1 + bal ?a = total_issuance st"
    using attempt_refused [where f = "?f 0", OF b v(2) vital(1) f1 b1] vital(2) b1
    unfolding slash_reserved_attempt_def mutate_account_def by auto
  have books1: "books ed st1 (p + bal ?a) n" using books_loss [OF b(1) st1(2,3)] .
  have b2: "bal (?a1 s') + s' = bal ?a" "s' \<le> bal ?a - ed" by (auto simp: bal_def s'_def)
  have f2: "?f 1 (account who st1) (account who st1 = default_data) st1 = (st1, Inr (?a1 s', (NegativeImbalance s', v - s')))"
    using bm unfolding st1(2) by (simp add: slash_reserved_closure_def Let_def s'_def saturating_sub_def bal_def)
  have "bal ?a \<le> held st1" "held st1 + n \<le> BAL_MAX" "\<not> bal (?a1 s') < ed"
    using books1 bal_le_held [of st1 who] st1(2) b2 ed by (auto simp: books_def)
  then obtain st2 where st2: "slash_reserved_attempt ed 1 who v st1 = (st2, Inr (NegativeImbalance s', v - s'))"
    "books ed st2 (p + bal ?a) (n + s')"
    using books_tma [where f = "?f 1" and who = who and conv = "\<lambda>e. e" and drp = slash_drop and n' = "n + s'" and p' = "p + bal ?a",
        OF books1 refl f2] b2 st1(2) unfolding slash_reserved_attempt_def mutate_account_def by auto
  have "total_balance who st \<noteq> 0" using v(3) books_total [OF b(1)] by (simp add: total_balance_def)
  then show ?thesis using st1 st2 v(1) by (simp add: slash_reserved_def)
qed

lemma slash_reserved_ok:
  assumes b: "books ed st p n" "bal (account who st) \<le> total_issuance st" and v: "0 < v" "bal (account who st) \<noteq> 0"
  defines "s \<equiv> min (reserved (account who st)) v"
  assumes live: "bal (account who st) < ed + s \<Longrightarrow> \<not> vital who st"
  shows "\<exists>st'. slash_reserved ed who v st = (st', (NegativeImbalance s, v - s)) \<and> books ed st' p (n + s)"
proof -
  let ?a = "(account who st)\<lparr>reserved := reserved (account who st) - s\<rparr>"
  let ?f = "\<lambda>a _ st0. case slash_reserved_closure ed 0 v a st0 of (st1, r) \<Rightarrow> (st1, Inr r)"
  have f: "?f (account who st) (account who st = default_data) st = (st, Inr (?a, (NegativeImbalance s, v - s)))"
    by (simp add: slash_reserved_closure_def Let_def s_def)
  have ba: "bal ?a + s = bal (account who st)" by (auto simp: bal_def s_def)
  have bound: "bal (account who st) \<le> held st" "held st + n \<le> BAL_MAX"
    using b bal_le_held by (auto simp: books_def)
  have "bal ?a < ed \<Longrightarrow> \<not> vital who st" using live ba by linarith
  then obtain st1 where "slash_reserved_attempt ed 0 who v st = (st1, Inr (NegativeImbalance s, v - s))" "books ed st1 p (n + s)"
    using books_tma [where f = ?f and who = who and conv = "\<lambda>e. e" and drp = slash_drop and n' = "n + s" and p' = p, OF b(1) refl f]
      bound ba b(2) unfolding slash_reserved_attempt_def mutate_account_def by auto
  then show ?thesis
    using v books_total [OF b(1), of who] by (auto simp: slash_reserved_def total_balance_def)
qed

lemma books_slash_reserved:
  assumes b: "books ed st p n" "bal (account who st) \<le> total_issuance st" and r: "slash_reserved ed who v st = (st', (i, rest))"
  shows "books ed st' (p + (if vital who st \<and> bal (account who st) < ed + min (reserved (account who st)) v then bal (account who st) else 0))
    (n + neg_peek i)"
proof (cases "v = 0 \<or> bal (account who st) = 0")
  case True
  then have "bal (account who st) = 0 \<or> \<not> bal (account who st) < ed + min (reserved (account who st)) v"
    using books_ed [OF b(1), of who] by (cases "account who st = default_data") auto
  then show ?thesis
    using True r b books_total [OF b(1), of who] by (auto simp: slash_reserved_def total_balance_def split: if_splits)
next
  case False
  then have nd: "account who st \<noteq> default_data" by auto
  show ?thesis
    using slash_reserved_refused [OF b, of v] slash_reserved_ok [OF b, of v] False nd r
    by (cases "vital who st \<and> bal (account who st) < ed + min (reserved (account who st)) v") auto
qed

end
