(* ===== verification/BalancesRun.thy ===== *)
theory BalancesRun
  imports BalancesSafety
begin

text \<open>
  The remaining operations of the balances pallet (reserves, locks, root's \<open>set_balance\<close>, genesis), the
  runs of the currency from genesis, and the properties of the pallet.
\<close>

section \<open>Reserves\<close>

definition reservable :: "'acc \<Rightarrow> balance \<Rightarrow> ('acc, 'q, 'z) bst \<Rightarrow> bool" where
  "reservable who v st \<longleftrightarrow> v \<le> free (account who st) \<and> misc_frozen (account who st) \<le> free (account who st) - v"

lemma can_reserve_reservable: "0 < v \<Longrightarrow> can_reserve who v st \<longleftrightarrow> reservable who v st"
  by (auto simp: can_reserve_def reservable_def checked_sub_def ensure_can_withdraw_Inr frozen_def)

lemma reserve_ok:
  assumes b: "books ed st p n" "0 < v" and ok: "reservable who v st"
  shows "\<exists>st'. reserve ed who v st = (st', Inr ()) \<and> books ed st' p n \<and> total_issuance st' = total_issuance st \<and>
    moved st st' who ((account who st)\<lparr>free := free (account who st) - v, reserved := reserved (account who st) + v\<rparr>)"
proof -
  let ?a = "(account who st)\<lparr>free := free (account who st) - v, reserved := reserved (account who st) + v\<rparr>"
  have v: "v \<le> free (account who st)" using ok by (simp add: reservable_def)
  have bound: "bal (account who st) \<le> held st" "held st + n \<le> BAL_MAX"
    using b bal_le_held by (auto simp: books_def)
  have ba: "bal ?a = bal (account who st)" using v by (simp add: bal_def)
  have "account who st \<noteq> default_data" using v b(2) by auto
  then have "\<not> bal ?a < ed" using books_ed [OF b(1), of who] ba by simp
  moreover have f: "reserve_closure who v (account who st) (account who st = default_data) st = (st, Inr (?a, ()))"
    using ok bound by (auto simp: reserve_closure_def checked_sub_def checked_add_def reservable_def bal_def
        ensure_can_withdraw_def frozen_def)
  ultimately show ?thesis
    using books_tma [OF b(1) refl, of "reserve_closure who v" who ?a "()" n p DispatchError_from no_drop] bound ba b(2)
    by (auto simp: reserve_def)
qed

lemma reserve_err:
  assumes b: "books ed st p n" "0 < v" and no: "\<not> reservable who v st"
  shows "reserve ed who v st = (st, Inl (ModuleError
    (if free (account who st) < v then InsufficientBalance else LiquidityRestrictions)))"
proof -
  have "bal (account who st) \<le> BAL_MAX" using books_bal [OF b(1)] .
  then have "reserve_closure who v (account who st) (account who st = default_data) st = (st, Inl (ModuleError
    (if free (account who st) < v then InsufficientBalance else LiquidityRestrictions)))"
    using no b(2) by (auto simp: reserve_closure_def checked_sub_def checked_add_def reservable_def bal_def
        ensure_can_withdraw_def frozen_def)
  from tma_err [of "reserve_closure who v", OF this] show ?thesis using b(2) by (simp add: reserve_def)
qed

lemma unreserve_ok:
  assumes b: "books ed st p n" "0 < v" and nz: "bal (account who st) \<noteq> 0"
  shows "\<exists>st'. unreserve ed who v st = (st', v - min (reserved (account who st)) v) \<and> books ed st' p n \<and>
    total_issuance st' = total_issuance st \<and>
    moved st st' who ((account who st)\<lparr>free := free (account who st) + min (reserved (account who st)) v,
                                        reserved := reserved (account who st) - min (reserved (account who st)) v\<rparr>)"
proof -
  let ?s = "min (reserved (account who st)) v"
  let ?a = "(account who st)\<lparr>free := free (account who st) + ?s, reserved := reserved (account who st) - ?s\<rparr>"
  let ?f = "\<lambda>a _ st0. case unreserve_closure v a st0 of (st1, r) \<Rightarrow> (st1, Inr r)"
  have bound: "bal (account who st) \<le> held st" "held st + n \<le> BAL_MAX"
    using b bal_le_held by (auto simp: books_def)
  have ba: "bal ?a = bal (account who st)" by (simp add: bal_def)
  have "account who st \<noteq> default_data" using nz by auto
  then have "\<not> bal ?a < ed" using books_ed [OF b(1), of who] ba by simp
  moreover have "?f (account who st) (account who st = default_data) st = (st, Inr (?a, ?s))"
    using bound by (simp add: unreserve_closure_def Let_def bal_def)
  ultimately have "\<exists>st'. mutate_account ed no_drop who (unreserve_closure v) st = (st', Inr ?s) \<and> books ed st' p n \<and>
    total_issuance st' = total_issuance st \<and> moved st st' who ?a"
    using books_tma [OF b(1) refl, of ?f who ?a ?s n p "\<lambda>e. e" no_drop] bound ba
    unfolding mutate_account_def by auto
  then show ?thesis
    using b(2) nz books_total [OF b(1), of who] by (auto simp: unreserve_def total_balance_def)
qed

lemma unreserve_dead: "books ed st p n \<Longrightarrow> bal (account who st) = 0 \<Longrightarrow> unreserve ed who v st = (st, v)"
  using books_total [of ed st p n who] by (simp add: unreserve_def total_balance_def)

lemma books_unreserve:
  assumes "books ed st p n"
  shows "books ed (fst (unreserve ed who v st)) p n"
proof (cases "0 < v \<and> bal (account who st) \<noteq> 0")
  case True
  then show ?thesis using unreserve_ok [OF assms, of v who] by auto
next
  case False
  then show ?thesis using assms unreserve_dead [OF assms, of who v] by (cases "v = 0") (auto simp: unreserve_def)
qed

text \<open>Moving \<open>v\<close> units of reserve from one account to the free or reserved balance of another.\<close>

definition credited :: "BalanceStatus \<Rightarrow> AccountData \<Rightarrow> nat \<Rightarrow> AccountData" where
  "credited status a v = (case status of Status_Free \<Rightarrow> a\<lparr>free := free a + v\<rparr> | Status_Reserved \<Rightarrow> a\<lparr>reserved := reserved a + v\<rparr>)"

lemma bal_credited [simp]: "bal (credited status a v) = bal a + v"
  by (simp add: credited_def bal_def split: BalanceStatus.split)

lemma repatriate_from_exact:
  assumes b: "books ed st p n" "slashed \<noteq> who"
  shows "repatriate_from v status (account who st) (account slashed st) new st =
    (st, Inr ((account slashed st)\<lparr>reserved := reserved (account slashed st) - min (reserved (account slashed st)) v\<rparr>,
      (credited status (account who st) (min (reserved (account slashed st)) v), min (reserved (account slashed st)) v)))"
proof -
  have "bal (account slashed st) + bal (account who st) \<le> BAL_MAX"
    using two_le_held [of st slashed who] b by (simp add: books_def)
  then show ?thesis
    by (auto simp: repatriate_from_def credited_def Let_def checked_add_def bal_def split: BalanceStatus.split)
qed

lemma repatriate_ok:
  assumes b: "books ed st p n" "bal (account slashed st) \<le> total_issuance st" "0 < v" "slashed \<noteq> who" and new: "account who st \<noteq> default_data"
  defines "s \<equiv> min (reserved (account slashed st)) v"
  defines "rest \<equiv> (account slashed st)\<lparr>reserved := reserved (account slashed st) - s\<rparr>"
  assumes live: "bal rest < ed \<Longrightarrow> account slashed st = default_data \<or> \<not> vital slashed st"
  shows "\<exists>st'. repatriate_reserved ed slashed who v status st = (st', Inr (v - s)) \<and> books ed st' p n \<and>
    (\<forall>k. account k st' = (if k = who then credited status (account who st) s
                          else if k = slashed then (if bal rest < ed then default_data else rest)
                          else account k st)) \<and>
    total_issuance st' = total_issuance st - (if bal rest < ed then bal rest else 0)"
proof -
  let ?d = "account who st" and ?d' = "credited status (account who st) s"
  let ?g = "repatriate_from v status ?d"
  have fin: "finite (holders st)" and hb: "held st + n \<le> BAL_MAX" using b by (auto simp: books_def)
  have two: "bal (account slashed st) + bal ?d \<le> held st" using two_le_held [OF fin b(4)] .
  have br: "bal rest + s = bal (account slashed st)" by (auto simp: rest_def s_def bal_def)
  have g: "?g (account slashed st) (account slashed st = default_data) st = (st, Inr (rest, (?d', s)))"
    by (simp add: repatriate_from_exact [OF b(1,4)] rest_def s_def)
  have "bal rest + (n + s) + p = bal (account slashed st) + n + p" "bal rest \<le> total_issuance st"
    "bal rest + (n + s) + held st \<le> BAL_MAX + bal (account slashed st)"
    using br two hb b(2) by auto
  then obtain st1 where st1: "try_mutate_account ed DispatchError_from no_drop slashed ?g st = (st1, Inr (?d', s))"
    "books ed st1 p (n + s)" "moved st st1 slashed (if bal rest < ed then default_data else rest)"
    "total_issuance st1 = total_issuance st - (if bal rest < ed then bal rest else 0)"
    using books_tma [where f = ?g and who = slashed and conv = DispatchError_from and drp = no_drop, OF b(1) refl g] live
    by blast
  let ?f = "\<lambda>to_account is_new st0. if is_new then (st0, Inl (ModuleError DeadAccount))
      else case try_mutate_account ed DispatchError_from no_drop slashed (repatriate_from v status to_account) st0 of
             (st1, Inl e) \<Rightarrow> (st1, Inl e) | (st1, Inr (to', actual)) \<Rightarrow> (st1, Inr (to', actual))"
  have same: "account who st1 = ?d" using st1(3) b(4) by (simp add: moved_def)
  have f: "?f ?d (?d = default_data) st = (st1, Inr (?d', s))" using st1(1) new by simp
  have "bal ?d' + n + p = bal ?d + (n + s) + p" "bal ?d' + n + held st1 \<le> BAL_MAX + bal ?d" "\<not> bal ?d' < ed"
    using st1(2) books_ed [OF b(1) new] by (auto simp: books_def)
  then obtain st2 where st2: "try_mutate_account ed DispatchError_from no_drop who ?f st = (st2, Inr s)"
    "books ed st2 p n" "moved st1 st2 who ?d'" "total_issuance st2 = total_issuance st1"
    using books_tma [where f = ?f and who = who and conv = DispatchError_from and drp = no_drop, OF st1(2) same f] by auto
  then show ?thesis
    using st1(3,4) b(3,4) unfolding repatriate_reserved_def by (auto simp: moved_def)
qed

lemma repatriate_dead:
  assumes "0 < v" "slashed \<noteq> who" "account who st = default_data"
  shows "repatriate_reserved ed slashed who v status st = (st, Inl (ModuleError DeadAccount))"
  using assms unfolding repatriate_reserved_def by (subst tma_err) auto

lemma repatriate_refused:
  assumes b: "books ed st p n" "bal (account slashed st) \<le> total_issuance st" "0 < v" "slashed \<noteq> who" and new: "account who st \<noteq> default_data"
  defines "s \<equiv> min (reserved (account slashed st)) v"
  defines "rest \<equiv> (account slashed st)\<lparr>reserved := reserved (account slashed st) - s\<rparr>"
  assumes dead: "bal rest < ed" "account slashed st \<noteq> default_data" "vital slashed st"
  shows "\<exists>st'. repatriate_reserved ed slashed who v status st = (st', Inl ConsumerRemaining) \<and>
    (\<forall>k. account k st' = account k st) \<and> total_issuance st' + bal rest = total_issuance st"
proof -
  let ?g = "repatriate_from v status (account who st)"
  have g: "?g (account slashed st) (account slashed st = default_data) st = (st, Inr (rest, (credited status (account who st) s, s)))"
    by (simp add: repatriate_from_exact [OF b(1,4)] rest_def s_def)
  have "bal rest \<le> bal (account slashed st)" by (simp add: bal_def rest_def)
  then have "bal rest \<le> total_issuance st" "total rest = bal rest" using b(2) books_bal [OF b(1), of slashed] by (auto simp: total_exact)
  then obtain st' where st': "try_mutate_account ed DispatchError_from no_drop slashed ?g st = (st', Inl ConsumerRemaining)"
    "\<forall>k. account k st' = account k st" "total_issuance st' + bal rest = total_issuance st"
    using tma_refused [of ?g, OF g, of ed DispatchError_from no_drop] dead by (auto simp: no_drop_def)
  have "repatriate_reserved ed slashed who v status st = (st', Inl ConsumerRemaining)"
    unfolding repatriate_reserved_def
    by (subst tma_err [where ?st1.0 = st' and e = ConsumerRemaining]) (use b(3,4) new st'(1) in auto)
  then show ?thesis using st'(2,3) by blast
qed

lemma books_repatriate:
  assumes b: "books ed st p n" "bal (account slashed st) \<le> total_issuance st"
    and r: "repatriate_reserved ed slashed who v status st = (st', r)"
  shows "books ed st' (p + (if r = Inl ConsumerRemaining then bal (account slashed st) - min (reserved (account slashed st)) v else 0)) n"
proof (cases "v = 0 \<or> slashed = who")
  case True
  then show ?thesis using r b books_unreserve [OF b(1), of who v]
    by (auto simp: repatriate_reserved_def split: BalanceStatus.splits if_splits prod.splits)
next
  case False
  let ?s = "min (reserved (account slashed st)) v"
  let ?rest = "(account slashed st)\<lparr>reserved := reserved (account slashed st) - ?s\<rparr>"
  have rest: "bal ?rest = bal (account slashed st) - ?s" by (auto simp: bal_def)
  consider "account who st = default_data" | "account who st \<noteq> default_data" "bal ?rest < ed" "account slashed st \<noteq> default_data" "vital slashed st"
    | "account who st \<noteq> default_data" "bal ?rest < ed \<longrightarrow> account slashed st = default_data \<or> \<not> vital slashed st" by blast
  then show ?thesis
  proof cases
    case 1
    then show ?thesis using repatriate_dead [of v slashed who st ed status] False r b by auto
  next
    case 2
    then obtain st2 where "repatriate_reserved ed slashed who v status st = (st2, Inl ConsumerRemaining)"
      "\<forall>k. account k st2 = account k st" "total_issuance st2 + bal ?rest = total_issuance st"
      using repatriate_refused [OF b, of v who status] False by auto
    then show ?thesis using books_loss [OF b(1), of st2 "bal ?rest"] r rest by simp
  next
    case 3
    then show ?thesis using repatriate_ok [OF b, of v who status] False r by auto
  qed
qed

section \<open>Locks\<close>

definition locked :: "(Reasons \<Rightarrow> bool) \<Rightarrow> BalanceLock list \<Rightarrow> nat" where
  "locked P ls = Max (insert 0 (amount ` {l \<in> set ls. P (reasons l)}))"

lemma locked_Nil [simp]: "locked P [] = 0"
  by (simp add: locked_def)

lemma locked_snoc: "locked P (ls @ [l]) = (if P (reasons l) then max (locked P ls) (amount l) else locked P ls)"
proof -
  have "{x \<in> set (ls @ [l]). P (reasons x)} = (if P (reasons l) then insert l {x \<in> set ls. P (reasons x)} else {x \<in> set ls. P (reasons x)})"
    by auto
  then show ?thesis by (auto simp: locked_def insert_commute [of 0] max.commute)
qed

lemma locked_ge: "l \<in> set ls \<Longrightarrow> P (reasons l) \<Longrightarrow> amount l \<le> locked P ls"
  by (auto simp: locked_def intro: Max_ge)

lemma apply_locks_exact:
  "apply_locks ls a = a\<lparr>misc_frozen := locked (\<lambda>r. r = All \<or> r = Misc) ls, fee_frozen := locked (\<lambda>r. r = All \<or> r = Fee) ls\<rparr>"
proof (induction ls rule: rev_induct)
  case Nil
  then show ?case by (simp add: apply_locks_def)
next
  case (snoc l ls)
  then show ?case by (cases "reasons l") (auto simp: apply_locks_def locked_snoc Let_def)
qed

lemma bal_apply_locks [simp]: "bal (apply_locks ls a) = bal a"
  by (simp add: apply_locks_exact bal_def)

lemma account_consumers [simp]:
  "account k (dec_consumers default_data who st) = account k st"
  "account k (fst (inc_consumers default_data who st)) = account k st"
  by (auto simp: account_def stored_get_def account_info_def dec_consumers_def inc_consumers_def Let_def)

lemma issuance_consumers [simp]:
  "total_issuance (dec_consumers default_data who st) = total_issuance st"
  "total_issuance (fst (inc_consumers default_data who st)) = total_issuance st"
  by (auto simp: dec_consumers_def inc_consumers_def Let_def)

lemma locks_map_consumers [simp]:
  "locks_map (dec_consumers default_data who st) = locks_map st"
  "locks_map (fst (inc_consumers default_data who st)) = locks_map st"
  by (auto simp: dec_consumers_def inc_consumers_def Let_def)

lemma account_locks_upd [simp]: "account k (st\<lparr>locks_map := m\<rparr>) = account k st"
  by (simp add: account_def stored_get_def account_info_def)

lemma books_view:
  assumes "books ed st p n" "\<And>k. account k st' = account k st" "total_issuance st' = total_issuance st"
  shows "books ed st' p n"
  using assms by (simp add: books_def held_def holders_def)

lemma update_locks_ok:
  assumes b: "books ed st p n"
  shows "books ed (update_locks ed who ls st) p n \<and> total_issuance (update_locks ed who ls st) = total_issuance st \<and>
    locks_map (update_locks ed who ls st) = (locks_map st)(who := if ls = [] then None else Some ls) \<and>
    (\<forall>k. account k (update_locks ed who ls st) =
       (if k = who then (if bal (account who st) < ed then default_data else apply_locks ls (account who st)) else account k st))"
proof -
  let ?a = "apply_locks ls (account who st)" and ?f = "\<lambda>a _ st0. case (st0, (apply_locks ls a, ())) of (st1, r) \<Rightarrow> (st1, Inr r)"
  have bound: "bal (account who st) \<le> held st" "held st + n \<le> BAL_MAX"
    using b bal_le_held by (auto simp: books_def)
  have f: "?f (account who st) (account who st = default_data) st = (st, Inr (?a, ()))" by simp
  have new: "account who st = default_data" if "bal ?a < ed" using that books_ed [OF b, of who] by force
  then have "bal ?a \<le> total_issuance st" if "bal ?a < ed" using that by simp
  moreover have "bal ?a = 0" if "bal ?a < ed" using new [OF that] by simp
  then have "(if bal ?a < ed then bal ?a else 0) = 0" by auto
  ultimately obtain st1 where st1: "mutate_account ed no_drop who (\<lambda>b st0. (st0, (apply_locks ls b, ()))) st = (st1, Inr ())"
    "books ed st1 p n" "moved st st1 who (if bal (account who st) < ed then default_data else ?a)" "total_issuance st1 = total_issuance st"
    using books_tma [where f = ?f and who = who and conv = "\<lambda>e. e" and drp = no_drop and n' = n and p' = p, OF b refl f] bound
      new unfolding mutate_account_def by (auto split: if_splits)
  let ?l = "\<lambda>s. s\<lparr>locks_map := (locks_map s)(who := if ls = [] then None else Some ls)\<rparr>"
  have "update_locks ed who ls st \<in> {?l st1, dec_consumers default_data who (?l st1), fst (inc_consumers default_data who (?l st1))}"
    using st1(1) by (auto simp: update_locks_def Let_def map_remove_def map_insert_def)
  then have "(\<forall>k. account k (update_locks ed who ls st) = account k st1) \<and>
    total_issuance (update_locks ed who ls st) = total_issuance st1 \<and>
    locks_map (update_locks ed who ls st) = (locks_map st1)(who := if ls = [] then None else Some ls)"
    by auto
  then show ?thesis using books_view [OF st1(2)] st1(3,4) by (auto simp: moved_def)
qed

lemma books_set_lock: "books ed st p n \<Longrightarrow> books ed (set_lock ed i who v rs st) p n"
  by (auto simp: set_lock_def Let_def update_locks_ok)

lemma books_extend_lock: "books ed st p n \<Longrightarrow> books ed (extend_lock ed i who v rs st) p n"
  by (auto simp: extend_lock_def Let_def update_locks_ok)

lemma books_remove_lock: "books ed st p n \<Longrightarrow> books ed (remove_lock ed i who st) p n"
  by (auto simp: remove_lock_def update_locks_ok)

section \<open>Set balance and genesis\<close>

lemma set_balance_closure_books:
  assumes b: "books ed st p n" "bal (account who st) \<le> total_issuance st" and bound: "held st + n + nf + nr \<le> BAL_MAX"
  shows "\<exists>st1. set_balance_closure nf nr (account who st) st =
     (st1, ((account who st)\<lparr>free := nf, reserved := nr\<rparr>, (nf, nr))) \<and>
     account_map st1 = account_map st \<and> (\<forall>k. account k st1 = account k st) \<and>
     books ed st1 (p + bal (account who st)) (n + nf + nr)"
proof -
  let ?a = "account who st"
  obtain st1 where st1: "set_balance_closure nf nr ?a st = (st1, (?a\<lparr>free := nf, reserved := nr\<rparr>, (nf, nr)))"
    by (simp add: set_balance_closure_def Let_def)
  have le: "bal ?a \<le> total_issuance st" "total_issuance st \<le> held st + n"
    using b by (auto simp: books_def)
  have "total_issuance st1 + bal ?a = total_issuance st + nf + nr"
    using st1 le bound by (auto simp: set_balance_closure_def Let_def bal_def)
  moreover have view: "account_map st1 = account_map st" "\<And>k. account k st1 = account k st"
    using st1 by (auto simp: set_balance_closure_def Let_def)
  ultimately have "books ed st1 (p + bal ?a) (n + nf + nr)"
    using b bound by (simp add: books_def held_def holders_def)
  with st1 view show ?thesis by blast
qed

lemma DispatchError_from_refused: "DispatchError_from e = ConsumerRemaining \<longleftrightarrow> e = ConsumerRemaining_map"
  by (cases e) auto

lemma books_set_balance:
  assumes b: "books ed st p n" "held st + n + nf + nr \<le> BAL_MAX"
    and cov: "\<And>who. lookup src = Some who \<Longrightarrow> bal (account who st) \<le> total_issuance st"
    and r: "set_balance ed lookup origin src nf nr st = (st', r)"
  shows "books ed st' (p + (case lookup src of Some who \<Rightarrow> if r = Inl ConsumerRemaining then bal (account who st) else 0 | None \<Rightarrow> 0)) n"
proof (cases "origin = Root \<and> lookup src \<noteq> None")
  case False
  then show ?thesis using r b by (cases origin) (auto simp: set_balance_def split: option.splits)
next
  case True
  then obtain who where who: "lookup src = Some who" "origin = Root" by auto
  note c = cov [OF who(1)]
  define wf wr where "wf = (if wrapping_add nf nr < ed then 0 else nf)" and "wr = (if wrapping_add nf nr < ed then 0 else nr)"
  let ?a = "(account who st)\<lparr>free := wf, reserved := wr\<rparr>" and ?f = "\<lambda>a _ st0. case set_balance_closure wf wr a st0 of (st1, r) \<Rightarrow> (st1, Inr r)"
  have w: "wf + wr \<le> nf + nr" "wrapping_add nf nr = nf + nr" using b(2) by (auto simp: wf_def wr_def)
  obtain st1 where st1: "set_balance_closure wf wr (account who st) st = (st1, (?a, (wf, wr)))"
    "account_map st1 = account_map st" "\<And>k. account k st1 = account k st"
    "books ed st1 (p + bal (account who st)) (n + wf + wr)"
    using set_balance_closure_books [OF b(1) c, of wf wr] b(2) w by auto
  have f: "?f (account who st) (account who st = default_data) st = (st1, Inr (?a, (wf, wr)))" using st1(1) by simp
  have ba: "bal ?a = wf + wr" by (simp add: bal_def)
  have sm: "fst (set_balance ed lookup origin src nf nr st) = fst (mutate_account ed no_drop who (set_balance_closure wf wr) st) \<or>
    (\<exists>ev. fst (set_balance ed lookup origin src nf nr st) = balances_event ev (fst (mutate_account ed no_drop who (set_balance_closure wf wr) st)))"
    and err: "snd (mutate_account ed no_drop who (set_balance_closure wf wr) st) = Inl ConsumerRemaining_map \<longleftrightarrow> r = Inl ConsumerRemaining"
    using r who
    by (auto simp: set_balance_def Let_def wf_def wr_def DispatchError_from_refused split: prod.splits sum.splits if_splits)
  have small: "bal ?a < ed \<Longrightarrow> bal ?a = 0" using w ba by (auto simp: wf_def wr_def split: if_splits)
  show ?thesis
  proof (cases "bal ?a < ed \<and> account who st \<noteq> default_data \<and> vital who st1")
    case True
    then have z: "wf = 0" "wr = 0" using small ba by auto
    obtain st2 where st2: "mutate_account ed no_drop who (set_balance_closure wf wr) st = (st2, Inl ConsumerRemaining_map)"
      "\<forall>k. account k st2 = account k st1" "total_issuance st2 = total_issuance st1"
      using tma_refused [where f = ?f and conv = "\<lambda>e. e" and drp = no_drop, OF f, of ed] True z
      unfolding mutate_account_def by (auto simp: total_def saturating_add_def no_drop_def)
    then have "books ed st2 (p + bal (account who st)) n" "r = Inl ConsumerRemaining"
      using books_view [OF st1(4), of st2] z err by auto
    then show ?thesis using sm r st2(1) who(1) by auto
  next
    case False
    have "bal ?a + n + (p + bal (account who st)) = bal (account who st) + (n + wf + wr) + p"
      "bal ?a + n + held st1 \<le> BAL_MAX + bal (account who st)"
      using ba st1(4) by (auto simp: books_def)
    then obtain st2 where st2: "mutate_account ed no_drop who (set_balance_closure wf wr) st = (st2, Inr (wf, wr))" "books ed st2 p n"
      using books_tma [where f = ?f and who = who and conv = "\<lambda>e. e" and drp = no_drop and n' = n and p' = p, OF st1(4,3) f] small False
      unfolding mutate_account_def by fastforce
    then have "r \<noteq> Inl ConsumerRemaining" using err by auto
    then show ?thesis using sm r st2 who(1) by auto
  qed
qed

lemma store_insert_ok:
  "\<exists>st1. store_insert k a st = (st1, Inr ()) \<and> moved st st1 k a \<and> total_issuance st1 = total_issuance st"
proof -
  obtain st1 where "store_insert k a st = (st1, Inr ())"
    "\<forall>k'. stored_get default_data k' st1 = (if k' = k then a else stored_get default_data k' st)"
    "system.more st1 = system.more st"
    using sys.insert_lookup [where conv = "\<lambda>e. e" and drp = no_drop and r = "()" and t = a and k = k and st = st and ?d0.0 = default_data]
    unfolding store_insert_def by blast
  then show ?thesis using bst_more_cong [of st1 st] by (auto simp: moved_def account_def)
qed

lemma insert_all_ok:
  assumes "books ed st 0 (sum_list (map snd bs))" "distinct (map fst bs)" "\<forall>(k, b) \<in> set bs. ed \<le> b"
    and "\<forall>(k, b) \<in> set bs. account k st = default_data"
  shows "\<exists>st'. insert_all bs st = Some st' \<and> books ed st' 0 0 \<and>
    (\<forall>k. account k st' = (case map_of bs k of None \<Rightarrow> account k st | Some b \<Rightarrow> default_data\<lparr>free := b\<rparr>)) \<and>
    locks_map st' = locks_map st"
  using assms
proof (induction bs arbitrary: st)
  case Nil
  then show ?case by simp
next
  case (Cons x bs)
  obtain k v where x: "x = (k, v)" by (cases x)
  let ?a = "default_data\<lparr>free := v\<rparr>"
  obtain st1 where st1: "store_insert k ?a st = (st1, Inr ())" "moved st st1 k ?a" "total_issuance st1 = total_issuance st"
    using store_insert_ok [of k ?a st] by auto
  have "bal ?a = v" "account k st = default_data" using Cons.prems x by (auto simp: bal_def)
  then have b: "books ed st1 0 (sum_list (map snd bs))"
    using held_moved [OF st1(2)] st1(2,3) Cons.prems x by (auto simp: books_def moved_def)
  have "\<forall>(k', b) \<in> set bs. account k' st1 = default_data"
    using Cons.prems x st1(2) by (auto simp: moved_def rev_image_eqI)
  then obtain st' where st': "insert_all bs st1 = Some st'" "books ed st' 0 0"
    "\<forall>k. account k st' = (case map_of bs k of None \<Rightarrow> account k st1 | Some b \<Rightarrow> default_data\<lparr>free := b\<rparr>)"
    "locks_map st' = locks_map st1"
    using Cons.IH [OF b] Cons.prems x by auto
  moreover have "map_of bs k = None" using Cons.prems x by (simp add: map_of_eq_None_iff)
  ultimately show ?case using x st1 by (auto simp: moved_def split: option.split)
qed

lemma genesis_total:
  "acc + sum_list (map snd bs) \<le> BAL_MAX \<Longrightarrow>
   foldl (\<lambda>acc (_, n). wrapping_add acc n) acc bs = acc + sum_list (map snd bs)"
  by (induction bs arbitrary: acc) (auto simp: add.assoc)

lemma genesis_ok:
  assumes "account_map st = (\<lambda>_. None)" "sum_list (map snd bs) \<le> BAL_MAX"
    and "distinct (map fst bs)" "\<forall>(k, b) \<in> set bs. ed \<le> b"
  shows "\<exists>st'. genesis_build ed bs st = Some st' \<and> books ed st' 0 0 \<and> total_issuance st' = sum_list (map snd bs) \<and>
    (\<forall>k. account k st' = (case map_of bs k of None \<Rightarrow> default_data | Some b \<Rightarrow> default_data\<lparr>free := b\<rparr>)) \<and> locks_map st' = locks_map st"
proof -
  let ?st = "st\<lparr>total_issuance := foldl (\<lambda>acc (_, n). wrapping_add acc n) 0 bs\<rparr>"
  have d: "account k ?st = default_data" for k
    using assms(1) by (simp add: account_def stored_get_def account_info_def map_get_def)
  then have "books ed ?st 0 (sum_list (map snd bs))"
    using assms(2) genesis_total [of 0 bs] by (simp add: books_def holders_def held_def)
  then have "\<exists>st'. insert_all bs ?st = Some st' \<and> books ed st' 0 0 \<and>
    (\<forall>k. account k st' = (case map_of bs k of None \<Rightarrow> account k ?st | Some b \<Rightarrow> default_data\<lparr>free := b\<rparr>)) \<and>
    locks_map st' = locks_map ?st"
    by (rule insert_all_ok) (use assms(3,4) d in auto)
  then obtain st' where st': "insert_all bs ?st = Some st'" "books ed st' 0 0"
    "\<forall>k. account k st' = (case map_of bs k of None \<Rightarrow> default_data | Some b \<Rightarrow> default_data\<lparr>free := b\<rparr>)" "locks_map st' = locks_map st"
    unfolding d by auto
  have set_eq: "length (remdups (map fst bs)) = length bs"
    using assms(3) by (simp add: distinct_remdups_id)
  have ti: "total_issuance s' = total_issuance s" if "insert_all b s = Some s'" for b and s s' :: "('a, 'b, 'c) bst"
    using that
  proof (induction b arbitrary: s)
    case (Cons x b)
    then show ?case using store_insert_ok [of "fst x" "default_data\<lparr>free := snd x\<rparr>" s] by (cases x) auto
  qed simp
  show ?thesis
    using st' set_eq assms(4) ti [OF st'(1)] genesis_total [of 0 bs] assms(2) by (auto simp: genesis_build_def Let_def)
qed

section \<open>Runs of the currency\<close>

text \<open>
  \<open>currency_run ed lookup st p n l\<close>: \<open>st\<close> is reached from genesis by the operations of the pallet, and its clients hold
  positive imbalances worth \<open>p\<close> and negative ones worth \<open>n\<close>. \<open>l\<close> is what the total issuance has lost in operations that were
  to remove an account the store refuses to remove (a \<open>vital\<close> one, which others refer to): the account stays, but
  what the operation took off the issuance is not put back. That is the whole balance of the account, or, in
  \<open>repatriate_reserved\<close>, what was to remain of it. Every outcome of every operation is a step. Two kinds of premises say
  that the arithmetic of the issuance, which saturates, is exact: minted funds fit the total issuance, and the issuance
  covers the account from which an operation takes funds.
\<close>

inductive currency_run :: "balance \<Rightarrow> ('src \<Rightarrow> 'acc option) \<Rightarrow> ('acc, 'q, 'z) bst \<Rightarrow> nat \<Rightarrow> nat \<Rightarrow> nat \<Rightarrow> bool" for ed lookup where
  genesis: "account_map st0 = (\<lambda>_. None) \<Longrightarrow> sum_list (map snd bs) \<le> BAL_MAX \<Longrightarrow> genesis_build ed bs st0 = Some st \<Longrightarrow>
    currency_run ed lookup st 0 0 0"
| transfers: "currency_run ed lookup st p n l \<Longrightarrow> bal (account s st) \<le> total_issuance st \<Longrightarrow>
    currency_run ed lookup (fst (transfer ed s d v er st)) p n l"
| set_balances: "currency_run ed lookup st p n l \<Longrightarrow> (\<And>who. lookup src = Some who \<Longrightarrow> bal (account who st) \<le> total_issuance st) \<Longrightarrow>
    held st + n + f + r \<le> BAL_MAX \<Longrightarrow> set_balance ed lookup origin src f r st = (st', x) \<Longrightarrow>
    currency_run ed lookup st' p n
      (l + (case lookup src of Some who \<Rightarrow> if x = Inl ConsumerRemaining then bal (account who st) else 0 | None \<Rightarrow> 0))"
| withdrawn: "currency_run ed lookup st p n l \<Longrightarrow> bal (account who st) \<le> total_issuance st \<Longrightarrow>
    withdraw ed who v rs er st = (st', Inr i) \<Longrightarrow> currency_run ed lookup st' p (n + neg_peek i) l"
| withdraw_fails: "currency_run ed lookup st p n l \<Longrightarrow> bal (account who st) \<le> total_issuance st \<Longrightarrow>
    withdraw ed who v rs er st = (st', Inl e) \<Longrightarrow>
    currency_run ed lookup st' p n (l + (if e = ConsumerRemaining then bal (account who st) else 0))"
| deposited: "currency_run ed lookup st p n l \<Longrightarrow> held st + n + v \<le> BAL_MAX \<Longrightarrow> deposit_into_existing ed who v st = (st', Inr i) \<Longrightarrow>
    currency_run ed lookup st' (p + pos_peek i) n l"
| deposit_fails: "currency_run ed lookup st p n l \<Longrightarrow> held st + n + v \<le> BAL_MAX \<Longrightarrow> deposit_into_existing ed who v st = (st', Inl e) \<Longrightarrow>
    currency_run ed lookup st' p n l"
| created: "currency_run ed lookup st p n l \<Longrightarrow> held st + n + v \<le> BAL_MAX \<Longrightarrow> deposit_creating ed who v st = (st', i) \<Longrightarrow>
    currency_run ed lookup st' (p + pos_peek i) n l"
| made_free: "currency_run ed lookup st p n l \<Longrightarrow> bal (account who st) \<le> total_issuance st \<Longrightarrow> held st + n + v \<le> BAL_MAX \<Longrightarrow>
    make_free_balance_be ed who v st = (st', i) \<Longrightarrow>
    currency_run ed lookup st' (p + signed_pos i) (n + signed_neg i)
      (l + (if vital who st \<and> v + reserved (account who st) < ed then bal (account who st) else 0))"
| slashed: "currency_run ed lookup st p n l \<Longrightarrow> bal (account who st) \<le> total_issuance st \<Longrightarrow> slash ed who v st = (st', (i, rest)) \<Longrightarrow>
    currency_run ed lookup st' p (n + neg_peek i)
      (l + (if vital who st \<and> bal (account who st) - v < ed then bal (account who st) else 0))"
| issued: "currency_run ed lookup st p n l \<Longrightarrow> total_issuance st + p + l + v \<le> BAL_MAX \<Longrightarrow> issue v st = (st', i) \<Longrightarrow>
    currency_run ed lookup st' p (n + neg_peek i) l"
| burnt: "currency_run ed lookup st p n l \<Longrightarrow> burn v st = (st', i) \<Longrightarrow> currency_run ed lookup st' (p + pos_peek i) n l"
| reserves: "currency_run ed lookup st p n l \<Longrightarrow> currency_run ed lookup (fst (reserve ed who v st)) p n l"
| unreserves: "currency_run ed lookup st p n l \<Longrightarrow> currency_run ed lookup (fst (unreserve ed who v st)) p n l"
| slashed_reserved: "currency_run ed lookup st p n l \<Longrightarrow> bal (account who st) \<le> total_issuance st \<Longrightarrow>
    slash_reserved ed who v st = (st', (i, rest)) \<Longrightarrow>
    currency_run ed lookup st' p (n + neg_peek i)
      (l + (if vital who st \<and> bal (account who st) < ed + min (reserved (account who st)) v then bal (account who st) else 0))"
| repatriated: "currency_run ed lookup st p n l \<Longrightarrow> bal (account s st) \<le> total_issuance st \<Longrightarrow>
    repatriate_reserved ed s d v status st = (st', x) \<Longrightarrow>
    currency_run ed lookup st' p n
      (l + (if x = Inl ConsumerRemaining then bal (account s st) - min (reserved (account s st)) v else 0))"
| locked_set: "currency_run ed lookup st p n l \<Longrightarrow> currency_run ed lookup (set_lock ed i who v rs st) p n l"
| locked_extended: "currency_run ed lookup st p n l \<Longrightarrow> currency_run ed lookup (extend_lock ed i who v rs st) p n l"
| lock_removed: "currency_run ed lookup st p n l \<Longrightarrow> currency_run ed lookup (remove_lock ed i who st) p n l"
| pos_dropped: "currency_run ed lookup st p n l \<Longrightarrow> x \<le> p \<Longrightarrow>
    currency_run ed lookup (pos_drop (PositiveImbalance x) st) (p - x) n l"
| neg_dropped: "currency_run ed lookup st p n l \<Longrightarrow> x \<le> n \<Longrightarrow> x \<le> total_issuance st \<Longrightarrow>
    currency_run ed lookup (neg_drop (NegativeImbalance x) st) p (n - x) l"
| pos_offset_by: "currency_run ed lookup st p n l \<Longrightarrow> x \<le> p \<Longrightarrow> y \<le> n \<Longrightarrow>
    pos_offset (PositiveImbalance x) (NegativeImbalance y) = r \<Longrightarrow>
    currency_run ed lookup st (p - x + (case r of Inr i \<Rightarrow> pos_peek i | Inl _ \<Rightarrow> 0)) (n - y + (case r of Inr _ \<Rightarrow> 0 | Inl i \<Rightarrow> neg_peek i)) l"

lemma books_transfer: "books ed st p n \<Longrightarrow> bal (account s st) \<le> total_issuance st \<Longrightarrow> books ed (fst (transfer ed s d v er st)) p n"
  using transfer_ok [of ed st p n s v d er] transfer_err [of ed st p n v s d er]
  by (cases "v = 0 \<or> s = d"; cases "transferable ed s d v er st") (auto simp: transfer_def)

lemma books_reserve: "books ed st p n \<Longrightarrow> books ed (fst (reserve ed who v st)) p n"
  using reserve_ok [of ed st p n v who] reserve_err [of ed st p n v who]
  by (cases "v = 0"; cases "reservable who v st") (auto simp: reserve_def)

lemma books_pos_offset:
  assumes "books ed st p n" "x \<le> p" "y \<le> n"
  shows "books ed st (p - x + (case pos_offset (PositiveImbalance x) (NegativeImbalance y) of Inr i \<Rightarrow> pos_peek i | Inl _ \<Rightarrow> 0))
    (n - y + (case pos_offset (PositiveImbalance x) (NegativeImbalance y) of Inr _ \<Rightarrow> 0 | Inl i \<Rightarrow> neg_peek i))"
  using books_offset [OF assms(1), of "min x y"] assms by (cases "x \<ge> y") (auto simp: pos_offset_def)

lemma genesis_conditions:
  assumes "genesis_build ed bs st = Some st'"
  shows "distinct (map fst bs) \<and> (\<forall>(k, b) \<in> set bs. ed \<le> b)"
proof -
  have "length (remdups (map fst bs)) = length (map fst bs)" "\<forall>(k, b) \<in> set bs. ed \<le> b"
    using assms by (auto simp: genesis_build_def Let_def split: if_splits)
  then show ?thesis using length_remdups_card_conv [of "map fst bs"] card_distinct [of "map fst bs"] by simp
qed

lemma currency_run_books: "currency_run ed lookup st p n l \<Longrightarrow> books ed st (p + l) n"
proof (induction rule: currency_run.induct)
  case (genesis st0 bs st)
  then show ?case using genesis_ok [of st0 bs ed] genesis_conditions [of ed bs st0 st] by auto
next
  case (transfers st p n l s d v er)
  then show ?case using books_transfer [of ed st "p + l" n s d v er] by simp
next
  case (set_balances st p n l src f r origin st' x)
  then show ?case using books_set_balance [of ed st "p + l" n f r lookup src origin st' x] by (simp add: add.assoc)
next
  case (withdrawn st p n l who v rs er st' i)
  then show ?case using books_withdraw [of ed st "p + l" n who v rs er st' "Inr i"] by simp
next
  case (withdraw_fails st p n l who v rs er st' e)
  then show ?case using books_withdraw [of ed st "p + l" n who v rs er st' "Inl e"] by (simp add: add.assoc)
next
  case (deposited st p n l v who st' i)
  then show ?case using books_deposit_into_existing [of ed st "p + l" n v who st' "Inr i"] by (simp add: ac_simps)
next
  case (deposit_fails st p n l v who st' e)
  then show ?case using books_deposit_into_existing [of ed st "p + l" n v who st' "Inl e"] by simp
next
  case (created st p n l v who st' i)
  then show ?case using books_deposit_creating [of ed st "p + l" n v who st' i] by (simp add: ac_simps)
next
  case (made_free st p n l who v st' i)
  then show ?case using books_make_free_balance_be [of ed st "p + l" n who v st' i] by (simp add: ac_simps)
next
  case (slashed st p n l who v st' i rest)
  then show ?case using books_slash [of ed st "p + l" n who v st' i rest] by (simp add: ac_simps)
next
  case (slashed_reserved st p n l who v st' i rest)
  then show ?case using books_slash_reserved [of ed st "p + l" n who v st' i rest] by (simp add: ac_simps)
next
  case (issued st p n l v st' i)
  then show ?case using books_issue [of ed st "p + l" n v] by (simp add: ac_simps)
next
  case (burnt st p n l v st' i)
  then show ?case using books_burn [of ed st "p + l" n v] by (simp add: ac_simps)
next
  case (repatriated st p n l s d v status st' x)
  then show ?case using books_repatriate [of ed st "p + l" n s d v status st' x] by (simp add: add.assoc)
next
  case (pos_dropped st p n l x)
  then show ?case using books_pos_drop [of ed st "p + l" n x] by simp
next
  case (pos_offset_by st p n l x y r)
  then show ?case using books_pos_offset [of ed st "p + l" n x y] by (simp add: ac_simps split: sum.splits)
qed (assumption | rule books_reserve books_unreserve books_set_lock books_extend_lock books_remove_lock books_neg_drop)+

end
