(* ===== verification/BalancesProperties.thy ===== *)
theory BalancesProperties
  imports BalancesRun
begin

text \<open>The properties of the balances pallet, each with an instance on a small bank of two accounts.\<close>

section \<open>An example state\<close>

text \<open>Accounts 1 and 2 hold 100 and 50 units; \<open>c\<close> consumers refer to account 1.\<close>

definition bank :: "u32 \<Rightarrow> (nat, unit) balances_state" where
  "bank c = \<lparr>account_map =
       [1 \<mapsto> \<lparr>nonce = 0, consumers = c, providers = 1, data = default_data\<lparr>free := 100\<rparr>\<rparr>,
        2 \<mapsto> \<lparr>nonce = 0, consumers = 0, providers = 1, data = default_data\<lparr>free := 50\<rparr>\<rparr>],
     block_number = 1, execution_phase = None, event_count = 0, events = [], event_topics = (\<lambda>_. []),
     total_issuance = 150, locks_map = (\<lambda>_. None)\<rparr>"

lemma default_free: "default_data\<lparr>free := x\<rparr> = default_data \<longleftrightarrow> x = 0"
  by (simp add: default_data_def)

lemma bank_account [simp]:
  "account k (bank c) = (if k = 1 then default_data\<lparr>free := 100\<rparr> else if k = 2 then default_data\<lparr>free := 50\<rparr> else default_data)"
  by (simp add: bank_def account_def stored_get_def account_info_def map_get_def)

lemma bank_holders: "holders (bank c) = {1, 2}"
  by (auto simp: holders_def default_free)

lemma bank_books: "books 10 (bank c) 0 0"
proof -
  have "held (bank c) = 150" by (simp add: held_def bank_holders bal_def)
  then show ?thesis
    by (simp add: books_def bank_holders BAL_MAX_def bal_def) (simp add: bank_def)
qed

lemma bank_vital: "vital 1 (bank c) \<longleftrightarrow> c \<noteq> 0"
  by (simp add: vital_def bank_def)

lemma bank_required: "is_provider_required default_data 1 (bank c) \<longleftrightarrow> c \<noteq> 0"
  by (simp add: is_provider_required_def account_info_def map_get_def bank_def)

lemma bank_issuance [simp]: "total_issuance (bank c) = 150" "block_number (bank c) = 1" "locks_map (bank c) = (\<lambda>_. None)"
  by (simp_all add: bank_def)

section \<open>Properties\<close>

text \<open>The same bank as a run reaches it, from genesis.\<close>

lemma bank_run: "\<exists>st :: (nat, unit) balances_state. currency_run 10 Some st 0 0 0 \<and>
   (\<forall>k. account k st = account k (bank 0)) \<and> total_issuance st = 150 \<and> locks_map st = (\<lambda>_. None) \<and>
   (\<exists>i. account_map st 1 = Some i \<and> consumers i = 0 \<and> providers i = 1) \<and> (\<forall>k. \<not> is_provider_required default_data k st)"
proof -
  let ?e = "(bank 0)\<lparr>account_map := (\<lambda>_. None)\<rparr> :: (nat, unit) balances_state"
  let ?bs = "[(1, 100), (2, 50)] :: (nat \<times> nat) list"
  obtain s0 where s0: "genesis_build 10 ?bs ?e = Some s0" "total_issuance s0 = 150"
    "\<forall>k. account k s0 = (case map_of ?bs k of None \<Rightarrow> default_data | Some b \<Rightarrow> default_data\<lparr>free := b\<rparr>)" "locks_map s0 = (\<lambda>_. None)"
    using genesis_ok [of ?e ?bs 10] by (auto simp: BAL_MAX_def)
  have "currency_run 10 Some s0 0 0 0" by (rule genesis [OF _ _ s0(1)]) (simp_all add: BAL_MAX_def)
  moreover have "(\<exists>i. account_map s0 1 = Some i \<and> consumers i = 0 \<and> providers i = 1) \<and>
      (\<forall>k. \<not> is_provider_required default_data k s0)"
    using s0(1)
    by (auto simp: genesis_build_def Let_def store_insert_def try_mutate_exists_def stored_get_def account_info_def
        map_get_def is_providing_def default_free inc_providers_def put_data_def map_mutate_def map_insert_def default_info_def
        is_provider_required_def split: if_splits)
  ultimately show ?thesis using s0(2-4) by (intro exI [of _ s0]) auto
qed




text \<open>
  C14. A transfer of a positive value between two accounts either goes through exactly or changes nothing
  at all, events included. It goes through if and only if the sender's free balance covers the value
  and stays above the amount frozen by locks, the receiver ends with the existential deposit, and the
  sender keeps the existential deposit free or may die and nobody refers to it. Then the receiver gains
  the value, the sender loses it, or is reset with its dust taken off the issuance, and no other
  account and no lock changes. The issuance has to cover the sender's balance, as it does unless refused removals
  have lost some of it.
\<close>

theorem transfer_exact:
  assumes run: "currency_run ed lookup st p n lost" "bal (account source st) \<le> total_issuance st" and "0 < v" "source \<noteq> dest"
  shows "if transferable ed source dest v er st
    then \<exists>st'. transfer ed source dest v er st = (st', Inr ()) \<and> locks_map st' = locks_map st \<and>
      (\<forall>k. account k st' =
        (if k = dest then (account dest st)\<lparr>free := free (account dest st) + v\<rparr>
         else if k = source then
           (if bal (account source st) - v < ed then default_data
            else (account source st)\<lparr>free := free (account source st) - v\<rparr>)
         else account k st)) \<and>
      total_issuance st' + (if bal (account source st) - v < ed then bal (account source st) - v else 0) = total_issuance st
    else \<exists>e \<in> {InsufficientBalance, ExistentialDeposit, LiquidityRestrictions, KeepAliveError}.
      transfer ed source dest v er st = (st, Inl (ModuleError e))"
proof -
  note b = currency_run_books [OF run(1)]
  show ?thesis
    using transfer_ok [OF b run(2) assms(3,4), of er] transfer_err [OF b assms(3,4), of er] run(2) by auto
qed

text \<open>A transfer that reaps the sender with 5 units of dust, and one that would overdraw it.\<close>

theorem transfer_exact_witness:
  "\<exists>st :: (nat, unit) balances_state. currency_run 10 Some st 0 0 0 \<and>
     (\<exists>st'. transfer 10 1 2 95 AllowDeath st = (st', Inr ()) \<and> account 1 st' = default_data \<and>
        free (account 2 st') = 145 \<and> total_issuance st' = 145) \<and>
     (\<exists>e. transfer 10 1 2 101 AllowDeath st = (st, Inl (ModuleError e)))"
proof -
  obtain st :: "(nat, unit) balances_state" where st: "currency_run 10 Some st 0 0 0"
    "\<forall>k. account k st = account k (bank 0)" "total_issuance st = 150" "\<forall>k. \<not> is_provider_required default_data k st"
    using bank_run by blast
  then have "transferable 10 1 2 95 AllowDeath st" "\<not> transferable 10 1 2 101 AllowDeath st"
    by (simp_all add: transferable_def bal_def)
  then show ?thesis
    using transfer_exact [OF st(1), of 1 95 2 AllowDeath] transfer_exact [OF st(1), of 1 101 2 AllowDeath] st
    by (intro exI [of _ st]) (auto simp: bal_def)
qed



text \<open>
  C17. Slashing an account that others refer to corrupts the issuance. If the slash would bring the account
  below the existential deposit and the store refuses to remove it, the first attempt fails, but it has
  already taken the account's whole balance off the total issuance (the dust, and the imbalance that is
  dropped unreturned). The second attempt then slashes down to the existential deposit and returns an
  imbalance for that amount. Dropping it takes the amount off the issuance once more, as far as there is any left. The
  accounts lose only the amount the second attempt reports.
\<close>

theorem slash_vital_loses_issuance:
  assumes b: "books ed st p n" "bal (account who st) \<le> total_issuance st" and v: "0 < v" "account who st \<noteq> default_data"
    and vital: "vital who st" "bal (account who st) - v < ed"
  defines "s \<equiv> bal (account who st) - ed"
  shows "\<exists>st'. slash ed who v st = (st', (NegativeImbalance s, v - s)) \<and> held st' + s = held st \<and>
    total_issuance st' + bal (account who st) = total_issuance st \<and>
    total_issuance (neg_drop (NegativeImbalance s) st') = total_issuance st - (bal (account who st) + s)"
proof -
  have "bal (account who st) \<noteq> 0" using books_ed [OF b(1) v(2)] vital(2) by auto
  then obtain st' where "slash ed who v st = (st', (NegativeImbalance s, v - s))" "held st' + s = held st"
    "total_issuance st' + bal (account who st) = total_issuance st"
    using slash_refused [OF b v _ vital] unfolding s_def by blast
  then show ?thesis by (intro exI [of _ st']) auto
qed

text \<open>Slashing 95 of the 100 units takes 90 from the account, and all of the 150 off the issuance, where it stops.\<close>

theorem slash_vital_loses_issuance_witness:
  "\<exists>st'. slash 10 1 95 (bank 1) = (st', (NegativeImbalance 90, 5)) \<and> held st' = 60 \<and> total_issuance st' = 50 \<and>
     total_issuance (neg_drop (NegativeImbalance 90) st') = 0"
proof -
  have "held (bank 1) = 150" by (simp add: held_def bank_holders bal_def)
  then show ?thesis
    using slash_vital_loses_issuance [OF bank_books [of 1], of 1 95] bank_vital [of 1]
    by (auto simp: default_free bal_def)
qed

text \<open>
  C18. Withdrawals fail cleanly with one exception. A withdrawal of a positive value that the balance, the
  locks or the liveness requirement forbid changes nothing; one that goes through takes exactly the
  value; but one that would kill an account others refer to reports \<open>ConsumerRemaining\<close>, leaves the
  accounts as they were, and yet takes the account's whole balance off the total issuance.
\<close>

theorem withdraw_outcomes:
  assumes b: "books ed st p n" "p \<le> n" "0 < v"
  shows "if \<not> withdrawable ed who v rs er st
    then \<exists>e \<in> {InsufficientBalance, KeepAliveError, LiquidityRestrictions}. withdraw ed who v rs er st = (st, Inl (ModuleError e))
    else if bal (account who st) - v < ed \<and> vital who st
    then \<exists>st'. withdraw ed who v rs er st = (st', Inl ConsumerRemaining) \<and> account_map st' = account_map st \<and>
      total_issuance st' + bal (account who st) = total_issuance st
    else \<exists>st'. withdraw ed who v rs er st = (st', Inr (NegativeImbalance v)) \<and> books ed st' p (n + v) \<and>
      (\<forall>k. k \<noteq> who \<longrightarrow> account k st' = account k st) \<and>
      account who st' = (if bal (account who st) - v < ed then default_data else (account who st)\<lparr>free := free (account who st) - v\<rparr>)"
proof -
  note c = issuance_covers [OF b(1,2), of who]
  show ?thesis
    using withdraw_err [OF b(1,3), of who rs er] withdraw_refused [OF b(1,3), of who rs er] withdraw_ok [OF b(1) c b(3), of rs er] c
    by (auto simp: moved_def)
qed

theorem withdraw_outcomes_witness:
  "\<exists>st'. withdraw 10 1 95 TRANSFER AllowDeath (bank 1) = (st', Inl ConsumerRemaining) \<and>
     account_map st' = account_map (bank 1) \<and> total_issuance st' = 50"
  using withdraw_outcomes [OF bank_books [of 1], of 95 1 TRANSFER AllowDeath] bank_vital [of 1]
  by (auto simp: withdrawable_def bal_def frozen_def)

text \<open>
  C19. Reserving is undone by unreserving. If a positive value can be reserved, it moves from free to
  reserved balance, \<open>can_reserve\<close> having said so, and unreserving the same value restores every account
  and the issuance and reports nothing left over; if it cannot, nothing changes. Unreserving more than
  is reserved moves what there is and returns the rest.
\<close>

theorem reserve_unreserve:
  assumes b: "books ed st p n" "0 < v"
  shows "if can_reserve who v st
    then \<exists>st1 st2. reserve ed who v st = (st1, Inr ()) \<and>
      account who st1 = (account who st)\<lparr>free := free (account who st) - v, reserved := reserved (account who st) + v\<rparr> \<and>
      unreserve ed who v st1 = (st2, 0) \<and> (\<forall>k. account k st2 = account k st) \<and> total_issuance st2 = total_issuance st \<and>
      (\<forall>w. snd (unreserve ed who w st1) = w - min w (reserved (account who st) + v))
    else \<exists>e. reserve ed who v st = (st, Inl (ModuleError e))"
proof (cases "reservable who v st")
  case False
  then show ?thesis using can_reserve_reservable [OF b(2), of who st] reserve_err [OF b False] by simp
next
  case True
  let ?a = "(account who st)\<lparr>free := free (account who st) - v, reserved := reserved (account who st) + v\<rparr>"
  obtain st1 where st1: "reserve ed who v st = (st1, Inr ())" "books ed st1 p n" "total_issuance st1 = total_issuance st"
    "moved st st1 who ?a" using reserve_ok [OF b True] by blast
  have a1: "account who st1 = ?a" "bal (account who st1) \<noteq> 0" using st1(4) b(2) by (auto simp: moved_def bal_def)
  obtain st2 where st2: "unreserve ed who v st1 = (st2, 0)" "total_issuance st2 = total_issuance st1"
    "moved st1 st2 who (?a\<lparr>free := free (account who st), reserved := reserved (account who st)\<rparr>)"
    using unreserve_ok [OF st1(2) b(2) a1(2)] True by (auto simp: a1(1) reservable_def)
  have "snd (unreserve ed who w st1) = w - min w (reserved (account who st) + v)" for w
    using unreserve_ok [OF st1(2) _ a1(2), of w] by (cases "w = 0") (auto simp: a1(1) unreserve_def min.commute)
  moreover have "account k st2 = account k st" for k
    using st2(3) st1(4) by (auto simp: moved_def)
  ultimately show ?thesis using st1 st2 a1(1) True can_reserve_reservable [OF b(2), of who st] by auto
qed

theorem reserve_unreserve_witness:
  "\<exists>st1 st2. reserve 10 1 30 (bank 0) = (st1, Inr ()) \<and> free (account 1 st1) = 70 \<and> reserved (account 1 st1) = 30 \<and>
     unreserve 10 1 30 st1 = (st2, 0) \<and> account 1 st2 = account 1 (bank 0)"
  using reserve_unreserve [OF bank_books [of 0], of 30 1]
  by (auto simp: can_reserve_reservable reservable_def)

text \<open>
  C20. Repatriating moves reserve without creating or destroying funds. For a positive value, a
  beneficiary in use and two different accounts, as much of the value as the slashed account has
  reserved moves to the free balance of the beneficiary or to its reserved balance, as the status says, and the rest of
  the value is returned; no other account changes. What remains of the slashed account is reset as dust below the
  existential deposit. If others refer to the slashed account, so that it cannot be reset, the call reports
  \<open>ConsumerRemaining\<close> and changes no account, but the dust is off the issuance. To a beneficiary not in use the call fails
  and changes nothing.
\<close>

theorem repatriate_exact:
  assumes b: "books ed st p n" "bal (account slashed st) \<le> total_issuance st" "0 < v" "slashed \<noteq> who"
  defines "a \<equiv> account slashed st" and "s \<equiv> min (reserved (account slashed st)) v"
  shows "if account who st = default_data
    then repatriate_reserved ed slashed who v status st = (st, Inl (ModuleError DeadAccount))
    else if bal a - s < ed \<and> a \<noteq> default_data \<and> vital slashed st
    then \<exists>st'. repatriate_reserved ed slashed who v status st = (st', Inl ConsumerRemaining) \<and>
      (\<forall>k. account k st' = account k st) \<and> total_issuance st' + (bal a - s) = total_issuance st
    else \<exists>st'. repatriate_reserved ed slashed who v status st = (st', Inr (v - s)) \<and> books ed st' p n \<and>
      account who st' = (case status of
          Status_Free \<Rightarrow> (account who st)\<lparr>free := free (account who st) + s\<rparr>
        | Status_Reserved \<Rightarrow> (account who st)\<lparr>reserved := reserved (account who st) + s\<rparr>) \<and>
      account slashed st' = (if bal a - s < ed then default_data else a\<lparr>reserved := reserved a - s\<rparr>) \<and>
      (\<forall>k. k \<noteq> who \<and> k \<noteq> slashed \<longrightarrow> account k st' = account k st) \<and>
      total_issuance st' + (if bal a - s < ed then bal a - s else 0) = total_issuance st"
proof (cases "account who st = default_data")
  case True
  then show ?thesis using repatriate_dead b(3,4) by simp
next
  case False
  let ?r = "a\<lparr>reserved := reserved a - s\<rparr>"
  have r: "bal ?r = bal a - s" by (auto simp: bal_def a_def s_def)
  show ?thesis
  proof (cases "bal a - s < ed \<and> a \<noteq> default_data \<and> vital slashed st")
    case True
    then show ?thesis
      using repatriate_refused [OF b False, of status] False r by (simp add: a_def s_def)
  next
    case live: False
    have "bal ?r < ed \<Longrightarrow> account slashed st = default_data \<or> \<not> vital slashed st"
      unfolding r using live by (auto simp: a_def)
    then obtain st' where "repatriate_reserved ed slashed who v status st = (st', Inr (v - s))" "books ed st' p n"
      "\<forall>k. account k st' = (if k = who then credited status (account who st) s
         else if k = slashed then (if bal ?r < ed then default_data else ?r) else account k st)"
      "total_issuance st' = total_issuance st - (if bal ?r < ed then bal ?r else 0)"
      using repatriate_ok [OF b False, of status] unfolding a_def s_def by blast
    moreover have "bal a - s \<le> total_issuance st" using b(2) by (simp add: a_def)
    ultimately show ?thesis
      using False live b(4) r by (intro if_not_P [THEN iffD2] exI [of _ st']) (auto simp: credited_def)
  qed
qed

text \<open>With 95 of 100 units reserved, repatriating 200 moves the 95 and reaps the rest as dust.\<close>

theorem repatriate_exact_witness:
  "\<exists>st st' st''. reserve 10 1 95 (bank 0) = (st, Inr ()) \<and> repatriate_reserved 10 1 2 200 Status_Free st = (st', Inr 105) \<and>
     free (account 2 st') = 145 \<and> account 1 st' = default_data \<and> repatriate_reserved 10 1 2 200 Status_Reserved st = (st'', Inr 105) \<and>
     free (account 2 st'') = 50 \<and> reserved (account 2 st'') = 95"
proof -
  have "reservable 1 95 (bank 0)" by (simp add: reservable_def)
  then obtain st where st: "reserve 10 1 95 (bank 0) = (st, Inr ())" "books 10 st 0 0"
    "total_issuance st = 150" "moved (bank 0) st 1 ((account 1 (bank 0))\<lparr>free := free (account 1 (bank 0)) - 95, reserved := reserved (account 1 (bank 0)) + 95\<rparr>)"
    using reserve_ok [OF bank_books [of 0], of 95 1] by auto
  have a: "account 1 st = default_data\<lparr>free := 5, reserved := 95\<rparr>" "account 2 st = default_data\<lparr>free := 50\<rparr>"
    using st(4) by (auto simp: moved_def)
  have "\<not> vital 1 st"
    using st(1) by (auto simp: reserve_def try_mutate_account_def try_mutate_exists_def mutate_closure_def is_providing_def
        stored_get_def account_info_def bank_def map_get_def reserve_closure_def checked_sub_def checked_add_def BAL_MAX_def
        ensure_can_withdraw_def account_def frozen_def post_mutation_def total_def saturating_add_def put_data_def
        map_mutate_def map_insert_def default_free vital_def split: if_splits)
  then show ?thesis
    using repatriate_exact [OF st(2), of 1 200 2 Status_Free] repatriate_exact [OF st(2), of 1 200 2 Status_Reserved] a st(1,3)
    by (auto simp: bal_def default_free)
qed

lemma replace_lock_mem: "\<exists>l \<in> set (replace_lock f (Some nl) i ls). l = nl \<or> (\<exists>o' \<in> set ls. lock_id o' = i \<and> l = f o' nl)"
  by (induction ls) auto

lemma locks_update_locks: "books ed st p n \<Longrightarrow> locks who (update_locks ed who ls st) = ls"
  by (simp add: locks_def map_get_def update_locks_ok)

lemma frozen_update_locks:
  assumes b: "books ed st p n" "ed \<le> bal (account who st)" and l: "l \<in> set ls" "reasons l \<noteq> Fee"
  shows "amount l \<le> misc_frozen (account who (update_locks ed who ls st))"
  using update_locks_ok [OF b(1), of who ls] b(2) l locked_ge [of l ls "\<lambda>r. r = All \<or> r = Misc"]
  by (cases "reasons l") (auto simp: apply_locks_exact)

text \<open>
  C21. A lock is enforced. After \<open>set_lock\<close> with a positive amount and reasons other than transaction fees
  alone, on an account that holds the existential deposit, no transfer, no reservation and no
  withdrawal for another reason than fees can leave less than the locked amount free.
\<close>

theorem lock_enforced:
  assumes b: "books ed st p n" "ed \<le> bal (account who st)" and v: "0 < v" "rs \<noteq> 0" "Reasons_from rs \<noteq> Fee"
    and st1: "st1 = set_lock ed i who v rs st" and x: "0 < x" "dest \<noteq> who" "Reasons_from ws \<noteq> Fee"
  shows "(snd (transfer ed who dest x er st1) = Inr () \<longrightarrow> x + v \<le> free (account who st1)) \<and>
    (snd (reserve ed who x st1) = Inr () \<longrightarrow> x + v \<le> free (account who st1)) \<and>
    (snd (withdraw ed who x ws er st1) = Inr (NegativeImbalance x) \<longrightarrow> x + v \<le> free (account who st1)) \<and>
    free (account who st1) = free (account who st)"
proof -
  let ?nl = "\<lparr>lock_id = i, amount = v, reasons = Reasons_from rs\<rparr>"
  have up: "st1 = update_locks ed who (replace_lock (\<lambda>_ nl. nl) (Some ?nl) i (locks who st)) st"
    using v by (simp add: st1 set_lock_def)
  have "?nl \<in> set (replace_lock (\<lambda>_ nl. nl) (Some ?nl) i (locks who st))"
    using replace_lock_mem [of "\<lambda>_ nl. nl" ?nl i "locks who st"] by auto
  then have f: "v \<le> misc_frozen (account who st1)"
    using frozen_update_locks [OF b, of ?nl] v(3) unfolding up by fastforce
  have b1: "books ed st1 p n" using books_set_lock [OF b(1)] st1 by simp
  have "free (account who st1) = free (account who st)"
    using update_locks_ok [OF b(1)] b(2) unfolding up by (auto simp: apply_locks_exact)
  moreover have "transferable ed who dest x er st1" if "snd (transfer ed who dest x er st1) = Inr ()"
    using transfer_err [OF b1 x(1), of who dest er] x(2) that by (cases "transferable ed who dest x er st1") auto
  moreover have "reservable who x st1" if "snd (reserve ed who x st1) = Inr ()"
    using reserve_err [OF b1 x(1), of who] that by (cases "reservable who x st1") auto
  moreover have "withdrawable ed who x ws er st1" if "snd (withdraw ed who x ws er st1) = Inr (NegativeImbalance x)"
    using withdraw_err [OF b1 x(1), of who ws er] that by (cases "withdrawable ed who x ws er st1") auto
  moreover have "v \<le> frozen (account who st1) (Reasons_from ws)"
    using f x(3) by (cases "Reasons_from ws") (auto simp: frozen_def)
  ultimately show ?thesis using f by (auto simp: transferable_def reservable_def withdrawable_def)
qed

theorem lock_enforced_witness:
  "snd (transfer 10 1 2 50 AllowDeath (set_lock 10 [1] 1 60 TRANSFER (bank 0))) \<noteq> Inr ()"
proof -
  have "TRANSFER \<noteq> 0" by (simp add: TRANSFER_def)
  then show ?thesis
    using lock_enforced [OF bank_books [of 0], of 1 60 TRANSFER _ "[1]" 50 2 TRANSFER AllowDeath, OF _ _ _ _ refl]
    by (auto simp: bal_def)
qed

lemma locked_mono:
  assumes "\<And>l. l \<in> set ls \<Longrightarrow> P (reasons l) \<Longrightarrow> \<exists>l' \<in> set ls'. P (reasons l') \<and> amount l \<le> amount l'"
  shows "locked P ls \<le> locked P ls'"
proof -
  have "amount l \<le> locked P ls'" if "l \<in> set ls" "P (reasons l)" for l
    using assms [OF that] locked_ge [of _ ls' P] by (meson order_trans)
  then show ?thesis by (auto simp: locked_def)
qed

lemma replace_none_mem: "l \<in> set ls \<Longrightarrow> lock_id l \<noteq> i \<Longrightarrow> l \<in> set (replace_lock f None i ls)"
  by (induction ls) auto

lemma extend_mem:
  assumes "distinct (map lock_id ls)" "l \<in> set ls"
  shows "\<exists>l' \<in> set (replace_lock (\<lambda>l nl. \<lparr>lock_id = lock_id l, amount = max (amount l) (amount nl),
      reasons = Reasons_bitor (reasons l) (reasons nl)\<rparr>) (Some nl) i ls).
    amount l \<le> amount l' \<and> (reasons l' = reasons l \<or> reasons l' = All)"
  using assms
proof (induction ls)
  case (Cons k ks)
  show ?case
  proof (cases "lock_id k = i \<and> l \<noteq> k")
    case True
    then have "lock_id l \<noteq> i" "l \<in> set ks" using Cons.prems by (auto simp: image_iff)
    then show ?thesis using True by (auto intro!: bexI [of _ l] replace_none_mem)
  qed (use Cons in \<open>auto simp: Reasons_bitor_def\<close>)
qed simp

text \<open>
  Extending a lock only tightens. If the frozen amounts of an account are those of its locks, which have
  different identifiers, then after \<open>extend_lock\<close> at least as much is frozen as before, for fees and for
  everything else, and at least the new amount is frozen for the new reasons.
\<close>

theorem extend_lock_tightens:
  assumes b: "books ed st p n" "ed \<le> bal (account who st)" and ids: "distinct (map lock_id (locks who st))"
    and ok: "account who st = apply_locks (locks who st) (account who st)" and v: "0 < v" "rs \<noteq> 0"
    and st1_def: "st1 = extend_lock ed i who v rs st"
  shows "(\<forall>r. frozen (account who st) r \<le> frozen (account who st1) r) \<and> v \<le> frozen (account who st1) (Reasons_from rs)"
proof -
  let ?nl = "\<lparr>lock_id = i, amount = v, reasons = Reasons_from rs\<rparr>"
  let ?f = "\<lambda>l nl. \<lparr>lock_id = lock_id l, amount = max (amount l) (amount nl), reasons = Reasons_bitor (reasons l) (reasons nl)\<rparr>"
  let ?ls = "replace_lock ?f (Some ?nl) i (locks who st)"
  have a1: "account who st1 = apply_locks ?ls (account who st)"
    using update_locks_ok [OF b(1), of who ?ls] b(2) v by (auto simp: st1_def extend_lock_def)
  have grow: "locked (\<lambda>r. r = All \<or> r = R) (locks who st) \<le> locked (\<lambda>r. r = All \<or> r = R) ?ls" for R
    using extend_mem [OF ids, of _ ?nl i] by (intro locked_mono) fastforce
  have m: "misc_frozen (account who st) = locked (\<lambda>r. r = All \<or> r = Misc) (locks who st)"
    "fee_frozen (account who st) = locked (\<lambda>r. r = All \<or> r = Fee) (locks who st)"
    using arg_cong [OF ok, of misc_frozen] arg_cong [OF ok, of fee_frozen] by (simp_all add: apply_locks_exact)
  have "frozen (account who st) r \<le> frozen (account who st1) r" for r
    using grow [of Misc] grow [of Fee] by (cases r) (auto simp: a1 apply_locks_exact frozen_def m intro: max.coboundedI1 max.coboundedI2)
  moreover obtain l where l: "l \<in> set ?ls" "v \<le> amount l" "reasons l = Reasons_from rs \<or> reasons l = All"
    using replace_lock_mem [of ?f ?nl i "locks who st"] by (auto simp: Reasons_bitor_def)
  then have "v \<le> locked (\<lambda>r. r = All \<or> r = R) ?ls" if "Reasons_from rs = R \<or> Reasons_from rs = All" for R
    using locked_ge [of l ?ls "\<lambda>r. r = All \<or> r = R"] that by auto
  then have "v \<le> frozen (account who st1) (Reasons_from rs)"
    by (cases "Reasons_from rs") (auto simp: a1 apply_locks_exact frozen_def le_max_iff_disj)
  ultimately show ?thesis by blast
qed

theorem extend_lock_tightens_witness:
  "60 \<le> frozen (account 1 (extend_lock 10 [1] 1 60 TRANSFER (bank 0))) Misc"
proof -
  have "TRANSFER \<noteq> 0" by (simp add: TRANSFER_def)
  moreover have "locks 1 (bank 0) = []" by (simp add: locks_def map_get_def)
  moreover have "apply_locks [] (default_data\<lparr>free := 100\<rparr>) = default_data\<lparr>free := 100\<rparr>"
    by (simp add: apply_locks_def default_data_def)
  ultimately show ?thesis
    using extend_lock_tightens [OF bank_books [of 0], of 1 60 TRANSFER _ "[1]", OF _ _ _ _ _ refl] by (simp add: bal_def)
qed

text \<open>
  Genesis succeeds exactly on distinct accounts with at least the existential deposit each, and then
  every listed account has its balance free, no other account exists, and the issuance is the sum of
  the balances, as long as that sum fits the balance type.
\<close>

theorem genesis_exact:
  assumes "account_map st = (\<lambda>_. None)" "sum_list (map snd bs) \<le> BAL_MAX"
  shows "if distinct (map fst bs) \<and> (\<forall>(k, b) \<in> set bs. ed \<le> b)
    then \<exists>st'. genesis_build ed bs st = Some st' \<and> books ed st' 0 0 \<and> total_issuance st' = sum_list (map snd bs) \<and>
      (\<forall>k. account k st' = (case map_of bs k of None \<Rightarrow> default_data | Some b \<Rightarrow> default_data\<lparr>free := b\<rparr>))
    else genesis_build ed bs st = None"
  using genesis_ok [OF assms, of ed] genesis_conditions [of ed bs st] by (cases "genesis_build ed bs st") auto

theorem genesis_exact_witness:
  "genesis_build 10 [(1, 100), (1, 50)] ((bank 0)\<lparr>account_map := (\<lambda>_. None)\<rparr>) = None \<and>
   (\<exists>st'. genesis_build 10 [(1, 100), (2, 50)] ((bank 0)\<lparr>account_map := (\<lambda>_. None)\<rparr>) = Some st' \<and> total_issuance st' = 150)"
  using genesis_exact [of "(bank 0)\<lparr>account_map := (\<lambda>_. None)\<rparr>" "[(1, 100), (1, 50)]" 10]
    genesis_exact [of "(bank 0)\<lparr>account_map := (\<lambda>_. None)\<rparr>" "[(1, 100), (2, 50)]" 10]
  by (auto simp: BAL_MAX_def)

text \<open>
  C22. Root's \<open>set_balance\<close> adds the two balances in the balance type without checking. When the sum wraps
  below the existential deposit, an account that may be removed is wiped out although both amounts
  were at most the largest balance and one of them was huge.
\<close>

theorem set_balance_wraps:
  assumes b: "books ed st p n" "p \<le> n" and who: "lookup src = Some who" "\<not> vital who st"
    and big: "2 ^ 128 \<le> f + r" "f + r < 2 ^ 128 + ed"
  shows "\<exists>st'. set_balance ed lookup Root src f r st = (st', Inr ()) \<and> account who st' = default_data"
proof -
  obtain x where x: "f + r = x + 2 ^ 128" "x < ed"
    using big(1,2) that [of "f + r - 2 ^ 128"] by linarith
  have "wrapping_add f r \<le> x"
    unfolding wrapping_add_def x(1) mod_add_self2 by (rule mod_less_eq_dividend)
  then have w: "wrapping_add f r < ed" using x(2) by (rule le_less_trans)
  let ?a = "(account who st)\<lparr>free := 0, reserved := 0\<rparr>"
  let ?f = "\<lambda>a _ st0. case set_balance_closure 0 0 a st0 of (st1, r) \<Rightarrow> (st1, Inr r)"
  have "held st + n + 0 + 0 \<le> BAL_MAX" using b by (simp add: books_def)
  then obtain st1 where st1: "set_balance_closure 0 0 (account who st) st = (st1, (?a, (0, 0)))"
    "account_map st1 = account_map st" "\<And>k. account k st1 = account k st"
    using set_balance_closure_books [OF b(1) issuance_covers [OF b, of who], of 0 0] by auto
  have f: "?f (account who st) (account who st = default_data) st = (st1, Inr (?a, (0, 0)))" using st1(1) by simp
  have "total ?a < ed" using w by (simp add: total_def saturating_add_def)
  moreover have "\<not> vital who st1" using who(2) st1(2) by (simp add: vital_def)
  ultimately obtain st2 where st2: "mutate_account ed no_drop who (set_balance_closure 0 0) st = (st2, Inr (0, 0))"
    "account who st2 = default_data"
    using tma_dust [where f = ?f and who = who and conv = "\<lambda>e. e" and drp = no_drop and ed = ed, OF f _ st1(3)]
    unfolding mutate_account_def by (auto simp: moved_def)
  then show ?thesis using who(1) w by (simp add: set_balance_def)
qed

theorem set_balance_wraps_witness:
  "\<exists>st'. set_balance 10 Some Root 2 (2 ^ 128 - 1) 5 (bank 0) = (st', Inr ()) \<and> account 2 st' = default_data"
  by (rule set_balance_wraps [OF bank_books [of 0]]) (simp_all add: vital_def bank_def BAL_MAX_def)

end
