(* ===== verification/BTreeMaps.thy ===== *)
theory BTreeMaps
  imports Prelude
begin

text \<open>
  The ordered map of Rust's standard library, as the sources use it: a list of entries in strictly
  increasing key order. \<open>map_of\<close> is the lookup.
\<close>

definition bt_ok :: "('k::linorder \<times> 'v) list \<Rightarrow> bool" where
  "bt_ok m \<longleftrightarrow> sorted_wrt (<) (map fst m)"

fun bt_insert :: "'k::linorder \<Rightarrow> 'v \<Rightarrow> ('k \<times> 'v) list \<Rightarrow> ('k \<times> 'v) list" where
  "bt_insert k v [] = [(k, v)]"
| "bt_insert k v ((k', v') # m) =
     (if k < k' then (k, v) # (k', v') # m
      else if k = k' then (k, v) # m
      else (k', v') # bt_insert k v m)"

definition bt_remove :: "'k \<Rightarrow> ('k \<times> 'v) list \<Rightarrow> ('k \<times> 'v) list" where
  "bt_remove k m = filter (\<lambda>(k', _). k' \<noteq> k) m"

text \<open>The first entry above a key: the head of the range that excludes it and is unbounded above.\<close>

definition bt_next :: "'k::linorder \<Rightarrow> ('k \<times> 'v) list \<Rightarrow> ('k \<times> 'v) option" where
  "bt_next k m = List.find (\<lambda>(k', _). k < k') m"

lemma bt_ok_Nil [simp]: "bt_ok []"
  by (simp add: bt_ok_def)

lemma bt_ok_Cons [simp]: "bt_ok ((k, v) # m) \<longleftrightarrow> (\<forall>(k', _) \<in> set m. k < k') \<and> bt_ok m"
  by (auto simp: bt_ok_def)

lemma bt_ok_distinct: "bt_ok m \<Longrightarrow> distinct (map fst m)"
  by (simp add: bt_ok_def strict_sorted_iff)

lemma map_of_bt_insert [simp]: "map_of (bt_insert k v m) = (map_of m)(k \<mapsto> v)"
  by (induction m) (auto simp: fun_eq_iff)

lemma set_bt_insert: "set (bt_insert k v m) \<subseteq> insert (k, v) (set m)"
  by (induction m) (auto split: if_splits)

lemma bt_ok_insert [simp]: "bt_ok m \<Longrightarrow> bt_ok (bt_insert k v m)"
proof (induction m)
  case (Cons x m)
  obtain k' v' where x: "x = (k', v')" by (cases x)
  show ?case
    using Cons set_bt_insert [of k v m] unfolding x by fastforce
qed simp

lemma map_of_bt_remove [simp]: "map_of (bt_remove k m) = (map_of m)(k := None)"
  by (induction m) (auto simp: bt_remove_def fun_eq_iff)

lemma bt_ok_remove [simp]: "bt_ok m \<Longrightarrow> bt_ok (bt_remove k m)"
  by (induction m) (auto simp: bt_remove_def)

lemma bt_next_Some:
  assumes "bt_ok m" "bt_next k m = Some (k', v)"
  shows "k < k' \<and> map_of m k' = Some v \<and> (\<forall>j. k < j \<and> j < k' \<longrightarrow> map_of m j = None)"
  using assms
proof (induction m)
  case (Cons x m)
  obtain k1 v1 where x: "x = (k1, v1)" by (cases x)
  show ?case
  proof (cases "k < k1")
    case True
    then have [simp]: "k1 = k'" "v1 = v" using Cons.prems by (auto simp: x bt_next_def)
    have "map_of m j = None" if "j < k'" for j
      using that Cons.prems by (auto simp: x map_of_eq_None_iff)
    then show ?thesis using True by (auto simp: x)
  next
    case False
    then have "k < k' \<and> map_of m k' = Some v \<and> (\<forall>j. k < j \<and> j < k' \<longrightarrow> map_of m j = None)"
      using Cons by (auto simp: x bt_next_def)
    then show ?thesis using False by (auto simp: x)
  qed
qed (simp add: bt_next_def)

lemma bt_next_None: "bt_next k m = None \<Longrightarrow> k < j \<Longrightarrow> map_of m j = None"
  by (auto simp: bt_next_def find_None_iff map_of_eq_None_iff)

end
