(* ===== verification/Changeset.thy ===== *)
theory Changeset
  imports BTreeMaps
begin

text \<open>
  The transactional overlay of \<^verbatim>\<open>primitives/state-machine/src/overlayed_changes/changeset.rs\<close>: for
  every key the versions written by the nested transactions, newest last, and for every open
  transaction the set of keys it wrote, innermost last. A set of keys is a list without repetitions in
  the order of insertion. \<open>Panic\<close> is a failed \<open>expect\<close> or \<open>assert\<close>.
\<close>

section \<open>Entries\<close>

datatype NoOpenTransaction = NoOpenTransaction
datatype AlreadyInRuntime = AlreadyInRuntime
datatype NotInRuntime = NotInRuntime
datatype ExecutionMode = Client | Runtime

type_synonym Extrinsics = "u32 list"

definition extrinsics_insert :: "u32 \<Rightarrow> Extrinsics \<Rightarrow> Extrinsics" where
  "extrinsics_insert ext xs = (if xs \<noteq> [] \<and> last xs = ext then xs else xs @ [ext])"

definition extrinsics_extend :: "Extrinsics \<Rightarrow> Extrinsics \<Rightarrow> Extrinsics" where
  "extrinsics_extend xs other = xs @ other"

record 'v InnerValue =
  ivalue :: 'v
  iextrinsics :: Extrinsics

type_synonym 'v OverlayedEntry = "'v InnerValue list"

definition value_ref :: "'v OverlayedEntry \<Rightarrow> 'v option" where
  "value_ref e = (if e = [] then None else Some (ivalue (last e)))"

definition entry_extrinsics :: "'v OverlayedEntry \<Rightarrow> u32 set" where
  "entry_extrinsics e = foldl (\<lambda>acc t. acc \<union> set (iextrinsics t)) {} e"

text \<open>A mutable reference to the newest version, used to apply \<open>f\<close> to it.\<close>

definition last_mut :: "('v InnerValue \<Rightarrow> 'v InnerValue) \<Rightarrow> 'v OverlayedEntry \<Rightarrow> 'v OverlayedEntry option" where
  "last_mut f e = (if e = [] then None else Some (butlast e @ [f (last e)]))"

definition pop_transaction :: "'v OverlayedEntry \<Rightarrow> ('v OverlayedEntry \<times> 'v InnerValue) option" where
  "pop_transaction e = (if e = [] then None else Some (butlast e, last e))"

definition entry_set :: "'v \<Rightarrow> bool \<Rightarrow> u32 option \<Rightarrow> 'v OverlayedEntry \<Rightarrow> 'v OverlayedEntry option" where
  "entry_set v first_write_in_tx at_extrinsic e =
     (case (if first_write_in_tx \<or> e = [] then Some (e @ [\<lparr>ivalue = v, iextrinsics = []\<rparr>])
            else last_mut (\<lambda>t. t\<lparr>ivalue := v\<rparr>) e) of
        None \<Rightarrow> None
      | Some e1 \<Rightarrow>
          (case at_extrinsic of
             Some ext \<Rightarrow> last_mut (\<lambda>t. t\<lparr>iextrinsics := extrinsics_insert ext (iextrinsics t)\<rparr>) e1
           | None \<Rightarrow> Some e1))"

section \<open>The overlay\<close>

record ('k, 'v) OverlayedMap =
  changes :: "('k \<times> 'v OverlayedEntry) list"
  dirty_keys :: "'k list list"
  num_client_transactions :: nat
  execution_mode :: ExecutionMode

definition default_map :: "('k, 'v) OverlayedMap" where
  "default_map = \<lparr>changes = [], dirty_keys = [], num_client_transactions = 0, execution_mode = Client\<rparr>"

definition set_insert :: "'k \<Rightarrow> 'k list \<Rightarrow> 'k list \<times> bool" where
  "set_insert k s = (if k \<in> set s then (s, False) else (s @ [k], True))"

definition insert_dirty :: "'k list list \<Rightarrow> 'k \<Rightarrow> 'k list list \<times> bool" where
  "insert_dirty ds k =
     (if ds = [] then (ds, False)
      else case set_insert k (last ds) of (d, r) \<Rightarrow> (butlast ds @ [d], r))"

definition transaction_depth :: "('k, 'v) OverlayedMap \<Rightarrow> nat" where
  "transaction_depth om = length (dirty_keys om)"

definition has_open_runtime_transactions :: "('k, 'v) OverlayedMap \<Rightarrow> bool" where
  "has_open_runtime_transactions om \<longleftrightarrow> transaction_depth om > num_client_transactions om"

definition spawn_child :: "('k, 'v) OverlayedMap \<Rightarrow> ('j, 'w) OverlayedMap" where
  "spawn_child om =
     \<lparr>changes = [], dirty_keys = replicate (transaction_depth om) [],
      num_client_transactions = num_client_transactions om, execution_mode = execution_mode om\<rparr>"

definition om_is_empty :: "('k, 'v) OverlayedMap \<Rightarrow> bool" where
  "om_is_empty om \<longleftrightarrow> changes om = []"

definition om_get :: "('k, 'v) OverlayedMap \<Rightarrow> 'k \<Rightarrow> 'v OverlayedEntry option" where
  "om_get om k = map_of (changes om) k"

definition or_default :: "'v OverlayedEntry option \<Rightarrow> 'v OverlayedEntry" where
  "or_default e = (case e of None \<Rightarrow> [] | Some e \<Rightarrow> e)"

definition om_set :: "'k::linorder \<Rightarrow> 'v \<Rightarrow> u32 option \<Rightarrow> ('k, 'v) OverlayedMap \<Rightarrow> (unit, ('k, 'v) OverlayedMap) result" where
  "om_set k v at_extrinsic om =
     (let overlayed = or_default (om_get om k);
          (ds, first) = insert_dirty (dirty_keys om) k
      in case entry_set v first at_extrinsic overlayed of
           None \<Rightarrow> Panic
         | Some e \<Rightarrow> Ok (om\<lparr>changes := bt_insert k e (changes om), dirty_keys := ds\<rparr>))"

definition drain_commited :: "('k, 'v) OverlayedMap \<Rightarrow> (unit, ('k \<times> 'v) list) result" where
  "drain_commited om =
     (if transaction_depth om \<noteq> 0 then Panic
      else if list_ex (\<lambda>(k, e). pop_transaction e = None) (changes om) then Panic
      else Ok (map (\<lambda>(k, e). (k, ivalue (last e))) (changes om)))"

definition enter_runtime :: "('k, 'v) OverlayedMap \<Rightarrow> (AlreadyInRuntime, ('k, 'v) OverlayedMap) result" where
  "enter_runtime om =
     (case execution_mode om of
        Runtime \<Rightarrow> Err AlreadyInRuntime
      | Client \<Rightarrow> Ok (om\<lparr>execution_mode := Runtime, num_client_transactions := transaction_depth om\<rparr>))"

definition start_transaction :: "('k, 'v) OverlayedMap \<Rightarrow> ('k, 'v) OverlayedMap" where
  "start_transaction om = om\<lparr>dirty_keys := dirty_keys om @ [[]]\<rparr>"

text \<open>One turn of the loop that closes a transaction, for a key it wrote.\<close>

definition close_key ::
    "bool \<Rightarrow> 'k::linorder \<Rightarrow> ('k \<times> 'v OverlayedEntry) list \<times> 'k list list \<Rightarrow>
     (unit, ('k \<times> 'v OverlayedEntry) list \<times> 'k list list) result" where
  "close_key rollback key s =
     (case s of (chg, ds) \<Rightarrow>
        (case map_of chg key of
           None \<Rightarrow> Panic
         | Some overlayed \<Rightarrow>
             if rollback then
               (case pop_transaction overlayed of
                  None \<Rightarrow> Panic
                | Some (e, _) \<Rightarrow> Ok (if e = [] then bt_remove key chg else bt_insert key e chg, ds))
             else
               (let (ds', has_predecessor) =
                      (if ds \<noteq> [] then (case insert_dirty ds key of (ds', r) \<Rightarrow> (ds', \<not> r))
                       else (ds, length overlayed > 1))
                in if has_predecessor then
                     (case pop_transaction overlayed of
                        None \<Rightarrow> Panic
                      | Some (e, dropped_tx) \<Rightarrow>
                          (case last_mut (\<lambda>t. t\<lparr>ivalue := ivalue dropped_tx,
                                   iextrinsics := extrinsics_extend (iextrinsics t) (iextrinsics dropped_tx)\<rparr>) e of
                             None \<Rightarrow> Panic
                           | Some e' \<Rightarrow> Ok (bt_insert key e' chg, ds')))
                   else Ok (chg, ds'))))"

fun close_keys ::
    "bool \<Rightarrow> 'k::linorder list \<Rightarrow> ('k \<times> 'v OverlayedEntry) list \<times> 'k list list \<Rightarrow>
     (unit, ('k \<times> 'v OverlayedEntry) list \<times> 'k list list) result" where
  "close_keys rollback [] s = Ok s"
| "close_keys rollback (k # ks) s = and_then (close_key rollback k s) (close_keys rollback ks)"

definition close_transaction ::
    "bool \<Rightarrow> ('k::linorder, 'v) OverlayedMap \<Rightarrow> (NoOpenTransaction, ('k, 'v) OverlayedMap) result" where
  "close_transaction rollback om =
     (if execution_mode om = Runtime \<and> \<not> has_open_runtime_transactions om then Err NoOpenTransaction
      else if dirty_keys om = [] then Err NoOpenTransaction
      else case close_keys rollback (last (dirty_keys om)) (changes om, butlast (dirty_keys om)) of
             Ok (chg, ds) \<Rightarrow> Ok (om\<lparr>changes := chg, dirty_keys := ds\<rparr>)
           | _ \<Rightarrow> Panic)"

definition rollback_transaction :: "('k::linorder, 'v) OverlayedMap \<Rightarrow> (NoOpenTransaction, ('k, 'v) OverlayedMap) result" where
  "rollback_transaction om = close_transaction True om"

definition commit_transaction :: "('k::linorder, 'v) OverlayedMap \<Rightarrow> (NoOpenTransaction, ('k, 'v) OverlayedMap) result" where
  "commit_transaction om = close_transaction False om"

lemma close_keys_rollback_depth: "close_keys True ks (chg, ds) = Ok (chg', ds') \<Longrightarrow> ds' = ds"
proof (induction ks arbitrary: chg)
  case (Cons k ks)
  then obtain s where s: "close_key True k (chg, ds) = Ok s" "close_keys True ks s = Ok (chg', ds')"
    by (auto simp: and_then_Ok_iff)
  then have "snd s = ds" by (auto simp: close_key_def split: option.splits)
  then show ?case using s Cons.IH by (cases s) auto
qed simp

lemma rollback_depth:
  assumes "rollback_transaction om = Ok om'"
  shows "length (dirty_keys om') < length (dirty_keys om)" "num_client_transactions om' = num_client_transactions om"
  using assms close_keys_rollback_depth
  by (fastforce simp: rollback_transaction_def close_transaction_def split: if_splits result.splits)+

text \<open>The loop of \<open>exit_runtime\<close>: every turn closes a transaction.\<close>

function rollback_open :: "('k::linorder, 'v) OverlayedMap \<Rightarrow> (unit, ('k, 'v) OverlayedMap) result" where
  "rollback_open om =
     (if has_open_runtime_transactions om then
        (case rollback_transaction om of
           Ok om' \<Rightarrow> rollback_open om'
         | _ \<Rightarrow> Panic)
      else Ok om)"
  by pat_completeness auto
termination
  by (relation "measure (\<lambda>om. length (dirty_keys om))") (auto dest: rollback_depth)

declare rollback_open.simps [simp del]

definition exit_runtime :: "('k::linorder, 'v) OverlayedMap \<Rightarrow> (NotInRuntime, ('k, 'v) OverlayedMap) result" where
  "exit_runtime om =
     (case execution_mode om of
        Client \<Rightarrow> Err NotInRuntime
      | Runtime \<Rightarrow>
          (case rollback_open (om\<lparr>execution_mode := Client\<rparr>) of
             Ok om' \<Rightarrow> Ok om'
           | _ \<Rightarrow> Panic))"

section \<open>Change sets with removal\<close>

text \<open>
  \<open>modify\<close> hands out a mutable reference to the newest version; \<open>g\<close> is what the caller does with it.
\<close>

definition om_modify ::
    "'k::linorder \<Rightarrow> 'w \<Rightarrow> u32 option \<Rightarrow> ('w option \<Rightarrow> 'w option) \<Rightarrow> ('k, 'w option) OverlayedMap \<Rightarrow>
     (unit, ('k, 'w option) OverlayedMap) result" where
  "om_modify k init at_extrinsic g om =
     (let overlayed = or_default (om_get om k);
          (ds, first_write_in_tx) = insert_dirty (dirty_keys om) k;
          clone_into_new_tx =
            (if overlayed \<noteq> [] then (if first_write_in_tx then Some (ivalue (last overlayed)) else None)
             else Some (Some init));
          written = (case clone_into_new_tx of
                       Some cloned \<Rightarrow> entry_set cloned first_write_in_tx at_extrinsic overlayed
                     | None \<Rightarrow> Some overlayed)
      in case written of
           None \<Rightarrow> Panic
         | Some e \<Rightarrow>
             (case last_mut (\<lambda>t. t\<lparr>ivalue := g (ivalue t)\<rparr>) e of
                None \<Rightarrow> Panic
              | Some e' \<Rightarrow> Ok (om\<lparr>changes := bt_insert k e' (changes om), dirty_keys := ds\<rparr>)))"

fun clear_keys ::
    "u32 option \<Rightarrow> ('k::linorder \<times> 'w option OverlayedEntry) list \<Rightarrow> ('k, 'w option) OverlayedMap \<Rightarrow>
     (unit, ('k, 'w option) OverlayedMap) result" where
  "clear_keys at_extrinsic [] om = Ok om"
| "clear_keys at_extrinsic ((k, val) # kvs) om =
     (let (ds, first) = insert_dirty (dirty_keys om) k
      in case entry_set None first at_extrinsic val of
           None \<Rightarrow> Panic
         | Some e \<Rightarrow> clear_keys at_extrinsic kvs (om\<lparr>changes := bt_insert k e (changes om), dirty_keys := ds\<rparr>))"

definition clear_where ::
    "('k::linorder \<Rightarrow> 'w option OverlayedEntry \<Rightarrow> bool) \<Rightarrow> u32 option \<Rightarrow> ('k, 'w option) OverlayedMap \<Rightarrow>
     (unit, ('k, 'w option) OverlayedMap) result" where
  "clear_where P at_extrinsic om = clear_keys at_extrinsic (filter (\<lambda>(k, v). P k v) (changes om)) om"

definition next_change :: "'k::linorder \<Rightarrow> ('k, 'v) OverlayedMap \<Rightarrow> ('k \<times> 'v OverlayedEntry) option" where
  "next_change k om = bt_next k (changes om)"

end
