(* ===== verification/ChangesetRefinement.thy ===== *)
theory ChangesetRefinement
  imports Changeset
begin

text \<open>
  The overlay implements a stack of maps: one map for the committed changes and one for each open
  transaction, the current one on top. Starting a transaction copies the top, rolling back drops it,
  committing drops the map below it, and writing updates it. A map sends a key to the value and the set
  of extrinsics that changed it.
\<close>

section \<open>The specification\<close>

type_synonym ('k, 'v) view = "'k \<Rightarrow> ('v \<times> u32 set) option"

definition view_exts :: "('k, 'v) view \<Rightarrow> 'k \<Rightarrow> u32 set" where
  "view_exts m k = (case m k of None \<Rightarrow> {} | Some (_, S) \<Rightarrow> S)"

fun sp_set :: "'k \<Rightarrow> 'v \<Rightarrow> u32 option \<Rightarrow> ('k, 'v) view list \<Rightarrow> ('k, 'v) view list" where
  "sp_set k v at (m # ms) = m(k \<mapsto> (v, view_exts m k \<union> set_option at)) # ms"
| "sp_set k v at [] = []"

fun sp_start :: "'m list \<Rightarrow> 'm list" where
  "sp_start (m # ms) = m # m # ms"
| "sp_start [] = []"

fun sp_rollback :: "'m list \<Rightarrow> 'm list" where
  "sp_rollback (m # ms) = ms"
| "sp_rollback [] = []"

fun sp_commit :: "'m list \<Rightarrow> 'm list" where
  "sp_commit (m # m' # ms) = m # ms"
| "sp_commit ms = ms"

section \<open>The abstraction\<close>

text \<open>The versions of every key, newest first; no versions for a key that is not in the overlay.\<close>

definition vers_of :: "('k \<times> 'v OverlayedEntry) list \<Rightarrow> 'k \<Rightarrow> 'v InnerValue list" where
  "vers_of chg k = rev (or_default (map_of chg k))"

definition exts :: "'v InnerValue list \<Rightarrow> u32 set" where
  "exts c = (\<Union>t \<in> set c. set (iextrinsics t))"

definition see :: "('k \<Rightarrow> 'v InnerValue list) \<Rightarrow> ('k, 'v) view" where
  "see c k = (if c k = [] then None else Some (ivalue (hd (c k)), exts (c k)))"

definition pop_keys :: "'k set \<Rightarrow> ('k \<Rightarrow> 'a list) \<Rightarrow> 'k \<Rightarrow> 'a list" where
  "pop_keys d c k = (if k \<in> d then tl (c k) else c k)"

fun stack :: "('k \<Rightarrow> 'v InnerValue list) \<Rightarrow> 'k list list \<Rightarrow> ('k, 'v) view list" where
  "stack c [] = [see c]"
| "stack c (d # ds) = see c # stack (pop_keys (set d) c) ds"

fun wf_stack :: "('k \<Rightarrow> 'a list) \<Rightarrow> 'k list list \<Rightarrow> bool" where
  "wf_stack c [] \<longleftrightarrow> (\<forall>k. length (c k) \<le> 1)"
| "wf_stack c (d # ds) \<longleftrightarrow> distinct d \<and> (\<forall>k \<in> set d. c k \<noteq> []) \<and> wf_stack (pop_keys (set d) c) ds"

definition abs_om :: "('k, 'v) OverlayedMap \<Rightarrow> ('k, 'v) view list" where
  "abs_om om = stack (vers_of (changes om)) (rev (dirty_keys om))"

definition chg_ok :: "('k::linorder \<times> 'v OverlayedEntry) list \<Rightarrow> bool" where
  "chg_ok chg \<longleftrightarrow> bt_ok chg \<and> (\<forall>k. map_of chg k \<noteq> Some [])"

definition om_ok :: "('k::linorder, 'v) OverlayedMap \<Rightarrow> bool" where
  "om_ok om \<longleftrightarrow> chg_ok (changes om) \<and> wf_stack (vers_of (changes om)) (rev (dirty_keys om)) \<and>
     (execution_mode om = Runtime \<longrightarrow> num_client_transactions om \<le> transaction_depth om)"

lemma stack_not_Nil [simp]: "stack c ds \<noteq> []"
  by (cases ds) auto

lemma pop_keys_empty [simp]: "pop_keys {} c = c"
  by (simp add: pop_keys_def fun_eq_iff)

lemma hd_stack: "hd (stack c ds) = see c"
  by (cases ds) auto

lemma length_stack [simp]: "length (stack c ds) = Suc (length ds)"
  by (induction c ds rule: stack.induct) auto

lemma exts_simps [simp]: "exts [] = {}" "exts (x # c) = set (iextrinsics x) \<union> exts c"
  by (auto simp: exts_def)

lemma view_exts_see [simp]: "view_exts (see c) k = exts (c k)"
  by (auto simp: view_exts_def see_def)

lemma vers_of_insert [simp]: "vers_of (bt_insert k e chg) = (vers_of chg)(k := rev e)"
  by (auto simp: vers_of_def or_default_def fun_eq_iff)

lemma vers_of_remove [simp]: "vers_of (bt_remove k chg) = (vers_of chg)(k := [])"
  by (auto simp: vers_of_def or_default_def fun_eq_iff)

lemma vers_of_Nil [simp]: "vers_of [] = (\<lambda>_. [])"
  by (simp add: vers_of_def or_default_def fun_eq_iff)

lemma chg_ok_insert: "chg_ok chg \<Longrightarrow> e \<noteq> [] \<Longrightarrow> chg_ok (bt_insert k e chg)"
  by (simp add: chg_ok_def)

lemma chg_ok_remove: "chg_ok chg \<Longrightarrow> chg_ok (bt_remove k chg)"
  by (simp add: chg_ok_def)

lemma vers_of_entry: "vers_of chg k \<noteq> [] \<Longrightarrow> map_of chg k = Some (rev (vers_of chg k))"
  by (auto simp: vers_of_def or_default_def split: option.splits)

section \<open>Writing\<close>

lemma set_extrinsics_insert [simp]: "set (extrinsics_insert e xs) = insert e (set xs)"
  by (auto simp: extrinsics_insert_def)

lemma entry_set_rev:
  "\<exists>x e'. entry_set v first at e = Some e' \<and> rev e' = x # (if first \<or> e = [] then rev e else tl (rev e)) \<and>
     ivalue x = v \<and> exts (rev e') = exts (rev e) \<union> set_option at"
proof (cases "first \<or> e = []")
  case True
  then show ?thesis by (cases at) (auto simp: entry_set_def last_mut_def)
next
  case False
  then obtain es x where e: "e = es @ [x]" by (metis rev_exhaust)
  show ?thesis using False by (cases at) (auto simp: e entry_set_def last_mut_def)
qed

lemma insert_dirty_rev:
  assumes "rev ds = d # rest"
  shows "insert_dirty ds k = (rev ((if k \<in> set d then d else d @ [k]) # rest), k \<notin> set d)"
proof -
  have "ds = rev rest @ [d]" using assms by (metis rev_rev_ident rev.simps(2))
  then show ?thesis by (simp add: insert_dirty_def set_insert_def)
qed

lemma see_upd [simp]: "see (c(k := x # l)) = (see c)(k \<mapsto> (ivalue x, exts (x # l)))"
  by (auto simp: see_def fun_eq_iff)

text \<open>
  A new newest version of \<open>k\<close>: pushed if the current transaction has not written the key yet, replaced
  otherwise. The transactions below see what they saw.
\<close>

lemma stack_write:
  assumes wf: "wf_stack c ds" and x: "ivalue x = v" "exts c' = exts (c k) \<union> set_option at"
    and c': "c' = x # (if (ds = [] \<or> k \<in> set (hd ds)) \<and> c k \<noteq> [] then tl (c k) else c k)"
    and ds': "ds' = (case ds of [] \<Rightarrow> [] | d # rest \<Rightarrow> (if k \<in> set d then d else d @ [k]) # rest)"
  shows "wf_stack (c(k := c')) ds' \<and> stack (c(k := c')) ds' = sp_set k v at (stack c ds)"
proof (cases ds)
  case Nil
  then show ?thesis
    using wf x c' ds' by (auto simp: see_def fun_eq_iff le_Suc_eq length_Suc_conv)
next
  case (Cons d rest)
  have "pop_keys (set (if k \<in> set d then d else d @ [k])) (c(k := c')) = pop_keys (set d) c"
    using c' wf Cons by (auto simp: pop_keys_def fun_eq_iff)
  then show ?thesis
    using wf x c' ds' Cons by (cases "k \<in> set d") auto
qed

lemma rev_dirty: "insert_dirty ds k = (ds', first) \<Longrightarrow>
    rev ds' = (case rev ds of [] \<Rightarrow> [] | d # rest \<Rightarrow> (if k \<in> set d then d else d @ [k]) # rest) \<and>
    first = (ds \<noteq> [] \<and> k \<notin> set (hd (rev ds)))"
proof (cases "rev ds")
  case Nil
  moreover assume "insert_dirty ds k = (ds', first)"
  ultimately show ?thesis by (auto simp: insert_dirty_def)
next
  case (Cons d rest)
  moreover assume "insert_dirty ds k = (ds', first)"
  ultimately show ?thesis using insert_dirty_rev [OF Cons, of k] by auto
qed

lemma om_set_ok:
  assumes ok: "om_ok om"
  shows "\<exists>om'. om_set k v at om = Ok om' \<and> om_ok om' \<and> abs_om om' = sp_set k v at (abs_om om) \<and>
    transaction_depth om' = transaction_depth om \<and> execution_mode om' = execution_mode om \<and>
    num_client_transactions om' = num_client_transactions om"
proof -
  let ?c = "vers_of (changes om)" and ?e = "or_default (om_get om k)"
  obtain ds' first where ds: "insert_dirty (dirty_keys om) k = (ds', first)" by fastforce
  obtain x e' where e': "entry_set v first at ?e = Some e'" "ivalue x = v" "exts (rev e') = exts (rev ?e) \<union> set_option at"
    "rev e' = x # (if first \<or> ?e = [] then rev ?e else tl (rev ?e))"
    using entry_set_rev [of v first at ?e] by blast
  have e: "rev ?e = ?c k" "?e = [] \<longleftrightarrow> ?c k = []" by (auto simp: vers_of_def om_get_def)
  have wf: "wf_stack ?c (rev (dirty_keys om))" using ok by (simp add: om_ok_def)
  have f: "rev e' = x # (if (rev (dirty_keys om) = [] \<or> k \<in> set (hd (rev (dirty_keys om)))) \<and> ?c k \<noteq> [] then tl (?c k) else ?c k)"
    using e'(4) rev_dirty [OF ds] unfolding e by auto
  have "wf_stack (?c(k := rev e')) (rev ds') \<and> stack (?c(k := rev e')) (rev ds') = sp_set k v at (stack ?c (rev (dirty_keys om)))"
    using stack_write [OF wf e'(2) _ f] e'(3) rev_dirty [OF ds] unfolding e by auto
  moreover have "length ds' = length (dirty_keys om)"
    using rev_dirty [OF ds] by (metis (no_types, lifting) length_rev length_Cons list.exhaust list.simps(4) list.simps(5))
  moreover have "e' \<noteq> []" using f by auto
  ultimately show ?thesis
    using ok ds e'(1) by (auto simp: om_set_def om_ok_def abs_om_def transaction_depth_def chg_ok_insert)
qed

section \<open>Closing a transaction\<close>

lemma start_ok:
  assumes "om_ok om"
  shows "om_ok (start_transaction om) \<and> abs_om (start_transaction om) = sp_start (abs_om om)"
  using assms by (cases "rev (dirty_keys om)")
    (auto simp: om_ok_def abs_om_def start_transaction_def transaction_depth_def)

lemma close_key_rollback:
  assumes "chg_ok chg" "vers_of chg k \<noteq> []"
  shows "\<exists>chg'. close_key True k (chg, ds) = Ok (chg', ds) \<and> chg_ok chg' \<and>
    vers_of chg' = (vers_of chg)(k := tl (vers_of chg k))"
proof -
  obtain x l where v: "vers_of chg k = x # l" using assms(2) by (cases "vers_of chg k") auto
  then have "map_of chg k = Some (rev l @ [x])" using vers_of_entry [OF assms(2)] by simp
  then show ?thesis
    using assms(1) v
    by (auto simp: close_key_def pop_transaction_def chg_ok_insert chg_ok_remove)
qed

lemma close_keys_rollback:
  assumes "chg_ok chg" "distinct ks" "\<forall>k \<in> set ks. vers_of chg k \<noteq> []"
  shows "\<exists>chg'. close_keys True ks (chg, ds) = Ok (chg', ds) \<and> chg_ok chg' \<and>
    vers_of chg' = pop_keys (set ks) (vers_of chg)"
  using assms
proof (induction ks arbitrary: chg)
  case Nil
  then show ?case by (simp add: pop_keys_def fun_eq_iff)
next
  case (Cons k ks)
  obtain c1 where c1: "close_key True k (chg, ds) = Ok (c1, ds)" "chg_ok c1"
    "vers_of c1 = (vers_of chg)(k := tl (vers_of chg k))"
    using close_key_rollback [of chg k ds] Cons.prems by auto
  moreover have "\<forall>j \<in> set ks. vers_of c1 j \<noteq> []" using Cons.prems c1(3) by auto
  ultimately obtain c2 where "close_keys True ks (c1, ds) = Ok (c2, ds)" "chg_ok c2"
    "vers_of c2 = pop_keys (set ks) (vers_of c1)"
    using Cons.IH [of c1] Cons.prems(2) by (metis distinct.simps(2))
  moreover from this have "vers_of c2 = pop_keys (set (k # ks)) (vers_of chg)"
    using c1(3) Cons.prems by (auto simp: pop_keys_def fun_eq_iff)
  ultimately show ?case using c1(1) by simp
qed

text \<open>Committing merges the newest two versions where the transaction below wrote the key as well.\<close>

fun merge_top :: "'v InnerValue list \<Rightarrow> 'v InnerValue list" where
  "merge_top (x # y # l) = y\<lparr>ivalue := ivalue x, iextrinsics := extrinsics_extend (iextrinsics y) (iextrinsics x)\<rparr> # l"
| "merge_top l = l"

definition has_pred :: "'k list list \<Rightarrow> ('k \<Rightarrow> 'a list) \<Rightarrow> 'k \<Rightarrow> bool" where
  "has_pred ds c k \<longleftrightarrow> (if ds = [] then length (c k) > 1 else k \<in> set (last ds))"

lemma close_key_commit:
  assumes "chg_ok chg" "vers_of chg k \<noteq> []" "has_pred ds (vers_of chg) k \<Longrightarrow> 1 < length (vers_of chg k)"
  shows "\<exists>chg'. close_key False k (chg, ds) = Ok (chg', fst (insert_dirty ds k)) \<and> chg_ok chg' \<and>
    vers_of chg' = (vers_of chg)(k := if has_pred ds (vers_of chg) k then merge_top (vers_of chg k) else vers_of chg k)"
proof -
  have e: "map_of chg k = Some (rev (vers_of chg k))" using vers_of_entry [OF assms(2)] .
  obtain ds' r where r: "insert_dirty ds k = (ds', r)" "ds \<noteq> [] \<Longrightarrow> r = (k \<notin> set (last ds))" "ds = [] \<Longrightarrow> ds' = []"
    by (metis hd_rev insert_dirty_def old.prod.exhaust prod.inject rev_dirty)
  show ?thesis
  proof (cases "has_pred ds (vers_of chg) k")
    case True
    then obtain x y l where v: "vers_of chg k = x # y # l"
      using assms(3) by (cases "vers_of chg k" rule: merge_top.cases) auto
    show ?thesis
      using True e r assms(1) by (auto simp: close_key_def v pop_transaction_def last_mut_def has_pred_def chg_ok_insert butlast_append)
  next
    case False
    then have "vers_of chg = (vers_of chg)(k := vers_of chg k)" by simp
    then show ?thesis using False e r assms(1) by (auto simp: close_key_def has_pred_def)
  qed
qed

lemma insert_dirty_last:
  "ds \<noteq> [] \<Longrightarrow> fst (insert_dirty ds k) \<noteq> [] \<and> butlast (fst (insert_dirty ds k)) = butlast ds \<and>
     set (last (fst (insert_dirty ds k))) = insert k (set (last ds)) \<and>
     (distinct (last ds) \<longrightarrow> distinct (last (fst (insert_dirty ds k))))"
  by (auto simp: insert_dirty_def set_insert_def)

lemma close_keys_commit:
  assumes "chg_ok chg" "distinct ks" "\<forall>k \<in> set ks. vers_of chg k \<noteq> [] \<and> (has_pred ds (vers_of chg) k \<longrightarrow> 1 < length (vers_of chg k))"
  shows "\<exists>chg' ds'. close_keys False ks (chg, ds) = Ok (chg', ds') \<and> chg_ok chg' \<and>
    vers_of chg' = (\<lambda>k. if k \<in> set ks \<and> has_pred ds (vers_of chg) k then merge_top (vers_of chg k) else vers_of chg k) \<and>
    (ds = [] \<longrightarrow> ds' = []) \<and>
    (ds \<noteq> [] \<longrightarrow> ds' \<noteq> [] \<and> butlast ds' = butlast ds \<and> set (last ds') = set (last ds) \<union> set ks \<and>
       (distinct (last ds) \<longrightarrow> distinct (last ds')))"
  using assms
proof (induction ks arbitrary: chg ds)
  case Nil
  then show ?case by simp
next
  case (Cons k ks)
  let ?c = "vers_of chg" and ?ds = "fst (insert_dirty ds k)"
  obtain c1 where c1: "close_key False k (chg, ds) = Ok (c1, ?ds)" "chg_ok c1"
    "vers_of c1 = ?c(k := if has_pred ds ?c k then merge_top (?c k) else ?c k)"
    using close_key_commit [of chg k ds] Cons.prems by auto
  have nil: "ds = [] \<Longrightarrow> ?ds = []" by (simp add: insert_dirty_def)
  have hp: "has_pred ?ds (vers_of c1) j = has_pred ds ?c j" "vers_of c1 j = ?c j" if "j \<in> set ks" for j
    using that Cons.prems(2) c1(3) nil insert_dirty_last [of ds k] by (auto simp: has_pred_def)
  obtain c2 ds2 where c2: "close_keys False ks (c1, ?ds) = Ok (c2, ds2)" "chg_ok c2"
    "vers_of c2 = (\<lambda>k. if k \<in> set ks \<and> has_pred ?ds (vers_of c1) k then merge_top (vers_of c1 k) else vers_of c1 k)"
    "?ds = [] \<longrightarrow> ds2 = []"
    "?ds \<noteq> [] \<longrightarrow> ds2 \<noteq> [] \<and> butlast ds2 = butlast ?ds \<and> set (last ds2) = set (last ?ds) \<union> set ks \<and> (distinct (last ?ds) \<longrightarrow> distinct (last ds2))"
    using Cons.IH [OF c1(2), of ?ds] Cons.prems hp by fastforce
  have "vers_of c2 = (\<lambda>j. if j \<in> set (k # ks) \<and> has_pred ds ?c j then merge_top (?c j) else ?c j)"
  proof
    fix j
    show "vers_of c2 j = (if j \<in> set (k # ks) \<and> has_pred ds ?c j then merge_top (?c j) else ?c j)"
      using hp [of j] Cons.prems(2) fun_cong [OF c1(3), of j] unfolding c2(3) by (cases "j \<in> set ks") auto
  qed
  then show ?case
    using c1(1) c2 nil insert_dirty_last [of ds k] by (cases "ds = []") auto
qed

lemma see_merge: "see (\<lambda>k. if P k then merge_top (c k) else c k) = see c"
proof
  fix k
  show "see (\<lambda>k. if P k then merge_top (c k) else c k) k = see c k"
    by (cases "c k" rule: merge_top.cases) (auto simp: see_def extrinsics_extend_def)
qed

definition closable :: "('k, 'v) OverlayedMap \<Rightarrow> bool" where
  "closable om \<longleftrightarrow> dirty_keys om \<noteq> [] \<and> (execution_mode om = Runtime \<longrightarrow> has_open_runtime_transactions om)"

lemma close_not_closable: "\<not> closable om \<Longrightarrow> close_transaction rb om = Err NoOpenTransaction"
  by (auto simp: closable_def close_transaction_def)

lemma dirty_split:
  assumes "dirty_keys om \<noteq> []"
  obtains d rest where "rev (dirty_keys om) = d # rest" "last (dirty_keys om) = d" "butlast (dirty_keys om) = rev rest"
  using assms by (metis butlast_rev hd_rev last_rev list.exhaust_sel rev_is_Nil_conv rev_rev_ident)

lemma rollback_ok:
  assumes ok: "om_ok om" "closable om"
  shows "\<exists>om'. rollback_transaction om = Ok om' \<and> om_ok om' \<and> abs_om om' = sp_rollback (abs_om om) \<and>
    dirty_keys om' = butlast (dirty_keys om) \<and> execution_mode om' = execution_mode om \<and>
    num_client_transactions om' = num_client_transactions om"
proof -
  obtain d rest where d: "rev (dirty_keys om) = d # rest" "last (dirty_keys om) = d" "butlast (dirty_keys om) = rev rest"
    using dirty_split ok(2) unfolding closable_def by blast
  have wf: "distinct d" "\<forall>k \<in> set d. vers_of (changes om) k \<noteq> []" "chg_ok (changes om)"
    "wf_stack (pop_keys (set d) (vers_of (changes om))) rest"
    using ok(1) d by (auto simp: om_ok_def)
  obtain chg where chg: "close_keys True d (changes om, rev rest) = Ok (chg, rev rest)" "chg_ok chg"
    "vers_of chg = pop_keys (set d) (vers_of (changes om))"
    using close_keys_rollback [OF wf(3,1,2)] by blast
  have "length (dirty_keys om) = Suc (length rest)" using d(1) by (metis length_Cons length_rev)
  then show ?thesis
    using chg ok d wf
    by (auto simp: rollback_transaction_def close_transaction_def closable_def om_ok_def abs_om_def
        transaction_depth_def has_open_runtime_transactions_def)
qed

lemma commit_ok:
  assumes ok: "om_ok om" "closable om"
  shows "\<exists>om'. commit_transaction om = Ok om' \<and> om_ok om' \<and> abs_om om' = sp_commit (abs_om om) \<and>
    transaction_depth om' = transaction_depth om - 1 \<and> execution_mode om' = execution_mode om \<and>
    num_client_transactions om' = num_client_transactions om"
proof -
  let ?c = "vers_of (changes om)"
  obtain d rest where d: "rev (dirty_keys om) = d # rest" "last (dirty_keys om) = d" "butlast (dirty_keys om) = rev rest"
    using dirty_split ok(2) unfolding closable_def by blast
  have wf: "distinct d" "\<forall>k \<in> set d. ?c k \<noteq> []" "chg_ok (changes om)" "wf_stack (pop_keys (set d) ?c) rest"
    using ok(1) d by (auto simp: om_ok_def)
  have two: "1 < length (?c k)" if "k \<in> set d" "has_pred (rev rest) ?c k" for k
  proof (cases rest)
    case (Cons e rest')
    then have "pop_keys (set d) ?c k \<noteq> []" using that wf(4) by (auto simp: has_pred_def)
    then show ?thesis using that(1) by (cases "?c k") (auto simp: pop_keys_def)
  qed (use that in \<open>simp add: has_pred_def\<close>)
  have keys: "\<forall>k \<in> set d. ?c k \<noteq> [] \<and> (has_pred (rev rest) ?c k \<longrightarrow> 1 < length (?c k))" using wf(2) two by blast
  from close_keys_commit [OF wf(3,1) keys] obtain chg ds where
    all: "close_keys False d (changes om, rev rest) = Ok (chg, ds) \<and> chg_ok chg \<and>
      vers_of chg = (\<lambda>k. if k \<in> set d \<and> has_pred (rev rest) ?c k then merge_top (?c k) else ?c k) \<and>
      (rev rest = [] \<longrightarrow> ds = []) \<and>
      (rev rest \<noteq> [] \<longrightarrow> ds \<noteq> [] \<and> butlast ds = butlast (rev rest) \<and> set (last ds) = set (last (rev rest)) \<union> set d \<and>
         (distinct (last (rev rest)) \<longrightarrow> distinct (last ds)))"
    by (elim exE)
  then have chg: "close_keys False d (changes om, rev rest) = Ok (chg, ds)" "chg_ok chg"
    "vers_of chg = (\<lambda>k. if k \<in> set d \<and> has_pred (rev rest) ?c k then merge_top (?c k) else ?c k)"
    and ds: "rest = [] \<Longrightarrow> ds = []" "rest \<noteq> [] \<Longrightarrow> ds \<noteq> []" "rest \<noteq> [] \<Longrightarrow> butlast ds = rev (tl rest)"
      "rest \<noteq> [] \<Longrightarrow> set (last ds) = set (hd rest) \<union> set d"
      "rest \<noteq> [] \<Longrightarrow> distinct (hd rest) \<Longrightarrow> distinct (last ds)"
    by (simp_all add: butlast_rev last_rev)
  have len: "length (merge_top l) = length l - 1" if "1 < length l" for l :: "'b InnerValue list"
    using that by (cases l rule: merge_top.cases) auto
  have tl: "tl (merge_top l) = tl (tl l)" if "1 < length l" for l :: "'b InnerValue list"
    using that by (cases l rule: merge_top.cases) auto
  have "wf_stack (vers_of chg) (rev ds) \<and> stack (vers_of chg) (rev ds) = sp_commit (stack ?c (d # rest)) \<and> length ds = length rest"
  proof (cases rest)
    case Nil
    have "length (vers_of chg k) \<le> 1" for k
      using spec [OF wf(4) [unfolded Nil, simplified], of k] two [of k]
      by (auto simp: chg(3) len has_pred_def Nil pop_keys_def split: if_splits)
    then show ?thesis using Nil ds(1) see_merge [of _ ?c] by (simp add: chg(3))
  next
    case (Cons e rest')
    define e' where "e' = last ds"
    have e': "ds = rev rest' @ [e']" "set e' = set e \<union> set d" "distinct e'"
      using ds wf(4) Cons append_butlast_last_id [of ds] by (auto simp: e'_def)
    have "pop_keys (set e') (vers_of chg) = pop_keys (set e) (pop_keys (set d) ?c)"
      using two tl by (auto simp: chg(3) e'(2) pop_keys_def has_pred_def Cons fun_eq_iff)
    moreover have "vers_of chg k \<noteq> []" if "k \<in> set e'" for k
    proof -
      have "?c k \<noteq> []" using that wf(2,4) by (auto simp: e'(2) Cons pop_keys_def split: if_splits)
      then show ?thesis by (cases "?c k" rule: merge_top.cases) (auto simp: chg(3))
    qed
    ultimately show ?thesis
      using wf(4) Cons e' see_merge [of _ ?c] by (simp add: chg(3))
  qed
  moreover have "length (dirty_keys om) = Suc (length rest)" using d(1) by (metis length_Cons length_rev)
  ultimately show ?thesis
    using chg(1,2) ok d
    by (auto simp: commit_transaction_def close_transaction_def closable_def om_ok_def abs_om_def
        transaction_depth_def has_open_runtime_transactions_def)
qed

section \<open>Entering and leaving the runtime\<close>

lemma enter_ok:
  assumes "om_ok om" "execution_mode om = Client"
  shows "\<exists>om'. enter_runtime om = Ok om' \<and> om_ok om' \<and> abs_om om' = abs_om om \<and> execution_mode om' = Runtime \<and>
    transaction_depth om' = transaction_depth om \<and> num_client_transactions om' = transaction_depth om"
  using assms by (auto simp: enter_runtime_def om_ok_def abs_om_def transaction_depth_def)

lemma sp_rollback_drop: "sp_rollback ms = drop 1 ms"
  by (cases ms) auto

lemma rollback_open_ok:
  assumes "om_ok om" "execution_mode om = Client"
  shows "\<exists>om'. rollback_open om = Ok om' \<and> om_ok om' \<and> execution_mode om' = Client \<and>
    num_client_transactions om' = num_client_transactions om \<and>
    dirty_keys om' = take (min (transaction_depth om) (num_client_transactions om)) (dirty_keys om) \<and>
    abs_om om' = drop (transaction_depth om - num_client_transactions om) (abs_om om)"
  using assms
proof (induction om rule: rollback_open.induct)
  case (1 om)
  show ?case
  proof (cases "has_open_runtime_transactions om")
    case False
    then show ?thesis
      using 1 by (subst rollback_open.simps) (simp add: has_open_runtime_transactions_def transaction_depth_def)
  next
    case True
    then have depth: "num_client_transactions om < transaction_depth om" "dirty_keys om \<noteq> []"
      by (auto simp: has_open_runtime_transactions_def transaction_depth_def)
    have "closable om" using True 1 depth by (simp add: closable_def)
    then obtain om1 where om1: "rollback_transaction om = Ok om1" "om_ok om1" "abs_om om1 = sp_rollback (abs_om om)"
      "dirty_keys om1 = butlast (dirty_keys om)" "execution_mode om1 = Client"
      "num_client_transactions om1 = num_client_transactions om"
      using rollback_ok [OF 1(2)] 1(3) by auto
    have len: "transaction_depth om = Suc (transaction_depth om1)"
      using om1(4) depth(2) by (simp add: transaction_depth_def)
    obtain om2 where om2: "rollback_open om1 = Ok om2" "om_ok om2" "execution_mode om2 = Client"
      "num_client_transactions om2 = num_client_transactions om1"
      "dirty_keys om2 = take (min (transaction_depth om1) (num_client_transactions om1)) (dirty_keys om1)"
      "abs_om om2 = drop (transaction_depth om1 - num_client_transactions om1) (abs_om om1)"
      using 1(1) [OF True om1(1,2,5)] by blast
    have "dirty_keys om2 = take (num_client_transactions om) (dirty_keys om)"
    proof -
      have "min (transaction_depth om1) (num_client_transactions om1) = num_client_transactions om"
        using om1(6) depth(1) len by simp
      then show ?thesis using om2(5) om1(4) depth(1) by (simp add: take_butlast transaction_depth_def)
    qed
    moreover have "abs_om om2 = drop (transaction_depth om - num_client_transactions om) (abs_om om)"
      using om2(6) om1(3,6) depth len by (simp add: sp_rollback_drop Suc_diff_le)
    ultimately show ?thesis
      using om1 om2 True depth by (subst rollback_open.simps) (simp add: min_def)
  qed
qed

lemma exit_ok:
  assumes "om_ok om" "execution_mode om = Runtime"
  shows "\<exists>om'. exit_runtime om = Ok om' \<and> om_ok om' \<and> execution_mode om' = Client \<and>
    transaction_depth om' = num_client_transactions om \<and> num_client_transactions om' = num_client_transactions om \<and>
    abs_om om' = drop (transaction_depth om - num_client_transactions om) (abs_om om)"
proof -
  let ?om = "om\<lparr>execution_mode := Client\<rparr>"
  have ok: "om_ok ?om" "execution_mode ?om = Client" "num_client_transactions om \<le> transaction_depth om"
    using assms by (auto simp: om_ok_def)
  obtain om' where "rollback_open ?om = Ok om'" "om_ok om'" "execution_mode om' = Client"
    "num_client_transactions om' = num_client_transactions ?om"
    "dirty_keys om' = take (min (transaction_depth ?om) (num_client_transactions ?om)) (dirty_keys ?om)"
    "abs_om om' = drop (transaction_depth ?om - num_client_transactions ?om) (abs_om ?om)"
    using rollback_open_ok [OF ok(1,2)] by blast
  then show ?thesis
    using assms(2) ok(3) by (auto simp: exit_runtime_def abs_om_def transaction_depth_def)
qed

section \<open>Modifying, clearing and draining\<close>

lemma modify_ok:
  fixes k :: "'k::linorder" and om :: "('k, 'w option) OverlayedMap"
  assumes ok: "om_ok om"
  defines "m \<equiv> hd (abs_om om)"
  defines "fresh \<equiv> m k = None \<or> (dirty_keys om \<noteq> [] \<and> k \<notin> set (last (dirty_keys om)))"
  shows "\<exists>om'. om_modify k init at g om = Ok om' \<and> om_ok om' \<and> transaction_depth om' = transaction_depth om \<and>
    abs_om om' = sp_set k (g (case m k of None \<Rightarrow> Some init | Some (v, _) \<Rightarrow> v)) (if fresh then at else None) (abs_om om)"
proof -
  let ?c = "vers_of (changes om)" and ?e = "or_default (om_get om k)"
  obtain ds' first where ds: "insert_dirty (dirty_keys om) k = (ds', first)" by fastforce
  have e: "rev ?e = ?c k" "?e = [] \<longleftrightarrow> ?c k = []" by (auto simp: vers_of_def om_get_def)
  have m: "m k = (if ?c k = [] then None else Some (ivalue (hd (?c k)), exts (?c k)))"
    by (simp add: m_def abs_om_def hd_stack see_def)
  have fr: "fresh \<longleftrightarrow> ?c k = [] \<or> first" "first \<longleftrightarrow> dirty_keys om \<noteq> [] \<and> k \<notin> set (last (dirty_keys om))"
    using rev_dirty [OF ds] by (auto simp: fresh_def m hd_rev)
  let ?v = "g (case m k of None \<Rightarrow> Some init | Some (v, _) \<Rightarrow> v)" and ?at = "if fresh then at else None"
  have "\<exists>x e'. om_modify k init at g om = Ok (om\<lparr>changes := bt_insert k e' (changes om), dirty_keys := ds'\<rparr>) \<and>
    ivalue x = ?v \<and> exts (rev e') = exts (?c k) \<union> set_option ?at \<and>
    rev e' = x # (if first \<or> ?c k = [] then ?c k else tl (?c k))"
  proof (cases fresh)
    case False
    then obtain y l where y: "?c k = y # l" using fr(1) by (cases "?c k") auto
    then have "?e = rev l @ [y]" using e(1) by (metis rev.simps(2) rev_rev_ident)
    then show ?thesis
      using False fr y m ds by (auto simp: om_modify_def last_mut_def)
  next
    case True
    let ?w = "case m k of None \<Rightarrow> Some init | Some (v, _) \<Rightarrow> v"
    obtain x e1 where e1: "entry_set ?w first at ?e = Some e1" "ivalue x = ?w" "exts (rev e1) = exts (?c k) \<union> set_option at"
      "rev e1 = x # (if first \<or> ?c k = [] then ?c k else tl (?c k))"
      using entry_set_rev [of ?w first at ?e] unfolding e by blast
    have "(if ?e \<noteq> [] then if first then Some (ivalue (last ?e)) else None else Some (Some init)) = Some ?w"
      using True fr m e by (auto simp: hd_rev [symmetric])
    moreover have "e1 = rev (if first \<or> ?c k = [] then ?c k else tl (?c k)) @ [x]"
      using e1(4) by (metis rev.simps(2) rev_rev_ident)
    ultimately show ?thesis
      using True e1 ds
      by (intro exI [of _ "x\<lparr>ivalue := g ?w\<rparr>"] exI [of _ "rev (if first \<or> ?c k = [] then ?c k else tl (?c k)) @ [x\<lparr>ivalue := g ?w\<rparr>]"])
        (simp add: om_modify_def last_mut_def)
  qed
  then obtain x e' where e': "om_modify k init at g om = Ok (om\<lparr>changes := bt_insert k e' (changes om), dirty_keys := ds'\<rparr>)"
    "ivalue x = ?v" "exts (rev e') = exts (?c k) \<union> set_option ?at"
    "rev e' = x # (if first \<or> ?c k = [] then ?c k else tl (?c k))" by blast
  have wf: "wf_stack ?c (rev (dirty_keys om))" using ok by (simp add: om_ok_def)
  have f: "rev e' = x # (if (rev (dirty_keys om) = [] \<or> k \<in> set (hd (rev (dirty_keys om)))) \<and> ?c k \<noteq> [] then tl (?c k) else ?c k)"
    using e'(4) rev_dirty [OF ds] by auto
  have "wf_stack (?c(k := rev e')) (rev ds') \<and> stack (?c(k := rev e')) (rev ds') = sp_set k ?v ?at (stack ?c (rev (dirty_keys om)))"
    using stack_write [OF wf e'(2,3) f] rev_dirty [OF ds] by auto
  moreover have "length ds' = length (dirty_keys om)"
    using rev_dirty [OF ds] by (metis (no_types, lifting) length_rev length_Cons list.exhaust list.simps(4) list.simps(5))
  moreover have "e' \<noteq> []" using f by auto
  ultimately show ?thesis
    using ok e'(1) by (auto simp: om_ok_def abs_om_def transaction_depth_def chg_ok_insert)
qed

lemma clear_keys_Cons:
  "om_get om k = Some val \<Longrightarrow>
   clear_keys at ((k, val) # kvs) om = and_then (om_set k None at om) (clear_keys at kvs)"
  by (auto simp: om_set_def or_default_def Let_def split: prod.split option.split)

lemma om_set_get:
  "om_set k v at om = Ok om' \<Longrightarrow> j \<noteq> k \<Longrightarrow> om_get om' j = om_get om j"
  by (auto simp: om_set_def Let_def om_get_def split: prod.splits option.splits)

definition sp_clear :: "'k list \<Rightarrow> u32 option \<Rightarrow> ('k, 'w option) view list \<Rightarrow> ('k, 'w option) view list" where
  "sp_clear ks at ms = foldl (\<lambda>ms k. sp_set k None at ms) ms ks"

lemma clear_keys_ok:
  assumes "om_ok om" "distinct (map fst kvs)" "\<forall>(k, v) \<in> set kvs. om_get om k = Some v"
  shows "\<exists>om'. clear_keys at kvs om = Ok om' \<and> om_ok om' \<and> abs_om om' = sp_clear (map fst kvs) at (abs_om om) \<and>
    transaction_depth om' = transaction_depth om \<and> execution_mode om' = execution_mode om \<and>
    num_client_transactions om' = num_client_transactions om"
  using assms
proof (induction kvs arbitrary: om)
  case Nil
  then show ?case by (simp add: sp_clear_def)
next
  case (Cons x kvs)
  obtain k v where x: "x = (k, v)" by (cases x)
  obtain om1 where om1: "om_set k None at om = Ok om1" "om_ok om1" "abs_om om1 = sp_set k None at (abs_om om)"
    "transaction_depth om1 = transaction_depth om" "execution_mode om1 = execution_mode om"
    "num_client_transactions om1 = num_client_transactions om"
    using om_set_ok [OF Cons.prems(1), of k None at] by blast
  have "om_get om1 j = Some w" if "(j, w) \<in> set kvs" for j w
    using Cons.prems x that om_set_get [OF om1(1), of j] by force
  then obtain om2 where "clear_keys at kvs om1 = Ok om2" "om_ok om2" "abs_om om2 = sp_clear (map fst kvs) at (abs_om om1)"
    "transaction_depth om2 = transaction_depth om1" "execution_mode om2 = execution_mode om1"
    "num_client_transactions om2 = num_client_transactions om1"
    using Cons.IH [OF om1(2)] Cons.prems(2) by auto
  moreover have "clear_keys at (x # kvs) om = clear_keys at kvs om1"
    using clear_keys_Cons [of om k v at kvs] om1(1) Cons.prems(3) x by simp
  ultimately show ?case using om1 x by (simp add: sp_clear_def)
qed

lemma clear_where_ok:
  assumes ok: "om_ok om"
  shows "\<exists>om'. clear_where P at om = Ok om' \<and> om_ok om' \<and>
    abs_om om' = sp_clear (map fst (filter (\<lambda>(k, v). P k v) (changes om))) at (abs_om om) \<and>
    transaction_depth om' = transaction_depth om \<and> execution_mode om' = execution_mode om \<and>
    num_client_transactions om' = num_client_transactions om"
proof -
  have "distinct (map fst (changes om))" using ok by (simp add: om_ok_def chg_ok_def bt_ok_distinct)
  then have "distinct (map fst (filter (\<lambda>(k, v). P k v) (changes om)))"
    "\<forall>(k, v) \<in> set (filter (\<lambda>(k, v). P k v) (changes om)). om_get om k = Some v"
    by (auto simp: distinct_map_filter om_get_def)
  from clear_keys_ok [OF ok this] show ?thesis by (simp add: clear_where_def)
qed

lemma sp_clear_view:
  "ms \<noteq> [] \<Longrightarrow> distinct ks \<Longrightarrow> sp_clear ks at ms =
     (\<lambda>k. if k \<in> set ks then Some (None, view_exts (hd ms) k \<union> set_option at) else hd ms k) # tl ms"
proof (induction ks arbitrary: ms)
  case Nil
  then show ?case by (simp add: sp_clear_def)
next
  case (Cons k ks)
  obtain m ms' where ms: "ms = m # ms'" using Cons.prems by (cases ms) auto
  show ?case
    using Cons.IH [of "sp_set k None at ms"] Cons.prems
    by (auto simp: sp_clear_def ms fun_eq_iff view_exts_def)
qed

text \<open>What a reader of the overlay sees is the top of the stack.\<close>

definition seen :: "('k, 'v) OverlayedMap \<Rightarrow> ('k, 'v) view" where
  "seen om k = (case om_get om k of None \<Rightarrow> None
     | Some e \<Rightarrow> (case value_ref e of None \<Rightarrow> None | Some v \<Rightarrow> Some (v, entry_extrinsics e)))"

lemma entry_extrinsics_exts: "entry_extrinsics e = exts e"
proof -
  have "foldl (\<lambda>acc t. acc \<union> set (iextrinsics t)) S e = S \<union> exts e" for S
    by (induction e arbitrary: S) auto
  then show ?thesis by (simp add: entry_extrinsics_def)
qed

lemma exts_rev [simp]: "exts (rev e) = exts e"
  by (simp add: exts_def)

lemma seen_abs: "seen om = hd (abs_om om)"
proof
  fix k
  show "seen om k = hd (abs_om om) k"
    by (auto simp: seen_def abs_om_def hd_stack see_def vers_of_def om_get_def or_default_def value_ref_def
        entry_extrinsics_exts hd_rev split: option.splits)
qed

lemma drain_ok:
  assumes ok: "om_ok om" "transaction_depth om = 0"
  shows "\<exists>kvs. drain_commited om = Ok kvs \<and> bt_ok kvs \<and> (\<forall>k. map_of kvs k = map_option fst (seen om k))"
proof -
  let ?f = "\<lambda>(k, e). (k, ivalue (last e))"
  have ne: "e \<noteq> []" if "(k, e) \<in> set (changes om)" for k e
    using that ok(1) by (auto simp: om_ok_def chg_ok_def dest: bt_ok_distinct map_of_is_SomeI)
  then have "drain_commited om = Ok (map ?f (changes om))"
    using ok(2) by (auto simp: drain_commited_def pop_transaction_def list_ex_iff)
  moreover have "bt_ok (map ?f (changes om))"
    using ok(1) by (simp add: om_ok_def chg_ok_def bt_ok_def comp_def case_prod_beta)
  moreover have "map_of (map ?f (changes om)) k = map_option fst (seen om k)" for k
  proof -
    have "map_of (map ?f m) k = map_option (\<lambda>e. ivalue (last e)) (map_of m k)" for m :: "('a \<times> 'b OverlayedEntry) list"
      by (induction m) auto
    then show ?thesis
      using ne by (auto simp: seen_def om_get_def value_ref_def split: option.split dest: map_of_SomeD)
  qed
  ultimately show ?thesis by blast
qed

lemma empty_stack:
  "wf_stack (\<lambda>_. []) (replicate n [])" "stack (\<lambda>_. []) (replicate n []) = replicate (Suc n) (\<lambda>_. None)"
  by (induction n) (auto simp: see_def)

lemma spawn_child_ok:
  assumes "om_ok om"
  shows "om_ok (spawn_child om) \<and> abs_om (spawn_child om) = replicate (Suc (transaction_depth om)) (\<lambda>_. None)"
  using assms
  by (simp add: spawn_child_def om_ok_def abs_om_def chg_ok_def transaction_depth_def rev_replicate empty_stack)

lemma default_ok: "om_ok default_map \<and> abs_om default_map = [\<lambda>_. None]"
  by (auto simp: default_map_def om_ok_def abs_om_def chg_ok_def vers_of_def or_default_def see_def)

end
