(* ===== verification/OverlayedChanges.thy ===== *)
theory OverlayedChanges
  imports Changeset "HOL-Library.List_Lexorder" "HOL-Library.Product_Lexorder"
begin

text \<open>
  The changes a block execution overlays on the backend,
  \<^verbatim>\<open>primitives/state-machine/src/overlayed_changes/mod.rs\<close> and \<^verbatim>\<open>offchain.rs\<close>: one transactional
  overlay for the top trie, one for each child trie, created on the first write at the depth the top
  is at, and one for offchain indexing, all of which open and close their transactions together. The read
  statistics are left out. The decoding of the extrinsic index is the codec's, a parameter.
\<close>

section \<open>State\<close>

type_synonym StorageKey = "u8 list"
type_synonym StorageValue = "u8 list"
type_synonym OverlayedChangeSet = "(StorageKey, StorageValue option) OverlayedMap"

datatype ChildInfo = ParentKeyId StorageKey
datatype OffchainOverlayedChange = Remove | SetValue "u8 list"

type_synonym OffchainOverlayedChanges = "(StorageKey \<times> StorageKey, OffchainOverlayedChange) OverlayedMap"

record OverlayedChanges =
  top :: OverlayedChangeSet
  children :: "(StorageKey \<times> (OverlayedChangeSet \<times> ChildInfo)) list"
  offchain :: OffchainOverlayedChanges
  collect_extrinsics :: bool

fun storage_key :: "ChildInfo \<Rightarrow> StorageKey" where
  "storage_key (ParentKeyId data) = data"

definition bytes :: "nat list \<Rightarrow> u8 list" where
  "bytes ns = map of_nat ns"

text \<open>\<open>b":extrinsic_index"\<close> and \<open>b"storage"\<close>.\<close>

definition EXTRINSIC_INDEX :: StorageKey where
  "EXTRINSIC_INDEX = bytes [58, 101, 120, 116, 114, 105, 110, 115, 105, 99, 95, 105, 110, 100, 101, 120]"

definition STORAGE_PREFIX :: "u8 list" where
  "STORAGE_PREFIX = bytes [115, 116, 111, 114, 97, 103, 101]"

definition NO_EXTRINSIC_INDEX :: u32 where
  "NO_EXTRINSIC_INDEX = 0xffffffff"

definition default_changes :: OverlayedChanges where
  "default_changes = \<lparr>top = default_map, children = [], offchain = default_map, collect_extrinsics = False\<rparr>"

text \<open>Rust's \<open>expect\<close>, and the same operation on every child.\<close>

definition expect :: "('e, 'a) result \<Rightarrow> ('f, 'a) result" where
  "expect r = (case r of Ok a \<Rightarrow> Ok a | _ \<Rightarrow> Panic)"

fun for_children ::
    "(OverlayedChangeSet \<Rightarrow> ('e, OverlayedChangeSet) result) \<Rightarrow> (StorageKey \<times> (OverlayedChangeSet \<times> ChildInfo)) list \<Rightarrow>
     (unit, (StorageKey \<times> (OverlayedChangeSet \<times> ChildInfo)) list) result" where
  "for_children f [] = Ok []"
| "for_children f ((k, (cs, info)) # cts) =
     and_then (expect (f cs)) (\<lambda>cs'. and_then (for_children f cts) (\<lambda>cts'. Ok ((k, (cs', info)) # cts')))"

section \<open>Reading\<close>

definition overlay_is_empty :: "OverlayedChanges \<Rightarrow> bool" where
  "overlay_is_empty oc \<longleftrightarrow> om_is_empty (top oc) \<and> children oc = []"

definition storage :: "StorageKey \<Rightarrow> OverlayedChanges \<Rightarrow> StorageValue option option" where
  "storage k oc = (case om_get (top oc) k of None \<Rightarrow> None | Some x \<Rightarrow> value_ref x)"

definition child_storage :: "ChildInfo \<Rightarrow> StorageKey \<Rightarrow> OverlayedChanges \<Rightarrow> StorageValue option option" where
  "child_storage info k oc =
     (case map_of (children oc) (storage_key info) of
        None \<Rightarrow> None
      | Some (cs, _) \<Rightarrow> (case om_get cs k of None \<Rightarrow> None | Some x \<Rightarrow> value_ref x))"

definition extrinsic_index :: "(u8 list \<Rightarrow> u32 option) \<Rightarrow> OverlayedChanges \<Rightarrow> u32 option" where
  "extrinsic_index decode oc =
     (if collect_extrinsics oc then
        Some (case storage EXTRINSIC_INDEX oc of
                Some (Some idx) \<Rightarrow> (case decode idx of Some n \<Rightarrow> n | None \<Rightarrow> NO_EXTRINSIC_INDEX)
              | _ \<Rightarrow> NO_EXTRINSIC_INDEX)
      else None)"

definition overlay_depth :: "OverlayedChanges \<Rightarrow> nat" where
  "overlay_depth oc = transaction_depth (top oc)"

section \<open>Writing\<close>

definition set_storage ::
    "(u8 list \<Rightarrow> u32 option) \<Rightarrow> StorageKey \<Rightarrow> StorageValue option \<Rightarrow> OverlayedChanges \<Rightarrow> (unit, OverlayedChanges) result" where
  "set_storage decode k v oc =
     and_then (om_set k v (extrinsic_index decode oc) (top oc)) (\<lambda>t. Ok (oc\<lparr>top := t\<rparr>))"

definition value_mut_or_insert_with ::
    "(u8 list \<Rightarrow> u32 option) \<Rightarrow> StorageKey \<Rightarrow> StorageValue \<Rightarrow> (StorageValue \<Rightarrow> StorageValue) \<Rightarrow> OverlayedChanges \<Rightarrow>
     (unit, OverlayedChanges) result" where
  "value_mut_or_insert_with decode k init g oc =
     and_then (om_modify k init (extrinsic_index decode oc)
                 (\<lambda>v. Some (g (case v of None \<Rightarrow> [] | Some x \<Rightarrow> x))) (top oc))
       (\<lambda>t. Ok (oc\<lparr>top := t\<rparr>))"

text \<open>The change set of a child, spawned from the top's if the child has none yet.\<close>

definition child_entry :: "ChildInfo \<Rightarrow> OverlayedChanges \<Rightarrow> OverlayedChangeSet \<times> ChildInfo" where
  "child_entry info oc =
     (case map_of (children oc) (storage_key info) of
        Some c \<Rightarrow> c
      | None \<Rightarrow> (spawn_child (top oc), info))"

definition with_child ::
    "ChildInfo \<Rightarrow> (OverlayedChangeSet \<Rightarrow> (unit, OverlayedChangeSet) result) \<Rightarrow> OverlayedChanges \<Rightarrow> (unit, OverlayedChanges) result" where
  "with_child info f oc =
     (case child_entry info oc of (cs, info') \<Rightarrow>
        and_then (f cs) (\<lambda>cs'. Ok (oc\<lparr>children := bt_insert (storage_key info) (cs', info') (children oc)\<rparr>)))"

definition set_child_storage ::
    "(u8 list \<Rightarrow> u32 option) \<Rightarrow> ChildInfo \<Rightarrow> StorageKey \<Rightarrow> StorageValue option \<Rightarrow> OverlayedChanges \<Rightarrow> (unit, OverlayedChanges) result" where
  "set_child_storage decode info k v oc = with_child info (om_set k v (extrinsic_index decode oc)) oc"

definition starts_with :: "u8 list \<Rightarrow> u8 list \<Rightarrow> bool" where
  "starts_with prefix k \<longleftrightarrow> take (length prefix) k = prefix"

definition clear_child_storage :: "(u8 list \<Rightarrow> u32 option) \<Rightarrow> ChildInfo \<Rightarrow> OverlayedChanges \<Rightarrow> (unit, OverlayedChanges) result" where
  "clear_child_storage decode info oc = with_child info (clear_where (\<lambda>_ _. True) (extrinsic_index decode oc)) oc"

definition clear_prefix :: "(u8 list \<Rightarrow> u32 option) \<Rightarrow> u8 list \<Rightarrow> OverlayedChanges \<Rightarrow> (unit, OverlayedChanges) result" where
  "clear_prefix decode prefix oc =
     and_then (clear_where (\<lambda>k _. starts_with prefix k) (extrinsic_index decode oc) (top oc)) (\<lambda>t. Ok (oc\<lparr>top := t\<rparr>))"

definition clear_child_prefix ::
    "(u8 list \<Rightarrow> u32 option) \<Rightarrow> ChildInfo \<Rightarrow> u8 list \<Rightarrow> OverlayedChanges \<Rightarrow> (unit, OverlayedChanges) result" where
  "clear_child_prefix decode info prefix oc =
     with_child info (clear_where (\<lambda>k _. starts_with prefix k) (extrinsic_index decode oc)) oc"

definition offchain_set :: "u8 list \<Rightarrow> u8 list \<Rightarrow> u8 list \<Rightarrow> OffchainOverlayedChanges \<Rightarrow> (unit, OffchainOverlayedChanges) result" where
  "offchain_set prefix k v o' = om_set (prefix, k) (SetValue v) None o'"

definition offchain_remove :: "u8 list \<Rightarrow> u8 list \<Rightarrow> OffchainOverlayedChanges \<Rightarrow> (unit, OffchainOverlayedChanges) result" where
  "offchain_remove prefix k o' = om_set (prefix, k) Remove None o'"

definition offchain_get :: "u8 list \<Rightarrow> u8 list \<Rightarrow> OffchainOverlayedChanges \<Rightarrow> OffchainOverlayedChange option" where
  "offchain_get prefix k o' = (case om_get o' (prefix, k) of None \<Rightarrow> None | Some e \<Rightarrow> value_ref e)"

definition offchain_into_iter :: "OffchainOverlayedChanges \<Rightarrow> (unit, ((StorageKey \<times> StorageKey) \<times> OffchainOverlayedChange) list) result" where
  "offchain_into_iter o' =
     (if list_ex (\<lambda>(k, e). pop_transaction e = None) (changes o') then Panic
      else Ok (map (\<lambda>(k, e). (k, ivalue (last e))) (changes o')))"

definition set_offchain_storage :: "u8 list \<Rightarrow> u8 list option \<Rightarrow> OverlayedChanges \<Rightarrow> (unit, OverlayedChanges) result" where
  "set_offchain_storage k v oc =
     and_then (case v of Some v \<Rightarrow> offchain_set STORAGE_PREFIX k v (offchain oc)
                       | None \<Rightarrow> offchain_remove STORAGE_PREFIX k (offchain oc))
       (\<lambda>o'. Ok (oc\<lparr>offchain := o'\<rparr>))"

section \<open>Transactions\<close>

definition overlay_start :: "OverlayedChanges \<Rightarrow> OverlayedChanges" where
  "overlay_start oc =
     oc\<lparr>top := start_transaction (top oc),
        children := map (\<lambda>(k, (cs, info)). (k, (start_transaction cs, info))) (children oc),
        offchain := start_transaction (offchain oc)\<rparr>"

definition overlay_rollback :: "OverlayedChanges \<Rightarrow> (NoOpenTransaction, OverlayedChanges) result" where
  "overlay_rollback oc =
     and_then (rollback_transaction (top oc)) (\<lambda>t.
     and_then (expect (for_children rollback_transaction (children oc))) (\<lambda>cts.
     and_then (expect (rollback_transaction (offchain oc))) (\<lambda>o'.
       Ok (oc\<lparr>top := t, children := filter (\<lambda>(_, (cs, _)). \<not> om_is_empty cs) cts, offchain := o'\<rparr>))))"

definition overlay_commit :: "OverlayedChanges \<Rightarrow> (NoOpenTransaction, OverlayedChanges) result" where
  "overlay_commit oc =
     and_then (commit_transaction (top oc)) (\<lambda>t.
     and_then (expect (for_children commit_transaction (children oc))) (\<lambda>cts.
     and_then (expect (commit_transaction (offchain oc))) (\<lambda>o'.
       Ok (oc\<lparr>top := t, children := cts, offchain := o'\<rparr>))))"

definition overlay_enter_runtime :: "OverlayedChanges \<Rightarrow> (AlreadyInRuntime, OverlayedChanges) result" where
  "overlay_enter_runtime oc =
     and_then (enter_runtime (top oc)) (\<lambda>t.
     and_then (expect (for_children enter_runtime (children oc))) (\<lambda>cts.
     and_then (expect (enter_runtime (offchain oc))) (\<lambda>o'.
       Ok (oc\<lparr>top := t, children := cts, offchain := o'\<rparr>))))"

definition overlay_exit_runtime :: "OverlayedChanges \<Rightarrow> (NotInRuntime, OverlayedChanges) result" where
  "overlay_exit_runtime oc =
     and_then (exit_runtime (top oc)) (\<lambda>t.
     and_then (expect (for_children exit_runtime (children oc))) (\<lambda>cts.
     and_then (expect (exit_runtime (offchain oc))) (\<lambda>o'.
       Ok (oc\<lparr>top := t, children := cts, offchain := o'\<rparr>))))"

section \<open>Draining and iteration\<close>

fun drain_children ::
    "(StorageKey \<times> (OverlayedChangeSet \<times> ChildInfo)) list \<Rightarrow>
     (unit, (StorageKey \<times> ((StorageKey \<times> StorageValue option) list \<times> ChildInfo)) list) result" where
  "drain_children [] = Ok []"
| "drain_children ((k, (cs, info)) # cts) =
     and_then (drain_commited cs) (\<lambda>kvs. and_then (drain_children cts) (\<lambda>r. Ok ((k, (kvs, info)) # r)))"

definition overlay_drain_committed ::
    "OverlayedChanges \<Rightarrow>
     (unit, OverlayedChanges \<times> (StorageKey \<times> StorageValue option) list \<times>
            (StorageKey \<times> ((StorageKey \<times> StorageValue option) list \<times> ChildInfo)) list) result" where
  "overlay_drain_committed oc =
     and_then (drain_commited (top oc)) (\<lambda>t.
     and_then (drain_children (children oc)) (\<lambda>cts.
       Ok (oc\<lparr>top := default_map, children := []\<rparr>, t, cts)))"

definition offchain_drain_committed ::
    "OverlayedChanges \<Rightarrow> (unit, OverlayedChanges \<times> ((StorageKey \<times> StorageKey) \<times> OffchainOverlayedChange) list) result" where
  "offchain_drain_committed oc =
     and_then (offchain_into_iter (offchain oc)) (\<lambda>r. Ok (oc\<lparr>offchain := default_map\<rparr>, r))"

definition next_storage_key_change :: "StorageKey \<Rightarrow> OverlayedChanges \<Rightarrow> (StorageKey \<times> StorageValue option OverlayedEntry) option" where
  "next_storage_key_change k oc = next_change k (top oc)"

definition next_child_storage_key_change ::
    "StorageKey \<Rightarrow> StorageKey \<Rightarrow> OverlayedChanges \<Rightarrow> (StorageKey \<times> StorageValue option OverlayedEntry) option" where
  "next_child_storage_key_change sk k oc =
     (case map_of (children oc) sk of None \<Rightarrow> None | Some (cs, _) \<Rightarrow> next_change k cs)"

end
