(* ===== verification/OverlayRefinement.thy ===== *)
theory OverlayRefinement
  imports OverlayedChanges ChangesetRefinement
begin

text \<open>
  The overlay of a block execution implements three families of stacks of maps that move in lockstep:
  the top trie, every child trie, and offchain indexing. For values, the specification is a function; which
  extrinsics changed a key is the subject of the change set's own refinement.
\<close>

section \<open>The specification\<close>

type_synonym ('k, 'v) vals = "('k \<Rightarrow> 'v option) list"

record vspec =
  v_top :: "(StorageKey, StorageValue option) vals"
  v_child :: "StorageKey \<Rightarrow> (StorageKey, StorageValue option) vals"
  v_off :: "(StorageKey \<times> StorageKey, OffchainOverlayedChange) vals"
  v_mode :: ExecutionMode
  v_client :: nat

definition v_init :: vspec where
  "v_init = \<lparr>v_top = [\<lambda>_. None], v_child = (\<lambda>_. [\<lambda>_. None]), v_off = [\<lambda>_. None], v_mode = Client, v_client = 0\<rparr>"

fun v_set :: "'k \<Rightarrow> 'v \<Rightarrow> ('k, 'v) vals \<Rightarrow> ('k, 'v) vals" where
  "v_set k v (m # ms) = m(k \<mapsto> v) # ms"
| "v_set k v [] = []"

fun v_clear :: "('k \<Rightarrow> bool) \<Rightarrow> ('k, 'w option) vals \<Rightarrow> ('k, 'w option) vals" where
  "v_clear P (m # ms) = (\<lambda>k. if P k \<and> m k \<noteq> None then Some None else m k) # ms"
| "v_clear P [] = []"

text \<open>An operation on every stack.\<close>

definition each ::
    "((StorageKey, StorageValue option) vals \<Rightarrow> (StorageKey, StorageValue option) vals) \<Rightarrow>
     ((StorageKey \<times> StorageKey, OffchainOverlayedChange) vals \<Rightarrow> (StorageKey \<times> StorageKey, OffchainOverlayedChange) vals) \<Rightarrow>
     vspec \<Rightarrow> vspec" where
  "each f g s = s\<lparr>v_top := f (v_top s), v_child := (\<lambda>ck. f (v_child s ck)), v_off := g (v_off s)\<rparr>"

definition v_depth :: "vspec \<Rightarrow> nat" where
  "v_depth s = length (v_top s) - 1"

definition v_closable :: "vspec \<Rightarrow> bool" where
  "v_closable s \<longleftrightarrow> (if v_mode s = Runtime then v_client s else 0) < v_depth s"

section \<open>The abstraction\<close>

definition in_step :: "('k, 'v) OverlayedMap \<Rightarrow> ('j, 'w) OverlayedMap \<Rightarrow> bool" where
  "in_step a b \<longleftrightarrow> transaction_depth b = transaction_depth a \<and> execution_mode b = execution_mode a \<and>
     num_client_transactions b = num_client_transactions a"

definition lock_ok :: "OverlayedChanges \<Rightarrow> bool" where
  "lock_ok oc \<longleftrightarrow> om_ok (top oc) \<and> om_ok (offchain oc) \<and> in_step (top oc) (offchain oc) \<and> bt_ok (children oc) \<and>
     (\<forall>(k, (cs, info)) \<in> set (children oc). om_ok cs \<and> in_step (top oc) cs)"

definition vals :: "('k, 'v) OverlayedMap \<Rightarrow> ('k, 'v) vals" where
  "vals om = map (\<lambda>m k. map_option fst (m k)) (abs_om om)"

definition child_stack ::
    "nat \<Rightarrow> (StorageKey \<times> (OverlayedChangeSet \<times> ChildInfo)) list \<Rightarrow> StorageKey \<Rightarrow> (StorageKey, StorageValue option) vals" where
  "child_stack d cts ck =
     (case map_of cts ck of None \<Rightarrow> replicate (Suc d) (\<lambda>_. None) | Some (cs, _) \<Rightarrow> vals cs)"

definition abs_oc :: "OverlayedChanges \<Rightarrow> vspec" where
  "abs_oc oc = \<lparr>v_top = vals (top oc), v_child = child_stack (overlay_depth oc) (children oc), v_off = vals (offchain oc),
     v_mode = execution_mode (top oc), v_client = num_client_transactions (top oc)\<rparr>"

lemma in_step_self [simp]: "in_step a a"
  by (simp add: in_step_def)

lemma in_step_trans: "in_step a b \<Longrightarrow> in_step b c \<Longrightarrow> in_step a c"
  by (simp add: in_step_def)

lemma length_vals: "length (vals om) = Suc (transaction_depth om)"
  by (simp add: vals_def abs_om_def transaction_depth_def)

lemma vals_cases: "\<exists>m ms. vals om = m # ms"
  using length_vals [of om] by (cases "vals om") auto

lemma child_ok:
  "lock_ok oc \<Longrightarrow> map_of (children oc) ck = Some (cs, info) \<Longrightarrow> om_ok cs \<and> in_step (top oc) cs"
  by (auto simp: lock_ok_def dest: map_of_SomeD)

section \<open>One overlay\<close>

lemma map_sp:
  "map h (sp_start ms) = sp_start (map h ms)"
  "map h (sp_rollback ms) = sp_rollback (map h ms)"
  "map h (sp_commit ms) = sp_commit (map h ms)"
proof -
  show "map h (sp_commit ms) = sp_commit (map h ms)" by (cases ms rule: sp_commit.cases) auto
qed (cases ms; auto)+

lemma map_sp_set: "map (\<lambda>m k. map_option fst (m k)) (sp_set k v at ms) = v_set k v (map (\<lambda>m k. map_option fst (m k)) ms)"
  by (cases ms) (auto simp: fun_eq_iff)

lemma set_vals:
  assumes "om_ok om"
  shows "\<exists>om'. om_set k v at om = Ok om' \<and> om_ok om' \<and> vals om' = v_set k v (vals om) \<and> in_step om om'"
  using om_set_ok [OF assms, of k v at] by (auto simp: vals_def map_sp_set in_step_def)

lemma clear_vals:
  assumes ok: "om_ok om"
  shows "\<exists>om'. clear_where (\<lambda>k _. P k) at om = Ok om' \<and> om_ok om' \<and> vals om' = v_clear P (vals om) \<and> in_step om om'"
proof -
  let ?ks = "map fst (filter (\<lambda>(k, v). P k) (changes om))"
  have c: "distinct (map fst (changes om))" "\<And>k. map_of (changes om) k \<noteq> Some []"
    using ok by (auto simp: om_ok_def chg_ok_def bt_ok_distinct)
  have "k \<in> set ?ks \<longleftrightarrow> P k \<and> map_of (changes om) k \<noteq> None" for k
    by (force simp: map_of_eq_None_iff)
  moreover have "map_of (changes om) k \<noteq> None \<longleftrightarrow> hd (abs_om om) k \<noteq> None" for k
    unfolding seen_abs [symmetric] using c(2) [of k] by (auto simp: seen_def om_get_def value_ref_def split: option.splits)
  ultimately have ks: "k \<in> set ?ks \<longleftrightarrow> P k \<and> hd (abs_om om) k \<noteq> None" for k by simp
  have "distinct ?ks" using c(1) by (simp add: distinct_map_filter)
  then have "sp_clear ?ks at (abs_om om) =
      (\<lambda>k. if P k \<and> hd (abs_om om) k \<noteq> None then Some (None, view_exts (hd (abs_om om)) k \<union> set_option at)
           else hd (abs_om om) k) # tl (abs_om om)"
    using sp_clear_view [of "abs_om om" ?ks at] unfolding ks by (simp add: abs_om_def)
  moreover obtain m ms where "abs_om om = m # ms" by (cases "abs_om om") (auto simp: abs_om_def)
  ultimately have "map (\<lambda>m k. map_option fst (m k)) (sp_clear ?ks at (abs_om om)) = v_clear P (vals om)"
    by (auto simp: vals_def fun_eq_iff)
  then show ?thesis
    using clear_where_ok [OF ok, of "\<lambda>k _. P k" at] by (auto simp: vals_def in_step_def)
qed

lemma modify_keeps:
  "om_modify k init at g om = Ok om' \<Longrightarrow>
   execution_mode om' = execution_mode om \<and> num_client_transactions om' = num_client_transactions om"
  by (auto simp: om_modify_def Let_def split: prod.splits option.splits)

lemma modify_vals:
  assumes ok: "om_ok om"
  shows "\<exists>om'. om_modify k init at g om = Ok om' \<and> om_ok om' \<and>
    vals om' = v_set k (g (case hd (vals om) k of None \<Rightarrow> Some init | Some v \<Rightarrow> v)) (vals om) \<and> in_step om om'"
proof -
  let ?m = "hd (abs_om om)"
  obtain om' at' where "om_modify k init at g om = Ok om'" "om_ok om'" "transaction_depth om' = transaction_depth om"
    "abs_om om' = sp_set k (g (case ?m k of None \<Rightarrow> Some init | Some (v, _) \<Rightarrow> v)) at' (abs_om om)"
    using modify_ok [OF ok, of k init at g] by blast
  moreover have "hd (vals om) k = map_option fst (?m k)" by (cases "abs_om om") (auto simp: vals_def abs_om_def)
  ultimately show ?thesis
    by (auto simp: vals_def map_sp_set in_step_def modify_keeps split: option.split)
qed

definition at_step :: "nat \<Rightarrow> ExecutionMode \<Rightarrow> nat \<Rightarrow> ('k, 'v) OverlayedMap \<Rightarrow> bool" where
  "at_step D M N om \<longleftrightarrow> transaction_depth om = D \<and> execution_mode om = M \<and> num_client_transactions om = N"

lemma start_vals:
  assumes "om_ok om" "in_step t om"
  shows "\<exists>om'. Ok (start_transaction om) = Ok om' \<and> om_ok om' \<and> vals om' = sp_start (vals om) \<and>
    at_step (Suc (transaction_depth t)) (execution_mode t) (num_client_transactions t) om'"
  using start_ok [OF assms(1)] assms(2)
  by (auto simp: vals_def map_sp in_step_def at_step_def start_transaction_def transaction_depth_def)

lemma closable_step: "in_step a b \<Longrightarrow> closable b \<longleftrightarrow> closable a"
  by (simp add: in_step_def closable_def has_open_runtime_transactions_def transaction_depth_def flip: length_greater_0_conv)

lemma rollback_vals:
  assumes "closable t" "om_ok om" "in_step t om"
  shows "\<exists>om'. rollback_transaction om = Ok om' \<and> om_ok om' \<and> vals om' = sp_rollback (vals om) \<and>
    at_step (transaction_depth t - 1) (execution_mode t) (num_client_transactions t) om'"
  using rollback_ok [of om] assms closable_step [of t om]
  by (auto simp: vals_def map_sp in_step_def at_step_def transaction_depth_def)

lemma commit_vals:
  assumes "closable t" "om_ok om" "in_step t om"
  shows "\<exists>om'. commit_transaction om = Ok om' \<and> om_ok om' \<and> vals om' = sp_commit (vals om) \<and>
    at_step (transaction_depth t - 1) (execution_mode t) (num_client_transactions t) om'"
  using commit_ok [of om] assms closable_step [of t om]
  by (auto simp: vals_def map_sp in_step_def at_step_def)

lemma enter_vals:
  assumes "execution_mode t = Client" "om_ok om" "in_step t om"
  shows "\<exists>om'. enter_runtime om = Ok om' \<and> om_ok om' \<and> vals om' = vals om \<and>
    at_step (transaction_depth t) Runtime (transaction_depth t) om'"
  using enter_ok [of om] assms by (auto simp: vals_def in_step_def at_step_def)

lemma exit_vals:
  assumes "execution_mode t = Runtime" "om_ok om" "in_step t om"
  shows "\<exists>om'. exit_runtime om = Ok om' \<and> om_ok om' \<and>
    vals om' = drop (transaction_depth t - num_client_transactions t) (vals om) \<and>
    at_step (num_client_transactions t) Client (num_client_transactions t) om'"
  using exit_ok [of om] assms by (auto simp: vals_def in_step_def at_step_def drop_map)

section \<open>All overlays\<close>

lemma for_children_ok:
  assumes "\<And>k cs info. (k, (cs, info)) \<in> set cts \<Longrightarrow> \<exists>cs'. f cs = Ok cs' \<and> R cs cs'"
  shows "\<exists>cts'. for_children f cts = Ok cts' \<and>
    list_all2 (\<lambda>(k, (cs, info)) (k', (cs', info')). k' = k \<and> info' = info \<and> R cs cs') cts cts'"
  using assms
proof (induction cts)
  case (Cons x cts)
  obtain k cs info where x: "x = (k, (cs, info))" by (cases x) auto
  have "\<exists>cs'. f cs = Ok cs' \<and> R cs cs'" if "(k, (cs, info)) \<in> set cts" for k cs info
    using Cons.prems [of k cs info] that by simp
  then obtain cts' where "for_children f cts = Ok cts'"
    "list_all2 (\<lambda>(k, (cs, info)) (k', (cs', info')). k' = k \<and> info' = info \<and> R cs cs') cts cts'"
    using Cons.IH by blast
  moreover obtain cs' where "f cs = Ok cs'" "R cs cs'" using Cons.prems [of k cs info] x by auto
  ultimately show ?case by (auto simp: x expect_def)
qed simp

lemma children_list_all2:
  assumes "list_all2 (\<lambda>(k, (cs, info)) (k', (cs', info')). k' = k \<and> info' = info \<and> R cs cs') cts cts'"
  shows "map fst cts' = map fst cts"
    and "rel_option (\<lambda>(cs, info) (cs', info'). info' = info \<and> R cs cs') (map_of cts ck) (map_of cts' ck)"
    and "(k, (cs', info)) \<in> set cts' \<Longrightarrow> \<exists>cs. (k, (cs, info)) \<in> set cts \<and> R cs cs'"
  using assms by (induction cts cts' rule: list_all2_induct) fastforce+

lemma bt_ok_keys: "map fst m' = map fst m \<Longrightarrow> bt_ok m \<Longrightarrow> bt_ok m'"
  by (simp add: bt_ok_def)

text \<open>
  The common step of the operations that touch every overlay: if \<open>f\<close> succeeds on each of them, keeps
  the invariant, turns the abstraction by \<open>F\<close> and moves depth, mode and client count the same way,
  the result is in lockstep and refines \<open>F\<close> on every stack.
\<close>

lemma each_step:
  assumes ok: "lock_ok oc"
    and t: "om_ok t" "vals t = F (vals (top oc))"
    and cs: "list_all2 (\<lambda>(k, (cs, info)) (k', (cs', info')). k' = k \<and> info' = info \<and>
        om_ok cs' \<and> vals cs' = F (vals cs) \<and> in_step t cs') (children oc) cts"
    and off: "om_ok o'" "vals o' = G (vals (offchain oc))" "in_step t o'"
    and none: "F (replicate (Suc (overlay_depth oc)) (\<lambda>_. None)) = replicate (Suc (transaction_depth t)) (\<lambda>_. None)"
  shows "lock_ok (oc\<lparr>top := t, children := cts, offchain := o'\<rparr>)"
    and "abs_oc (oc\<lparr>top := t, children := cts, offchain := o'\<rparr>) =
      each F G (abs_oc oc) \<lparr>v_mode := execution_mode t, v_client := num_client_transactions t\<rparr>"
proof -
  note l = children_list_all2 [where R = "\<lambda>cs cs'. om_ok cs' \<and> vals cs' = F (vals cs) \<and> in_step t cs'", OF cs]
  show "lock_ok (oc\<lparr>top := t, children := cts, offchain := o'\<rparr>)"
    using ok t off l(3) bt_ok_keys [OF l(1)] by (auto simp: lock_ok_def)
  have "child_stack (transaction_depth t) cts ck = F (child_stack (overlay_depth oc) (children oc) ck)" for ck
    using l(2) [of ck] none by (auto simp: child_stack_def elim!: option.rel_cases)
  then show "abs_oc (oc\<lparr>top := t, children := cts, offchain := o'\<rparr>) =
      each F G (abs_oc oc) \<lparr>v_mode := execution_mode t, v_client := num_client_transactions t\<rparr>"
    using t off by (simp add: abs_oc_def each_def overlay_depth_def fun_eq_iff)
qed

lemma each_ok:
  assumes ok: "lock_ok oc"
    and f: "\<And>cs. om_ok cs \<Longrightarrow> in_step (top oc) cs \<Longrightarrow>
      \<exists>cs'. f cs = Ok cs' \<and> om_ok cs' \<and> vals cs' = F (vals cs) \<and> at_step D M N cs'"
    and g: "\<And>cs. om_ok cs \<Longrightarrow> in_step (top oc) cs \<Longrightarrow>
      \<exists>cs'. g cs = Ok cs' \<and> om_ok cs' \<and> vals cs' = G (vals cs) \<and> at_step D M N cs'"
    and none: "F (replicate (Suc (overlay_depth oc)) (\<lambda>_. None)) = replicate (Suc D) (\<lambda>_. None)"
  shows "\<exists>t cts o'. f (top oc) = Ok t \<and> for_children f (children oc) = Ok cts \<and> g (offchain oc) = Ok o' \<and>
    lock_ok (oc\<lparr>top := t, children := cts, offchain := o'\<rparr>) \<and>
    abs_oc (oc\<lparr>top := t, children := cts, offchain := o'\<rparr>) = each F G (abs_oc oc) \<lparr>v_mode := M, v_client := N\<rparr>"
proof -
  obtain t where t: "f (top oc) = Ok t" "om_ok t" "vals t = F (vals (top oc))" "at_step D M N t"
    using f [of "top oc"] ok by (auto simp: lock_ok_def)
  obtain o' where o': "g (offchain oc) = Ok o'" "om_ok o'" "vals o' = G (vals (offchain oc))" "at_step D M N o'"
    using g [of "offchain oc"] ok by (auto simp: lock_ok_def)
  have "\<exists>cs'. f cs = Ok cs' \<and> om_ok cs' \<and> vals cs' = F (vals cs) \<and> in_step t cs'"
    if "(k, (cs, info)) \<in> set (children oc)" for k cs info
    using f [of cs] that ok t(4) by (fastforce simp: lock_ok_def at_step_def in_step_def)
  then obtain cts where cts: "for_children f (children oc) = Ok cts"
    "list_all2 (\<lambda>(k, (cs, info)) (k', (cs', info')). k' = k \<and> info' = info \<and>
        om_ok cs' \<and> vals cs' = F (vals cs) \<and> in_step t cs') (children oc) cts"
    using for_children_ok [where f = f and cts = "children oc" and R = "\<lambda>cs cs'. om_ok cs' \<and> vals cs' = F (vals cs) \<and> in_step t cs'"]
    by blast
  have at: "in_step t o'" "transaction_depth t = D" "execution_mode t = M" "num_client_transactions t = N"
    using o'(4) t(4) by (auto simp: at_step_def in_step_def)
  show ?thesis
    using each_step [where F = F and G = G, OF ok t(2,3) cts(2) o'(2,3)] none t(1) cts(1) o'(1) at by auto
qed

lemma empty_vals:
  fixes cs :: "('a::linorder, 'b) OverlayedMap"
  assumes "om_ok cs" "om_is_empty cs"
  shows "vals cs = replicate (Suc (transaction_depth cs)) (\<lambda>_. None)"
proof -
  have *: "stack (\<lambda>_. [] :: 'b InnerValue list) ds = replicate (Suc (length ds)) (\<lambda>_. None)" if "wf_stack (\<lambda>_. [] :: 'b InnerValue list) ds" for ds :: "'a list list"
    using that
  proof (induction ds)
    case (Cons d ds)
    then have "d = []" by (cases d) auto
    then show ?case using Cons by (simp add: see_def fun_eq_iff)
  qed (simp add: see_def fun_eq_iff)
  have "vers_of (changes cs) = (\<lambda>_. [])" using assms(2) by (simp add: om_is_empty_def vers_of_def or_default_def)
  then show ?thesis using assms(1) * [of "rev (dirty_keys cs)"] by (simp add: om_ok_def vals_def abs_om_def transaction_depth_def)
qed

lemma drop_empty_children:
  assumes ok: "lock_ok oc"
  defines "oc' \<equiv> oc\<lparr>children := filter (\<lambda>(_, (cs, _)). \<not> om_is_empty cs) (children oc)\<rparr>"
  shows "lock_ok oc' \<and> abs_oc oc' = abs_oc oc"
proof -
  let ?f = "filter (\<lambda>(_, (cs, _)). \<not> om_is_empty cs)"
  have d: "distinct (map fst (children oc))" "bt_ok (children oc)" using ok by (auto simp: lock_ok_def bt_ok_distinct)
  have bt: "bt_ok (?f (children oc))"
    using d(2) by (auto simp: bt_ok_def sorted_wrt_map sorted_wrt_filter)
  have "child_stack (overlay_depth oc) (?f (children oc)) ck = child_stack (overlay_depth oc) (children oc) ck" for ck
  proof (cases "map_of (children oc) ck")
    case None
    then have "map_of (?f (children oc)) ck = None" by (force simp: map_of_eq_None_iff)
    then show ?thesis using None by (simp add: child_stack_def)
  next
    case (Some c)
    then obtain cs info where c: "c = (cs, info)" "(ck, (cs, info)) \<in> set (children oc)" by (cases c) (auto dest: map_of_SomeD)
    have dt: "transaction_depth cs = overlay_depth oc" "om_ok cs"
      using child_ok [OF ok, of ck cs info] Some c by (auto simp: in_step_def overlay_depth_def)
    show ?thesis
    proof (cases "om_is_empty cs")
      case True
      have "map_of (?f (children oc)) ck = None"
        using d(1) c(2) True by (force simp: map_of_eq_None_iff dest: eq_key_imp_eq_value)
      then show ?thesis using Some c empty_vals [OF dt(2) True] dt(1) by (simp add: child_stack_def)
    next
      case False
      then have "map_of (?f (children oc)) ck = Some (cs, info)"
        using d(1) c(2) by (intro map_of_is_SomeI) (auto simp: distinct_map_filter)
      then show ?thesis using Some c by (simp add: child_stack_def)
    qed
  qed
  then show ?thesis using ok bt by (auto simp: lock_ok_def abs_oc_def overlay_depth_def fun_eq_iff oc'_def)
qed

section \<open>The operations\<close>

lemma v_closable_abs: "lock_ok oc \<Longrightarrow> v_closable (abs_oc oc) \<longleftrightarrow> closable (top oc)"
  by (auto simp: v_closable_def v_depth_def abs_oc_def length_vals closable_def has_open_runtime_transactions_def
      transaction_depth_def)

lemma close_err [simp]:
  "\<not> closable om \<Longrightarrow> rollback_transaction om = Err NoOpenTransaction"
  "\<not> closable om \<Longrightarrow> commit_transaction om = Err NoOpenTransaction"
  by (simp_all add: rollback_transaction_def commit_transaction_def close_not_closable)

lemma each_mode [simp]: "v_mode (each F G s) = v_mode s" "v_client (each F G s) = v_client s"
  by (simp_all add: each_def)

lemma abs_oc_mode [simp]: "v_mode (abs_oc oc) = execution_mode (top oc)" "v_client (abs_oc oc) = num_client_transactions (top oc)"
  by (simp_all add: abs_oc_def)

lemma vspec_same [simp]: "s\<lparr>v_mode := v_mode s, v_client := v_client s\<rparr> = (s :: vspec)"
  by simp

lemma overlay_start_ok:
  assumes ok: "lock_ok oc"
  shows "lock_ok (overlay_start oc) \<and> abs_oc (overlay_start oc) = each sp_start sp_start (abs_oc oc)"
proof -
  have c: "for_children (\<lambda>cs. Ok (start_transaction cs)) cts = Ok (map (\<lambda>(k, (cs, info)). (k, (start_transaction cs, info))) cts)" for cts
    by (induction cts) (auto simp: expect_def)
  show ?thesis
    using each_ok [where f = "\<lambda>cs. Ok (start_transaction cs)" and g = "\<lambda>cs. Ok (start_transaction cs)",
        OF ok start_vals start_vals]
    unfolding c by (auto simp: overlay_start_def overlay_depth_def)
qed

lemma overlay_rollback_ok:
  assumes ok: "lock_ok oc" "closable (top oc)"
  shows "\<exists>oc'. overlay_rollback oc = Ok oc' \<and> lock_ok oc' \<and> abs_oc oc' = each sp_rollback sp_rollback (abs_oc oc)"
proof -
  have "\<exists>d. overlay_depth oc = Suc d" using ok(2) by (cases "dirty_keys (top oc)") (auto simp: closable_def overlay_depth_def transaction_depth_def)
  then have "\<exists>t cts o'. rollback_transaction (top oc) = Ok t \<and> for_children rollback_transaction (children oc) = Ok cts \<and>
      rollback_transaction (offchain oc) = Ok o' \<and> lock_ok (oc\<lparr>top := t, children := cts, offchain := o'\<rparr>) \<and>
      abs_oc (oc\<lparr>top := t, children := cts, offchain := o'\<rparr>) = each sp_rollback sp_rollback (abs_oc oc)"
    using each_ok [where f = rollback_transaction and g = rollback_transaction and oc = oc,
        OF ok(1) rollback_vals [OF ok(2)] rollback_vals [OF ok(2)]]
    by (auto simp: overlay_depth_def)
  then obtain t cts o' where r: "rollback_transaction (top oc) = Ok t" "for_children rollback_transaction (children oc) = Ok cts"
    "rollback_transaction (offchain oc) = Ok o'" "lock_ok (oc\<lparr>top := t, children := cts, offchain := o'\<rparr>)"
    "abs_oc (oc\<lparr>top := t, children := cts, offchain := o'\<rparr>) = each sp_rollback sp_rollback (abs_oc oc)" by blast
  let ?x = "oc\<lparr>top := t, children := cts, offchain := o'\<rparr>"
  have "overlay_rollback oc = Ok (?x\<lparr>children := filter (\<lambda>(_, (cs, _)). \<not> om_is_empty cs) (children ?x)\<rparr>)"
    using r by (simp add: overlay_rollback_def expect_def)
  then show ?thesis using drop_empty_children [OF r(4)] unfolding r(5) by blast
qed

lemma overlay_commit_ok:
  assumes ok: "lock_ok oc" "closable (top oc)"
  shows "\<exists>oc'. overlay_commit oc = Ok oc' \<and> lock_ok oc' \<and> abs_oc oc' = each sp_commit sp_commit (abs_oc oc)"
proof -
  have "\<exists>d. overlay_depth oc = Suc d" using ok(2) by (cases "dirty_keys (top oc)") (auto simp: closable_def overlay_depth_def transaction_depth_def)
  then show ?thesis
    using each_ok [where f = commit_transaction and g = commit_transaction and oc = oc,
        OF ok(1) commit_vals [OF ok(2)] commit_vals [OF ok(2)]]
    by (auto simp: overlay_depth_def overlay_commit_def expect_def)
qed

lemma overlay_enter_ok:
  assumes ok: "lock_ok oc" "execution_mode (top oc) = Client"
  shows "\<exists>oc'. overlay_enter_runtime oc = Ok oc' \<and> lock_ok oc' \<and>
    abs_oc oc' = (abs_oc oc)\<lparr>v_mode := Runtime, v_client := overlay_depth oc\<rparr>"
  using each_ok [where f = enter_runtime and g = enter_runtime and oc = oc and F = id and G = id,
      OF ok(1), unfolded id_apply, OF enter_vals [OF ok(2)] enter_vals [OF ok(2)]]
  by (auto simp: overlay_depth_def overlay_enter_runtime_def expect_def each_def)

lemma overlay_exit_ok:
  assumes ok: "lock_ok oc" "execution_mode (top oc) = Runtime"
  defines "open_txs \<equiv> overlay_depth oc - num_client_transactions (top oc)"
  shows "\<exists>oc'. overlay_exit_runtime oc = Ok oc' \<and> lock_ok oc' \<and>
    abs_oc oc' = each (drop open_txs) (drop open_txs) (abs_oc oc) \<lparr>v_mode := Client\<rparr>"
proof -
  have "num_client_transactions (top oc) \<le> overlay_depth oc"
    using ok by (auto simp: lock_ok_def om_ok_def overlay_depth_def)
  then show ?thesis
    using each_ok [where f = exit_runtime and g = exit_runtime and oc = oc,
        OF ok(1) exit_vals [OF ok(2)] exit_vals [OF ok(2)]]
    unfolding drop_replicate
    by (auto simp: overlay_depth_def overlay_exit_runtime_def expect_def open_txs_def Suc_diff_le simp del: replicate.simps)
qed

lemma top_write:
  assumes "lock_ok oc" "om_ok t" "in_step (top oc) t"
  shows "lock_ok (oc\<lparr>top := t\<rparr>) \<and> abs_oc (oc\<lparr>top := t\<rparr>) = (abs_oc oc)\<lparr>v_top := vals t\<rparr>"
  using assms by (fastforce simp: lock_ok_def abs_oc_def overlay_depth_def in_step_def)

lemma child_write:
  assumes ok: "lock_ok oc"
    and f: "\<And>cs. om_ok cs \<Longrightarrow> \<exists>cs'. f cs = Ok cs' \<and> om_ok cs' \<and> vals cs' = F (vals cs) \<and> in_step cs cs'"
  shows "\<exists>oc'. with_child info f oc = Ok oc' \<and> lock_ok oc' \<and>
    abs_oc oc' = (abs_oc oc)\<lparr>v_child := (v_child (abs_oc oc))(storage_key info := F (v_child (abs_oc oc) (storage_key info)))\<rparr>"
proof -
  let ?k = "storage_key info"
  obtain cs info' where e: "child_entry info oc = (cs, info')" by fastforce
  have "om_ok cs \<and> in_step (top oc) cs \<and> vals cs = child_stack (overlay_depth oc) (children oc) ?k"
  proof (cases "map_of (children oc) ?k")
    case None
    have "om_is_empty (spawn_child (top oc) :: OverlayedChangeSet)" "om_ok (spawn_child (top oc) :: OverlayedChangeSet)"
      using spawn_child_ok ok by (auto simp: om_is_empty_def spawn_child_def lock_ok_def)
    then show ?thesis
      using None e empty_vals [of cs]
      by (auto simp: child_entry_def child_stack_def in_step_def spawn_child_def transaction_depth_def overlay_depth_def)
  next
    case (Some c)
    then show ?thesis using e child_ok [OF ok, of ?k cs info'] by (auto simp: child_entry_def child_stack_def)
  qed
  then have cs: "om_ok cs" "in_step (top oc) cs" "vals cs = child_stack (overlay_depth oc) (children oc) ?k" by auto
  obtain cs' where cs': "f cs = Ok cs'" "om_ok cs'" "vals cs' = F (vals cs)" "in_step cs cs'" using f [OF cs(1)] by blast
  let ?oc = "oc\<lparr>children := bt_insert ?k (cs', info') (children oc)\<rparr>"
  have "with_child info f oc = Ok ?oc" using e cs' by (simp add: with_child_def)
  moreover have "om_ok c \<and> in_step (top oc) c" if "(k, (c, i)) \<in> set (children ?oc)" for k c i
  proof -
    have "(k, (c, i)) = (?k, (cs', info')) \<or> (k, (c, i)) \<in> set (children oc)"
      using that set_bt_insert [of ?k "(cs', info')" "children oc"] by auto
    then show ?thesis using ok cs' in_step_trans [OF cs(2) cs'(4)] by (auto simp: lock_ok_def)
  qed
  then have "lock_ok ?oc" using ok by (auto simp: lock_ok_def)
  moreover have "v_child (abs_oc ?oc) = (v_child (abs_oc oc))(?k := F (v_child (abs_oc oc) ?k))"
    using cs(3) cs'(3) by (auto simp: abs_oc_def child_stack_def overlay_depth_def fun_eq_iff)
  then have "abs_oc ?oc = (abs_oc oc)\<lparr>v_child := (v_child (abs_oc oc))(?k := F (v_child (abs_oc oc) ?k))\<rparr>"
    by (simp add: abs_oc_def)
  ultimately show ?thesis by blast
qed

lemma off_write:
  assumes "lock_ok oc" "om_ok t" "in_step (offchain oc) t"
  shows "lock_ok (oc\<lparr>offchain := t\<rparr>) \<and> abs_oc (oc\<lparr>offchain := t\<rparr>) = (abs_oc oc)\<lparr>v_off := vals t\<rparr>"
  using assms by (auto simp: lock_ok_def abs_oc_def overlay_depth_def in_step_def)

end
