(* ===== verification/OverlayProperties.thy ===== *)
theory OverlayProperties
  imports OverlayRefinement
begin

text \<open>
  The properties of the two overlay theories. Any sequence of calls on the overlay behaves as the
  stacks of maps do and never panics. Nested transactions are an interface of their own: a program of
  writes and nested transactions has the effect of the writes it committed, for one change set, with the
  extrinsics it records, and for the whole overlay.
\<close>

section \<open>Sequences of calls\<close>

datatype OverlayWrite =
    SetStorage StorageKey "StorageValue option"
  | MutStorage StorageKey StorageValue "StorageValue \<Rightarrow> StorageValue"
  | SetChild ChildInfo StorageKey "StorageValue option"
  | ClearChild ChildInfo
  | ClearPrefix "u8 list"
  | ClearChildPrefix ChildInfo "u8 list"
  | SetOffchain "u8 list" "u8 list option"

datatype OverlayOp = Write OverlayWrite | Start | Rollback | Commit | Enter | Exit

fun apply_write :: "(u8 list \<Rightarrow> u32 option) \<Rightarrow> OverlayWrite \<Rightarrow> OverlayedChanges \<Rightarrow> (unit, OverlayedChanges) result" where
  "apply_write decode (SetStorage k v) = set_storage decode k v"
| "apply_write decode (MutStorage k init g) = value_mut_or_insert_with decode k init g"
| "apply_write decode (SetChild info k v) = set_child_storage decode info k v"
| "apply_write decode (ClearChild info) = clear_child_storage decode info"
| "apply_write decode (ClearPrefix p) = clear_prefix decode p"
| "apply_write decode (ClearChildPrefix info p) = clear_child_prefix decode info p"
| "apply_write decode (SetOffchain k v) = set_offchain_storage k v"

definition forget :: "('e, 'a) result \<Rightarrow> (unit, 'a) result" where
  "forget r = (case r of Ok a \<Rightarrow> Ok a | Err _ \<Rightarrow> Err () | Panic \<Rightarrow> Panic)"

fun apply_op :: "(u8 list \<Rightarrow> u32 option) \<Rightarrow> OverlayOp \<Rightarrow> OverlayedChanges \<Rightarrow> (unit, OverlayedChanges) result" where
  "apply_op decode (Write w) oc = apply_write decode w oc"
| "apply_op decode Start oc = Ok (overlay_start oc)"
| "apply_op decode Rollback oc = forget (overlay_rollback oc)"
| "apply_op decode Commit oc = forget (overlay_commit oc)"
| "apply_op decode Enter oc = forget (overlay_enter_runtime oc)"
| "apply_op decode Exit oc = forget (overlay_exit_runtime oc)"

text \<open>A refused call leaves the overlay as it is; \<open>None\<close> is a panic.\<close>

fun run_ops :: "(u8 list \<Rightarrow> u32 option) \<Rightarrow> OverlayOp list \<Rightarrow> OverlayedChanges \<Rightarrow> OverlayedChanges option" where
  "run_ops decode [] oc = Some oc"
| "run_ops decode (op # ops) oc =
     (case apply_op decode op oc of
        Ok oc' \<Rightarrow> run_ops decode ops oc'
      | Err _ \<Rightarrow> run_ops decode ops oc
      | Panic \<Rightarrow> None)"

definition fresh_overlay :: "bool \<Rightarrow> OverlayedChanges" where
  "fresh_overlay c = default_changes\<lparr>collect_extrinsics := c\<rparr>"

text \<open>The current values: of the top trie, of a child trie, of offchain indexing.\<close>

type_synonym current =
  "(StorageKey \<Rightarrow> StorageValue option option) \<times> (StorageKey \<Rightarrow> StorageKey \<Rightarrow> StorageValue option option) \<times>
   (StorageKey \<times> StorageKey \<Rightarrow> OffchainOverlayedChange option)"

definition reads :: "OverlayedChanges \<Rightarrow> current" where
  "reads oc = (\<lambda>k. storage k oc, \<lambda>ck k. child_storage (ParentKeyId ck) k oc, \<lambda>(p, k). offchain_get p k (offchain oc))"

section \<open>What they are to do\<close>

definition clear_vals_of :: "('k \<Rightarrow> bool) \<Rightarrow> ('k \<Rightarrow> 'w option option) \<Rightarrow> 'k \<Rightarrow> 'w option option" where
  "clear_vals_of P m = (\<lambda>k. if P k \<and> m k \<noteq> None then Some None else m k)"

fun write_eff :: "OverlayWrite \<Rightarrow> current \<Rightarrow> current" where
  "write_eff (SetStorage k v) (t, ch, off) = (t(k \<mapsto> v), ch, off)"
| "write_eff (MutStorage k init g) (t, ch, off) =
     (t(k \<mapsto> Some (g (case t k of None \<Rightarrow> init | Some None \<Rightarrow> [] | Some (Some x) \<Rightarrow> x))), ch, off)"
| "write_eff (SetChild info k v) (t, ch, off) = (t, ch(storage_key info := (ch (storage_key info))(k \<mapsto> v)), off)"
| "write_eff (ClearChild info) (t, ch, off) =
     (t, ch(storage_key info := clear_vals_of (\<lambda>_. True) (ch (storage_key info))), off)"
| "write_eff (ClearPrefix p) (t, ch, off) = (clear_vals_of (starts_with p) t, ch, off)"
| "write_eff (ClearChildPrefix info p) (t, ch, off) =
     (t, ch(storage_key info := clear_vals_of (starts_with p) (ch (storage_key info))), off)"
| "write_eff (SetOffchain k v) (t, ch, off) =
     (t, ch, off((STORAGE_PREFIX, k) \<mapsto> (case v of None \<Rightarrow> Remove | Some x \<Rightarrow> SetValue x)))"

definition v_cur :: "vspec \<Rightarrow> current" where
  "v_cur s = (hd (v_top s), \<lambda>ck. hd (v_child s ck), hd (v_off s))"

definition v_write :: "OverlayWrite \<Rightarrow> vspec \<Rightarrow> vspec" where
  "v_write w s =
     (case write_eff w (v_cur s) of (t, ch, off) \<Rightarrow>
        s\<lparr>v_top := t # tl (v_top s), v_child := (\<lambda>ck. ch ck # tl (v_child s ck)), v_off := off # tl (v_off s)\<rparr>)"

fun v_op :: "OverlayOp \<Rightarrow> vspec \<Rightarrow> vspec option" where
  "v_op (Write w) s = Some (v_write w s)"
| "v_op Start s = Some (each sp_start sp_start s)"
| "v_op Rollback s = (if v_closable s then Some (each sp_rollback sp_rollback s) else None)"
| "v_op Commit s = (if v_closable s then Some (each sp_commit sp_commit s) else None)"
| "v_op Enter s = (if v_mode s = Client then Some (s\<lparr>v_mode := Runtime, v_client := v_depth s\<rparr>) else None)"
| "v_op Exit s =
     (if v_mode s = Runtime
      then Some ((each (drop (v_depth s - v_client s)) (drop (v_depth s - v_client s)) s)\<lparr>v_mode := Client\<rparr>) else None)"

fun v_run :: "OverlayOp list \<Rightarrow> vspec \<Rightarrow> vspec" where
  "v_run [] s = s"
| "v_run (op # ops) s = v_run ops (case v_op op s of None \<Rightarrow> s | Some s' \<Rightarrow> s')"

section \<open>Simulation\<close>

lemma v_top_abs: "v_top (abs_oc oc) = vals (top oc)" "v_off (abs_oc oc) = vals (offchain oc)"
  by (simp_all add: abs_oc_def)

lemma length_child: "lock_ok oc \<Longrightarrow> length (v_child (abs_oc oc) ck) = Suc (overlay_depth oc)"
  using child_ok [of oc ck]
  by (auto simp: abs_oc_def child_stack_def length_vals in_step_def overlay_depth_def split: option.split)

lemma v_child_hd: "lock_ok oc \<Longrightarrow> hd (v_child (abs_oc oc) ck) # tl (v_child (abs_oc oc) ck) = v_child (abs_oc oc) ck"
  using length_child [of oc ck] by (cases "v_child (abs_oc oc) ck") auto

lemma vals_hd: "hd (vals om) # tl (vals om) = vals om"
  using vals_cases [of om] by auto

lemma v_set_hd: "ms \<noteq> [] \<Longrightarrow> v_set k v ms = (hd ms)(k \<mapsto> v) # tl ms"
  by (cases ms) auto

lemma v_clear_hd: "ms \<noteq> [] \<Longrightarrow> v_clear P ms = clear_vals_of P (hd ms) # tl ms"
  by (cases ms) (auto simp: clear_vals_of_def)

lemma vals_ne [simp]: "vals om \<noteq> []"
  using vals_cases [of om] by auto

lemma child_ne: "lock_ok oc \<Longrightarrow> v_child (abs_oc oc) ck \<noteq> []"
  using length_child [of oc ck] by auto

lemma reads_cur: "reads oc = v_cur (abs_oc oc)"
proof -
  have *: "(case om_get om k of None \<Rightarrow> None | Some x \<Rightarrow> value_ref x) = hd (vals om) k" for om :: "('a, 'b) OverlayedMap" and k
  proof -
    have "hd (vals om) k = map_option fst (seen om k)" by (simp add: vals_def seen_abs hd_map abs_om_def)
    then show ?thesis by (auto simp: seen_def split: option.split)
  qed
  show ?thesis
    by (auto simp: reads_def v_cur_def abs_oc_def child_stack_def storage_def child_storage_def offchain_get_def * fun_eq_iff
        split: option.split)
qed

lemma write_top:
  assumes ok: "lock_ok oc" and r: "om_ok t" "in_step (top oc) t" "vals t = h # tl (vals (top oc))"
    and w: "write_eff w (v_cur (abs_oc oc)) = (h, snd (v_cur (abs_oc oc)))"
  shows "lock_ok (oc\<lparr>top := t\<rparr>) \<and> abs_oc (oc\<lparr>top := t\<rparr>) = v_write w (abs_oc oc)"
  using top_write [OF ok r(1,2)] r(3) w ok
  by (simp add: v_write_def v_cur_def v_top_abs vals_hd v_child_hd)

lemma write_off:
  assumes ok: "lock_ok oc" and r: "om_ok t" "in_step (offchain oc) t" "vals t = h # tl (vals (offchain oc))"
    and w: "write_eff w (v_cur (abs_oc oc)) = (fst (v_cur (abs_oc oc)), fst (snd (v_cur (abs_oc oc))), h)"
  shows "lock_ok (oc\<lparr>offchain := t\<rparr>) \<and> abs_oc (oc\<lparr>offchain := t\<rparr>) = v_write w (abs_oc oc)"
  using off_write [OF ok r(1,2)] r(3) w ok
  by (simp add: v_write_def v_cur_def v_top_abs vals_hd v_child_hd)

lemma write_child:
  assumes ok: "lock_ok oc"
    and f: "\<And>cs. om_ok cs \<Longrightarrow> \<exists>cs'. f cs = Ok cs' \<and> om_ok cs' \<and> vals cs' = F (vals cs) \<and> in_step cs cs'"
    and F: "\<And>ms. ms \<noteq> [] \<Longrightarrow> F ms = h (hd ms) # tl ms"
    and w: "\<And>t ch off. write_eff w (t, ch, off) = (t, ch(storage_key info := h (ch (storage_key info))), off)"
  shows "\<exists>oc'. with_child info f oc = Ok oc' \<and> lock_ok oc' \<and> abs_oc oc' = v_write w (abs_oc oc)"
proof -
  let ?k = "storage_key info" and ?s = "abs_oc oc"
  obtain oc' where oc': "with_child info f oc = Ok oc'" "lock_ok oc'"
    "abs_oc oc' = ?s\<lparr>v_child := (v_child ?s)(?k := F (v_child ?s ?k))\<rparr>"
    using child_write [where F = F and f = f, OF ok f] by blast
  have "(\<lambda>ck. ((\<lambda>ck. hd (v_child ?s ck))(?k := h (hd (v_child ?s ?k)))) ck # tl (v_child ?s ck)) =
      (v_child ?s)(?k := F (v_child ?s ?k))"
    using F [OF child_ne [OF ok]] v_child_hd [OF ok] by (auto simp: fun_eq_iff)
  then have "abs_oc oc' = v_write w ?s"
    using oc'(3) by (simp add: v_write_def v_cur_def w v_top_abs vals_hd)
  then show ?thesis using oc' by blast
qed

lemma write_ok:
  assumes ok: "lock_ok oc"
  shows "\<exists>oc'. apply_write decode w oc = Ok oc' \<and> lock_ok oc' \<and> abs_oc oc' = v_write w (abs_oc oc)"
proof -
  let ?at = "extrinsic_index decode oc"
  have om: "om_ok (top oc)" "om_ok (offchain oc)" using ok by (auto simp: lock_ok_def)
  show ?thesis
  proof (cases w)
    case (SetStorage k v)
    obtain t where "om_set k v ?at (top oc) = Ok t" "om_ok t" "vals t = v_set k v (vals (top oc))" "in_step (top oc) t"
      using set_vals [OF om(1)] by blast
    then show ?thesis
      using write_top [OF ok, of t _ w] SetStorage by (simp add: set_storage_def v_set_hd v_cur_def v_top_abs)
  next
    case (MutStorage k init g)
    let ?g = "\<lambda>v. Some (g (case v of None \<Rightarrow> [] | Some x \<Rightarrow> x))"
    obtain t where "om_modify k init ?at ?g (top oc) = Ok t" "om_ok t" "in_step (top oc) t"
      "vals t = v_set k (?g (case hd (vals (top oc)) k of None \<Rightarrow> Some init | Some v \<Rightarrow> v)) (vals (top oc))"
      using modify_vals [OF om(1)] by blast
    moreover have "?g (case x of None \<Rightarrow> Some init | Some v \<Rightarrow> v) =
        Some (g (case x of None \<Rightarrow> init | Some None \<Rightarrow> [] | Some (Some x) \<Rightarrow> x))" for x
      by (auto split: option.split)
    ultimately show ?thesis
      using write_top [OF ok, of t _ w] MutStorage by (simp add: value_mut_or_insert_with_def v_set_hd v_cur_def v_top_abs)
  next
    case (ClearPrefix p)
    obtain t where "clear_where (\<lambda>k _. starts_with p k) ?at (top oc) = Ok t" "om_ok t"
      "vals t = v_clear (starts_with p) (vals (top oc))" "in_step (top oc) t"
      using clear_vals [OF om(1)] by blast
    then show ?thesis
      using write_top [OF ok, of t _ w] ClearPrefix by (simp add: clear_prefix_def v_clear_hd v_cur_def v_top_abs)
  next
    case (SetOffchain k v)
    let ?v = "case v of None \<Rightarrow> Remove | Some x \<Rightarrow> SetValue x"
    obtain t where "om_set (STORAGE_PREFIX, k) ?v None (offchain oc) = Ok t" "om_ok t"
      "vals t = v_set (STORAGE_PREFIX, k) ?v (vals (offchain oc))" "in_step (offchain oc) t"
      using set_vals [OF om(2)] by blast
    then show ?thesis
      using write_off [OF ok, of t _ w] SetOffchain
      by (cases v) (simp_all add: set_offchain_storage_def offchain_set_def offchain_remove_def v_set_hd v_cur_def v_top_abs)
  next
    case (SetChild info k v)
    then show ?thesis
      using write_child [where f = "om_set k v ?at" and F = "v_set k v" and h = "\<lambda>m. m(k \<mapsto> v)", OF ok set_vals v_set_hd, where w = w and info = info]
      by (simp add: set_child_storage_def)
  next
    case (ClearChild info)
    then show ?thesis
      using write_child [where f = "clear_where (\<lambda>_ _. True) ?at" and F = "v_clear (\<lambda>_. True)", OF ok clear_vals v_clear_hd, where w = w and info = info]
      by (simp add: clear_child_storage_def)
  next
    case (ClearChildPrefix info p)
    then show ?thesis
      using write_child [where f = "clear_where (\<lambda>k _. starts_with p k) ?at" and F = "v_clear (starts_with p)",
          OF ok clear_vals v_clear_hd, where w = w and info = info]
      by (simp add: clear_child_prefix_def)
  qed
qed

lemma v_depth_abs [simp]: "v_depth (abs_oc oc) = overlay_depth oc"
  by (simp add: v_depth_def abs_oc_def length_vals overlay_depth_def)

lemma op_ok:
  assumes ok: "lock_ok oc"
  shows "case v_op op (abs_oc oc) of
      Some s \<Rightarrow> (\<exists>oc'. apply_op decode op oc = Ok oc' \<and> lock_ok oc' \<and> abs_oc oc' = s)
    | None \<Rightarrow> apply_op decode op oc = Err ()"
proof (cases op)
  case (Write w)
  then show ?thesis using write_ok [OF ok] by simp
next
  case Start
  then show ?thesis using overlay_start_ok [OF ok] by simp
next
  case Rollback
  then show ?thesis using overlay_rollback_ok [OF ok] v_closable_abs [OF ok]
    by (auto simp: forget_def overlay_rollback_def)
next
  case Commit
  then show ?thesis using overlay_commit_ok [OF ok] v_closable_abs [OF ok]
    by (auto simp: forget_def overlay_commit_def)
next
  case Enter
  then show ?thesis using overlay_enter_ok [OF ok]
    by (cases "execution_mode (top oc)") (auto simp: forget_def overlay_enter_runtime_def enter_runtime_def)
next
  case Exit
  then show ?thesis using overlay_exit_ok [OF ok]
    by (cases "execution_mode (top oc)") (auto simp: forget_def overlay_exit_runtime_def exit_runtime_def)
qed

lemma run_ok:
  "lock_ok oc \<Longrightarrow> \<exists>oc'. run_ops decode ops oc = Some oc' \<and> lock_ok oc' \<and> abs_oc oc' = v_run ops (abs_oc oc)"
proof (induction ops arbitrary: oc)
  case (Cons op ops)
  then show ?case using op_ok [OF Cons.prems, where op = op and decode = decode] by (fastforce split: option.splits)
qed simp

lemma fresh_ok: "lock_ok (fresh_overlay c) \<and> abs_oc (fresh_overlay c) = v_init"
proof -
  have v: "vals default_map = [\<lambda>_. None]" by (simp add: vals_def default_ok)
  show ?thesis
    by (auto simp: fresh_overlay_def default_changes_def lock_ok_def default_ok in_step_def abs_oc_def v v_init_def
        child_stack_def fun_eq_iff overlay_depth_def)
      (simp_all add: default_map_def transaction_depth_def)
qed

text \<open>Every overlay that a run leads to is well-formed.\<close>

lemma reached_ok: "run_ops decode ops (fresh_overlay c) = Some oc \<Longrightarrow> lock_ok oc"
  using run_ok [of "fresh_overlay c" decode ops] fresh_ok [of c] by auto

section \<open>Nested transactions\<close>

text \<open>A program: writes, and nested transactions that are committed (\<open>True\<close>) or rolled back.\<close>

datatype 'w prog = PWrite 'w | PTx bool "'w prog list"

fun exec :: "('w \<Rightarrow> 's \<Rightarrow> ('e, 's) result) \<Rightarrow> ('s \<Rightarrow> 's) \<Rightarrow> ('s \<Rightarrow> ('f, 's) result) \<Rightarrow> ('s \<Rightarrow> ('f, 's) result) \<Rightarrow> 'w prog \<Rightarrow> 's \<Rightarrow> (unit, 's) result"
  and execs :: "('w \<Rightarrow> 's \<Rightarrow> ('e, 's) result) \<Rightarrow> ('s \<Rightarrow> 's) \<Rightarrow> ('s \<Rightarrow> ('f, 's) result) \<Rightarrow> ('s \<Rightarrow> ('f, 's) result) \<Rightarrow> 'w prog list \<Rightarrow> 's \<Rightarrow> (unit, 's) result" where
  "exec w st rb cm (PWrite x) s = forget (w x s)"
| "exec w st rb cm (PTx keep ps) s = and_then (execs w st rb cm ps (st s)) (\<lambda>s'. forget (if keep then cm s' else rb s'))"
| "execs w st rb cm [] s = Ok s"
| "execs w st rb cm (p # ps) s = and_then (exec w st rb cm p s) (execs w st rb cm ps)"

text \<open>Its effect: that of the writes no enclosing transaction rolled back.\<close>

fun eff_of :: "('w \<Rightarrow> 'c \<Rightarrow> 'c) \<Rightarrow> 'w prog \<Rightarrow> 'c \<Rightarrow> 'c" and effs_of :: "('w \<Rightarrow> 'c \<Rightarrow> 'c) \<Rightarrow> 'w prog list \<Rightarrow> 'c \<Rightarrow> 'c" where
  "eff_of e (PWrite x) c = e x c"
| "eff_of e (PTx keep ps) c = (if keep then effs_of e ps c else c)"
| "effs_of e [] c = c"
| "effs_of e (p # ps) c = effs_of e ps (eff_of e p c)"

lemma forget_Ok [simp]: "forget (Ok x) = Ok x"
  by (simp add: forget_def)

locale nested_transactions =
  fixes inv :: "'s \<Rightarrow> bool"
    and abs :: "'s \<Rightarrow> 'a"
    and cur :: "'a \<Rightarrow> 'c"
    and peel :: "'a \<Rightarrow> 'a"
    and level :: "'s \<Rightarrow> 'l"
    and can_close :: "'l \<Rightarrow> bool"
    and down :: "'l \<Rightarrow> 'l"
    and put :: "'w \<Rightarrow> 's \<Rightarrow> ('e, 's) result"
    and eff :: "'w \<Rightarrow> 'c \<Rightarrow> 'c"
    and start :: "'s \<Rightarrow> 's"
    and rollback :: "'s \<Rightarrow> ('f, 's) result"
    and commit :: "'s \<Rightarrow> ('f, 's) result"
  assumes start_law: "inv s \<Longrightarrow> inv (start s) \<and> cur (abs (start s)) = cur (abs s) \<and> peel (abs (start s)) = abs s \<and>
      can_close (level (start s)) \<and> down (level (start s)) = level s"
    and rollback_law: "inv s \<Longrightarrow> can_close (level s) \<Longrightarrow>
      \<exists>s'. rollback s = Ok s' \<and> inv s' \<and> abs s' = peel (abs s) \<and> level s' = down (level s)"
    and commit_law: "inv s \<Longrightarrow> can_close (level s) \<Longrightarrow>
      \<exists>s'. commit s = Ok s' \<and> inv s' \<and> cur (abs s') = cur (abs s) \<and> peel (abs s') = peel (peel (abs s)) \<and> level s' = down (level s)"
    and write_law: "inv s \<Longrightarrow>
      \<exists>s'. put w s = Ok s' \<and> inv s' \<and> cur (abs s') = eff w (cur (abs s)) \<and> peel (abs s') = peel (abs s) \<and> level s' = level s"
begin

lemma list_ok:
  assumes "\<And>p s. p \<in> set ps \<Longrightarrow> inv s \<Longrightarrow> \<exists>s'. exec put start rollback commit p s = Ok s' \<and> inv s' \<and>
      cur (abs s') = eff_of eff p (cur (abs s)) \<and> peel (abs s') = peel (abs s) \<and> level s' = level s" "inv s"
  shows "\<exists>s'. execs put start rollback commit ps s = Ok s' \<and> inv s' \<and>
      cur (abs s') = effs_of eff ps (cur (abs s)) \<and> peel (abs s') = peel (abs s) \<and> level s' = level s"
  using assms
proof (induction ps arbitrary: s)
  case (Cons p ps)
  obtain s1 where s1: "exec put start rollback commit p s = Ok s1" "inv s1" "cur (abs s1) = eff_of eff p (cur (abs s))"
    "peel (abs s1) = peel (abs s)" "level s1 = level s"
    using Cons.prems(1) [of p s] Cons.prems(2) by auto
  obtain s2 where "execs put start rollback commit ps s1 = Ok s2" "inv s2" "cur (abs s2) = effs_of eff ps (cur (abs s1))"
    "peel (abs s2) = peel (abs s1)" "level s2 = level s1"
    using Cons.IH [OF Cons.prems(1) s1(2)] by auto
  then show ?case using s1 by simp
qed simp

lemma exec_ok:
  "inv s \<Longrightarrow> \<exists>s'. exec put start rollback commit p s = Ok s' \<and> inv s' \<and>
      cur (abs s') = eff_of eff p (cur (abs s)) \<and> peel (abs s') = peel (abs s) \<and> level s' = level s"
proof (induction p arbitrary: s)
  case (PWrite w)
  then show ?case using write_law [of s w] by auto
next
  case (PTx keep ps)
  note st = start_law [OF PTx.prems]
  obtain s1 where s1: "execs put start rollback commit ps (start s) = Ok s1" "inv s1"
    "cur (abs s1) = effs_of eff ps (cur (abs (start s)))" "peel (abs s1) = peel (abs (start s))" "level s1 = level (start s)"
    using list_ok [of ps "start s"] PTx.IH st by blast
  then have "can_close (level s1)" "down (level s1) = level s" "peel (abs s1) = abs s" using st by auto
  then show ?case
    using rollback_law [of s1] commit_law [of s1] s1 st by auto
qed

lemma execs_ok:
  "inv s \<Longrightarrow> \<exists>s'. execs put start rollback commit ps s = Ok s' \<and> inv s' \<and>
      cur (abs s') = effs_of eff ps (cur (abs s)) \<and> peel (abs s') = peel (abs s) \<and> level s' = level s"
  using list_ok exec_ok by blast

end

definition om_write :: "'k::linorder \<times> 'v \<times> u32 option \<Rightarrow> ('k, 'v) OverlayedMap \<Rightarrow> (unit, ('k, 'v) OverlayedMap) result" where
  "om_write w om = (case w of (k, v, at) \<Rightarrow> om_set k v at om)"

definition om_eff :: "'k \<times> 'v \<times> u32 option \<Rightarrow> ('k, 'v) view \<Rightarrow> ('k, 'v) view" where
  "om_eff w m = (case w of (k, v, at) \<Rightarrow> m(k \<mapsto> (v, view_exts m k \<union> set_option at)))"

definition tx_level :: "('k, 'v) OverlayedMap \<Rightarrow> nat \<times> ExecutionMode \<times> nat" where
  "tx_level om = (transaction_depth om, execution_mode om, num_client_transactions om)"

definition may_close :: "nat \<times> ExecutionMode \<times> nat \<Rightarrow> bool" where
  "may_close l = (case l of (d, m, c) \<Rightarrow> (if m = Runtime then c else 0) < d)"

definition one_down :: "nat \<times> ExecutionMode \<times> nat \<Rightarrow> nat \<times> ExecutionMode \<times> nat" where
  "one_down l = (case l of (d, m, c) \<Rightarrow> (d - 1, m, c))"

lemma may_close_closable: "may_close (tx_level om) \<longleftrightarrow> closable om"
  by (auto simp: may_close_def tx_level_def closable_def has_open_runtime_transactions_def transaction_depth_def)

lemma level_start:
  "om_ok om \<Longrightarrow> may_close (tx_level (start_transaction om)) \<and> one_down (tx_level (start_transaction om)) = tx_level om"
  by (auto simp: may_close_def one_down_def tx_level_def start_transaction_def transaction_depth_def om_ok_def)

lemma sp_laws:
  "ms \<noteq> [] \<Longrightarrow> hd (sp_start ms) = hd ms" "ms \<noteq> [] \<Longrightarrow> sp_rollback (sp_start ms) = ms"
  "hd (sp_commit ms) = hd ms" "sp_rollback (sp_commit ms) = sp_rollback (sp_rollback ms)"
  "sp_rollback (x # tl ms) = tl ms" "sp_rollback ms = tl ms"
  by (cases ms rule: sp_commit.cases; simp)+

interpretation change_set: nested_transactions om_ok abs_om hd sp_rollback tx_level may_close one_down om_write om_eff
  start_transaction rollback_transaction commit_transaction
proof
  fix s :: "('a::linorder, 'b) OverlayedMap" and w
  assume ok: "om_ok s"
  show "om_ok (start_transaction s) \<and> hd (abs_om (start_transaction s)) = hd (abs_om s) \<and>
      sp_rollback (abs_om (start_transaction s)) = abs_om s \<and>
      may_close (tx_level (start_transaction s)) \<and> one_down (tx_level (start_transaction s)) = tx_level s"
    using start_ok [OF ok] level_start [OF ok] sp_laws(1,2) [of "abs_om s"] by (simp add: abs_om_def)
  show "\<exists>s'. om_write w s = Ok s' \<and> om_ok s' \<and> hd (abs_om s') = om_eff w (hd (abs_om s)) \<and>
      sp_rollback (abs_om s') = sp_rollback (abs_om s) \<and> tx_level s' = tx_level s"
  proof -
    obtain k v at where w: "w = (k, v, at)" by (cases w) auto
    obtain m ms where "abs_om s = m # ms" by (cases "abs_om s") (auto simp: abs_om_def)
    then show ?thesis using om_set_ok [OF ok, of k v at] by (auto simp: w om_write_def om_eff_def tx_level_def)
  qed
  assume "may_close (tx_level s)"
  then have c: "closable s" by (simp add: may_close_closable)
  show "\<exists>s'. rollback_transaction s = Ok s' \<and> om_ok s' \<and> abs_om s' = sp_rollback (abs_om s) \<and> tx_level s' = one_down (tx_level s)"
    using rollback_ok [OF ok c] by (auto simp: one_down_def tx_level_def transaction_depth_def)
  show "\<exists>s'. commit_transaction s = Ok s' \<and> om_ok s' \<and> hd (abs_om s') = hd (abs_om s) \<and>
      sp_rollback (abs_om s') = sp_rollback (sp_rollback (abs_om s)) \<and> tx_level s' = one_down (tx_level s)"
    using commit_ok [OF ok c] sp_laws(3,4) [of "abs_om s"]
    by (auto simp: one_down_def tx_level_def)
qed

lemma length_commit: "1 < length ms \<Longrightarrow> length (sp_commit ms) = length ms - 1"
  by (cases ms rule: sp_commit.cases) auto

lemma v_lengths:
  assumes "lock_ok oc"
  shows "length (v_top (abs_oc oc)) = Suc (overlay_depth oc)" "length (v_off (abs_oc oc)) = Suc (overlay_depth oc)"
    "length (v_child (abs_oc oc) ck) = Suc (overlay_depth oc)"
  using assms length_child [OF assms] by (auto simp: abs_oc_def length_vals lock_ok_def in_step_def overlay_depth_def)

lemma v_ne:
  assumes "lock_ok oc"
  shows "v_top (abs_oc oc) \<noteq> []" "v_off (abs_oc oc) \<noteq> []" "v_child (abs_oc oc) ck \<noteq> []"
  using v_lengths [OF assms] by (metis length_0_conv nat.distinct(1))+

lemma abs_oc_level:
  "abs_oc oc' = s \<Longrightarrow> tx_level (top oc') = (v_depth s, v_mode s, v_client s)"
  by (auto simp: tx_level_def overlay_depth_def)

interpretation overlay: nested_transactions lock_ok abs_oc v_cur "each sp_rollback sp_rollback" "\<lambda>oc. tx_level (top oc)"
  may_close one_down "apply_write decode" write_eff overlay_start overlay_rollback overlay_commit
  for decode
proof
  fix s w
  assume ok: "lock_ok s"
  note ne = v_ne [OF ok]
  have om: "om_ok (top s)" using ok by (simp add: lock_ok_def)
  show "lock_ok (overlay_start s) \<and> v_cur (abs_oc (overlay_start s)) = v_cur (abs_oc s) \<and>
      each sp_rollback sp_rollback (abs_oc (overlay_start s)) = abs_oc s \<and>
      may_close (tx_level (top (overlay_start s))) \<and> one_down (tx_level (top (overlay_start s))) = tx_level (top s)"
    using overlay_start_ok [OF ok] level_start [OF om] ne
    by (simp add: each_def v_cur_def sp_laws(1,2)) (simp add: overlay_start_def)
  show "\<exists>s'. apply_write decode w s = Ok s' \<and> lock_ok s' \<and> v_cur (abs_oc s') = write_eff w (v_cur (abs_oc s)) \<and>
      each sp_rollback sp_rollback (abs_oc s') = each sp_rollback sp_rollback (abs_oc s) \<and> tx_level (top s') = tx_level (top s)"
  proof -
    obtain s' where s': "apply_write decode w s = Ok s'" "lock_ok s'" "abs_oc s' = v_write w (abs_oc s)"
      using write_ok [OF ok] by blast
    moreover have "v_cur (v_write w (abs_oc s)) = write_eff w (v_cur (abs_oc s))"
      "each sp_rollback sp_rollback (v_write w (abs_oc s)) = each sp_rollback sp_rollback (abs_oc s)"
      "v_depth (v_write w (abs_oc s)) = v_depth (abs_oc s)"
      "v_mode (v_write w (abs_oc s)) = v_mode (abs_oc s)" "v_client (v_write w (abs_oc s)) = v_client (abs_oc s)"
      using v_lengths(1) [OF ok]
      by (auto simp: v_write_def v_cur_def each_def v_depth_def sp_laws(6) split: prod.split)
    ultimately show ?thesis using abs_oc_level [OF s'(3)] abs_oc_level [of s] by auto
  qed
  assume "may_close (tx_level (top s))"
  then have c: "closable (top s)" by (simp add: may_close_closable)
  show "\<exists>s'. overlay_rollback s = Ok s' \<and> lock_ok s' \<and> abs_oc s' = each sp_rollback sp_rollback (abs_oc s) \<and>
      tx_level (top s') = one_down (tx_level (top s))"
    using overlay_rollback_ok [OF ok c] abs_oc_level [of _ "each sp_rollback sp_rollback (abs_oc s)"] v_lengths(1) [OF ok]
    by (auto simp: one_down_def v_depth_def each_def tx_level_def overlay_depth_def sp_laws(6))
  have "0 < overlay_depth s" using c by (auto simp: closable_def overlay_depth_def transaction_depth_def)
  then show "\<exists>s'. overlay_commit s = Ok s' \<and> lock_ok s' \<and> v_cur (abs_oc s') = v_cur (abs_oc s) \<and>
      each sp_rollback sp_rollback (abs_oc s') = each sp_rollback sp_rollback (each sp_rollback sp_rollback (abs_oc s)) \<and>
      tx_level (top s') = one_down (tx_level (top s))"
    using overlay_commit_ok [OF ok c] abs_oc_level [of _ "each sp_commit sp_commit (abs_oc s)"] v_lengths(1) [OF ok]
    by (auto simp: one_down_def v_depth_def each_def tx_level_def overlay_depth_def v_cur_def sp_laws(3,4) length_commit)
qed

section \<open>Calls into the runtime\<close>

text \<open>The \<open>n\<close> oldest maps of a stack.\<close>

definition oldest :: "nat \<Rightarrow> 'm list \<Rightarrow> 'm list" where
  "oldest n ms = drop (length ms - n) ms"

lemma oldest_simps:
  "n \<le> length ms \<Longrightarrow> oldest n (m # ms) = oldest n ms"
  "n < length ms \<Longrightarrow> oldest n (tl ms) = oldest n ms"
  "n < length ms \<Longrightarrow> oldest n (x # tl ms) = oldest n ms"
  by (auto simp: oldest_def Suc_diff_le) (cases ms; auto simp: Suc_diff_le)+

lemma oldest_ops:
  "n < length ms \<Longrightarrow> oldest n (sp_start ms) = oldest n ms"
  "n < length ms \<Longrightarrow> oldest n (sp_rollback ms) = oldest n ms"
  "Suc n < length ms \<Longrightarrow> oldest n (sp_commit ms) = oldest n ms"
  "0 < length ms \<Longrightarrow> length (sp_start ms) = Suc (length ms)"
  by (cases ms rule: sp_commit.cases; auto simp: oldest_simps)+

definition in_call :: "nat \<Rightarrow> OverlayedChanges \<Rightarrow> bool" where
  "in_call n oc \<longleftrightarrow> lock_ok oc \<and> execution_mode (top oc) = Runtime \<and> num_client_transactions (top oc) = n \<and> n \<le> overlay_depth oc"

lemma abs_level_iff:
  "overlay_depth oc = v_depth (abs_oc oc)" "execution_mode (top oc) = v_mode (abs_oc oc)"
  "num_client_transactions (top oc) = v_client (abs_oc oc)"
  by simp_all

lemma v_op_frame:
  assumes ok: "in_call n oc" and op: "v_op op (abs_oc oc) = Some s" "op \<noteq> Exit"
  shows "each (oldest n) (oldest n) s = each (oldest n) (oldest n) (abs_oc oc) \<and> v_mode s = Runtime \<and> v_client s = n \<and> n \<le> v_depth s"
proof -
  have lk: "lock_ok oc" and m: "execution_mode (top oc) = Runtime" "num_client_transactions (top oc) = n" "n \<le> overlay_depth oc"
    using ok by (auto simp: in_call_def)
  note l = v_lengths [OF lk]
  have "n < overlay_depth oc" if "v_closable (abs_oc oc)" using that m by (simp add: v_closable_def)
  then show ?thesis
    using op m l by (cases op)
      (auto simp: each_def oldest_ops oldest_simps v_write_def v_depth_def length_commit sp_laws(6)
        split: if_splits prod.splits)
qed

lemma call_frame:
  assumes "in_call n oc" "Exit \<notin> set ops"
  shows "\<exists>oc'. run_ops decode ops oc = Some oc' \<and> in_call n oc' \<and>
    each (oldest n) (oldest n) (abs_oc oc') = each (oldest n) (oldest n) (abs_oc oc)"
  using assms
proof (induction ops arbitrary: oc)
  case (Cons op ops)
  have lk: "lock_ok oc" using Cons.prems by (simp add: in_call_def)
  note o = op_ok [OF lk, where op = op and decode = decode]
  show ?case
  proof (cases "v_op op (abs_oc oc)")
    case None
    then show ?thesis using o Cons by auto
  next
    case (Some s)
    obtain oc1 where oc1: "apply_op decode op oc = Ok oc1" "lock_ok oc1" "abs_oc oc1 = s" using o Some by auto
    have f: "each (oldest n) (oldest n) s = each (oldest n) (oldest n) (abs_oc oc) \<and> v_mode s = Runtime \<and> v_client s = n \<and> n \<le> v_depth s"
      by (rule v_op_frame [OF Cons.prems(1) Some]) (use Cons.prems(2) in auto)
    then have "in_call n oc1" using oc1 by (auto simp: in_call_def)
    then show ?thesis using Cons.IH [of oc1] Cons.prems(2) oc1 f by auto
  qed
qed simp

lemma enter_call:
  assumes "lock_ok oc" "execution_mode (top oc) = Client"
  shows "\<exists>oc'. overlay_enter_runtime oc = Ok oc' \<and> in_call (overlay_depth oc) oc' \<and>
    abs_oc oc' = (abs_oc oc)\<lparr>v_mode := Runtime, v_client := overlay_depth oc\<rparr> \<and> overlay_depth oc' = overlay_depth oc"
proof -
  obtain oc' where oc': "overlay_enter_runtime oc = Ok oc'" "lock_ok oc'"
    "abs_oc oc' = (abs_oc oc)\<lparr>v_mode := Runtime, v_client := overlay_depth oc\<rparr>"
    using overlay_enter_ok [OF assms] by blast
  then have "overlay_depth oc' = overlay_depth oc" "execution_mode (top oc') = Runtime" "num_client_transactions (top oc') = overlay_depth oc"
    using abs_level_iff [of oc'] by (simp_all add: v_depth_def v_lengths(1) [OF assms(1)])
  then show ?thesis using oc' by (simp add: in_call_def)
qed

lemma exit_call:
  assumes "in_call n oc"
  shows "\<exists>oc'. overlay_exit_runtime oc = Ok oc' \<and> lock_ok oc' \<and> execution_mode (top oc') = Client \<and> overlay_depth oc' = n \<and>
    abs_oc oc' = (each (oldest (Suc n)) (oldest (Suc n)) (abs_oc oc))\<lparr>v_mode := Client\<rparr>"
proof -
  have ok: "lock_ok oc" "execution_mode (top oc) = Runtime" "num_client_transactions (top oc) = n" "n \<le> overlay_depth oc"
    using assms by (auto simp: in_call_def)
  note l = v_lengths [OF ok(1)]
  obtain oc' where oc': "overlay_exit_runtime oc = Ok oc'" "lock_ok oc'"
    "abs_oc oc' = (each (drop (overlay_depth oc - n)) (drop (overlay_depth oc - n)) (abs_oc oc))\<lparr>v_mode := Client\<rparr>"
    using overlay_exit_ok [OF ok(1,2)] ok(3) by auto
  have e: "each (drop (overlay_depth oc - n)) (drop (overlay_depth oc - n)) (abs_oc oc) = each (oldest (Suc n)) (oldest (Suc n)) (abs_oc oc)"
    using l ok(4) by (simp add: each_def oldest_def)
  have "overlay_depth oc' = n" "execution_mode (top oc') = Client"
    using abs_level_iff [of oc'] oc'(3) l(1) ok(4) by (simp_all add: v_depth_def each_def)
  then show ?thesis using oc' e by auto
qed

lemma peel_oldest:
  assumes "lock_ok oc" "overlay_depth oc = n"
  shows "each sp_rollback sp_rollback (abs_oc oc) = each (oldest n) (oldest n) (abs_oc oc)"
  using v_lengths [OF assms(1)] assms(2) by (simp add: each_def oldest_def sp_laws(6) drop_Suc)

lemma oldest_oldest: "oldest n (oldest (Suc n) ms) = oldest n ms"
proof -
  have "length ms - (length ms - Suc n + n) + (length ms - Suc n) = length ms - n" by arith
  then show ?thesis by (simp add: oldest_def)
qed

lemma run_ops_append: "run_ops decode (xs @ ys) oc = Option.bind (run_ops decode xs oc) (run_ops decode ys)"
  by (induction xs arbitrary: oc) (auto split: result.split)

lemma drain_children_ok:
  assumes "\<And>k cs info. (k, (cs, info)) \<in> set cts \<Longrightarrow> om_ok cs \<and> transaction_depth cs = 0"
  shows "\<exists>r. drain_children cts = Ok r \<and>
    (\<forall>ck k. Option.bind (map_of r ck) (\<lambda>(kvs, _). map_of kvs k) =
       Option.bind (map_of cts ck) (\<lambda>(cs, _). map_option fst (seen cs k)))"
  using assms
proof (induction cts)
  case (Cons x cts)
  obtain ck cs info where x: "x = (ck, (cs, info))" by (cases x) auto
  obtain r where r: "drain_children cts = Ok r" "\<forall>ck k. Option.bind (map_of r ck) (\<lambda>(kvs, _). map_of kvs k) =
       Option.bind (map_of cts ck) (\<lambda>(cs, _). map_option fst (seen cs k))"
    using Cons.IH Cons.prems by (metis list.set_intros(2))
  obtain kvs where "drain_commited cs = Ok kvs" "\<forall>k. map_of kvs k = map_option fst (seen cs k)"
    using drain_ok [of cs] Cons.prems [of ck cs info] x by auto
  then show ?case using r by (auto simp: x)
qed simp

lemma run_reads:
  "\<exists>oc. run_ops decode ops (fresh_overlay c) = Some oc \<and> reads oc = v_cur (v_run ops v_init) \<and>
     overlay_depth oc = v_depth (v_run ops v_init)"
proof -
  obtain oc where "run_ops decode ops (fresh_overlay c) = Some oc" "abs_oc oc = v_run ops v_init"
    using run_ok [of "fresh_overlay c" decode ops] fresh_ok [of c] by auto
  then show ?thesis using reads_cur [of oc] v_depth_abs [of oc] by auto
qed

section \<open>Properties\<close>

text \<open>C23. Whatever sequence of writes, transactions and runtime calls is applied to an empty overlay, no
  step panics, and reading the top trie, any child trie or the offchain index returns what the
  specification's stacks of maps hold on top.\<close>

theorem overlay_refines_stacks:
  "\<exists>oc. run_ops decode ops (fresh_overlay c) = Some oc \<and> reads oc = v_cur (v_run ops v_init) \<and>
     overlay_depth oc = v_depth (v_run ops v_init)"
  by (rule run_reads)

text \<open>C24. A program of writes and nested transactions, run on any overlay that calls lead to, succeeds,
  leaves the transaction depth as it was, and changes what is read by exactly the writes that no
  enclosing transaction rolled back.\<close>

theorem overlay_nested_transactions:
  assumes "run_ops decode ops (fresh_overlay c) = Some oc"
  shows "\<exists>oc'. execs (apply_write decode) overlay_start overlay_rollback overlay_commit ps oc = Ok oc' \<and>
    reads oc' = effs_of write_eff ps (reads oc) \<and> overlay_depth oc' = overlay_depth oc"
  using overlay.execs_ok [OF reached_ok [OF assms], of decode ps]
  by (auto simp: reads_cur tx_level_def overlay_depth_def)

theorem overlay_nested_transactions_witness:
  "\<exists>oc'. execs (apply_write (\<lambda>_. None)) overlay_start overlay_rollback overlay_commit
       [PTx True [PWrite (SetStorage [1] (Some [2])), PTx False [PWrite (ClearPrefix [])]]] (fresh_overlay True) = Ok oc' \<and>
     storage [1] oc' = Some (Some [2]) \<and> overlay_depth oc' = 0"
  using overlay_nested_transactions [of "\<lambda>_. None" "[]" True "fresh_overlay True"
      "[PTx True [PWrite (SetStorage [1] (Some [2])), PTx False [PWrite (ClearPrefix [])]]]"]
  by (auto simp: reads_def overlay_depth_def fresh_overlay_def default_changes_def default_map_def transaction_depth_def fun_eq_iff)

text \<open>C25. The transactions a client has open when it calls into the runtime are out of the runtime's
  reach: whatever the call does, it returns with the client's transaction depth, and if the client then rolls its
  transaction back it is where rolling back before the call would have put it.\<close>

theorem runtime_cannot_touch_client_transactions:
  assumes "run_ops decode pre (fresh_overlay c) = Some oc" "execution_mode (top oc) = Client" "0 < overlay_depth oc"
    and "Exit \<notin> set call"
  shows "\<exists>oc' late early. run_ops decode (Enter # call @ [Exit]) oc = Some oc' \<and> overlay_depth oc' = overlay_depth oc \<and>
    overlay_rollback oc' = Ok late \<and> overlay_rollback oc = Ok early \<and> reads late = reads early"
proof -
  let ?n = "overlay_depth oc"
  have ok: "lock_ok oc" by (rule reached_ok [OF assms(1)])
  obtain oc1 where oc1: "overlay_enter_runtime oc = Ok oc1" "in_call ?n oc1"
    "abs_oc oc1 = (abs_oc oc)\<lparr>v_mode := Runtime, v_client := ?n\<rparr>"
    using enter_call [OF ok assms(2)] by blast
  obtain oc2 where oc2: "run_ops decode call oc1 = Some oc2" "in_call ?n oc2"
    "each (oldest ?n) (oldest ?n) (abs_oc oc2) = each (oldest ?n) (oldest ?n) (abs_oc oc1)"
    using call_frame [OF oc1(2) assms(4)] by blast
  obtain oc3 where oc3: "overlay_exit_runtime oc2 = Ok oc3" "lock_ok oc3" "execution_mode (top oc3) = Client" "overlay_depth oc3 = ?n"
    "abs_oc oc3 = (each (oldest (Suc ?n)) (oldest (Suc ?n)) (abs_oc oc2))\<lparr>v_mode := Client\<rparr>"
    using exit_call [OF oc2(2)] by blast
  have run: "run_ops decode (Enter # call @ [Exit]) oc = Some oc3"
    using oc1(1) oc2(1) oc3(1) by (simp add: run_ops_append)
  have "closable (top oc)" "closable (top oc3)"
    using assms(2,3) oc3(3,4) by (auto simp: closable_def overlay_depth_def transaction_depth_def)
  then obtain late early where b: "overlay_rollback oc3 = Ok late" "abs_oc late = each sp_rollback sp_rollback (abs_oc oc3)"
    "overlay_rollback oc = Ok early" "abs_oc early = each sp_rollback sp_rollback (abs_oc oc)"
    using overlay_rollback_ok [OF ok] overlay_rollback_ok [OF oc3(2)] by blast
  have "v_cur (abs_oc late) = v_cur (each (oldest ?n) (oldest ?n) (each (oldest (Suc ?n)) (oldest (Suc ?n)) (abs_oc oc2)))"
    using b(2) peel_oldest [OF oc3(2,4)] oc3(5) by (simp add: each_def v_cur_def)
  also have "\<dots> = v_cur (each (oldest ?n) (oldest ?n) (abs_oc oc2))" by (simp add: each_def oldest_oldest)
  also have "\<dots> = v_cur (abs_oc early)"
    using oc2(3) oc1(3) b(4) peel_oldest [OF ok refl] by (simp add: each_def v_cur_def)
  finally show ?thesis using run oc3(4) b(1,3) by (auto simp: reads_cur)
qed

theorem runtime_cannot_touch_client_transactions_witness:
  "\<exists>oc oc' late early. run_ops (\<lambda>_. None) [Start] (fresh_overlay False) = Some oc \<and>
     run_ops (\<lambda>_. None) (Enter # [Write (SetStorage [1] None), Rollback, Start] @ [Exit]) oc = Some oc' \<and>
     overlay_depth oc' = 1 \<and> overlay_rollback oc' = Ok late \<and> overlay_rollback oc = Ok early \<and> reads late = reads early"
  using runtime_cannot_touch_client_transactions [of "\<lambda>_. None" "[Start]" False "overlay_start (fresh_overlay False)"
      "[Write (SetStorage [1] None), Rollback, Start]"]
  by (auto simp: overlay_start_def overlay_depth_def fresh_overlay_def default_changes_def default_map_def
      transaction_depth_def start_transaction_def)

text \<open>A transaction the runtime leaves open when the call returns is rolled back: leaving the runtime
  restores what was read, and the depth, from before that transaction was started.\<close>

theorem exit_rolls_back_dangling:
  assumes "run_ops decode pre (fresh_overlay c) = Some oc" "execution_mode (top oc) = Client"
  shows "\<exists>oc1 oc2 oc3. overlay_enter_runtime oc = Ok oc1 \<and>
    execs (apply_write decode) overlay_start overlay_rollback overlay_commit ps (overlay_start oc1) = Ok oc2 \<and>
    overlay_exit_runtime oc2 = Ok oc3 \<and> reads oc3 = reads oc \<and> overlay_depth oc3 = overlay_depth oc"
proof -
  let ?n = "overlay_depth oc" and ?peel = "each sp_rollback sp_rollback"
  have ok: "lock_ok oc" by (rule reached_ok [OF assms(1)])
  obtain oc1 where oc1: "overlay_enter_runtime oc = Ok oc1" "in_call ?n oc1"
    "abs_oc oc1 = (abs_oc oc)\<lparr>v_mode := Runtime, v_client := ?n\<rparr>" "overlay_depth oc1 = ?n"
    using enter_call [OF ok assms(2)] by blast
  have ok1: "lock_ok oc1" using oc1(2) by (simp add: in_call_def)
  note st = overlay.start_law [OF ok1]
  obtain oc2 where oc2: "execs (apply_write decode) overlay_start overlay_rollback overlay_commit ps (overlay_start oc1) = Ok oc2"
    "lock_ok oc2" "?peel (abs_oc oc2) = abs_oc oc1" "tx_level (top oc2) = tx_level (top (overlay_start oc1))"
    using overlay.execs_ok [of "overlay_start oc1" decode ps] st by auto
  have d2: "overlay_depth oc2 = Suc ?n" "in_call ?n oc2"
    using oc2(2,4) oc1(2,4)
    by (auto simp: tx_level_def overlay_start_def start_transaction_def overlay_depth_def transaction_depth_def in_call_def)
  obtain oc3 where oc3: "overlay_exit_runtime oc2 = Ok oc3" "overlay_depth oc3 = ?n"
    "abs_oc oc3 = (each (oldest (Suc ?n)) (oldest (Suc ?n)) (abs_oc oc2))\<lparr>v_mode := Client\<rparr>"
    using exit_call [OF d2(2)] by blast
  have "v_cur (abs_oc oc3) = v_cur (abs_oc oc1)"
    using oc3(3) peel_oldest [OF oc2(2) d2(1)] oc2(3) by (simp add: v_cur_def flip: each_def)
  then show ?thesis using oc1 oc2 oc3 by (auto simp: reads_cur v_cur_def)
qed

theorem exit_rolls_back_dangling_witness:
  "\<exists>oc1 oc2 oc3. overlay_enter_runtime (fresh_overlay True) = Ok oc1 \<and>
    execs (apply_write (\<lambda>_. None)) overlay_start overlay_rollback overlay_commit [PWrite (SetStorage [7] (Some [8]))] (overlay_start oc1) = Ok oc2 \<and>
    overlay_exit_runtime oc2 = Ok oc3 \<and> storage [7] oc3 = None"
  using exit_rolls_back_dangling [of "\<lambda>_. None" "[]" True "fresh_overlay True" "[PWrite (SetStorage [7] (Some [8]))]"]
  by (auto simp: fresh_overlay_def default_changes_def default_map_def reads_def storage_def om_get_def fun_eq_iff)

text \<open>C26. In one change set, a program of writes and nested transactions leaves for every key the value
  and the extrinsics of exactly the writes that no enclosing transaction rolled back.\<close>

theorem change_set_tracks_extrinsics:
  "\<exists>om. execs om_write start_transaction rollback_transaction commit_transaction ps default_map = Ok om \<and>
     seen om = effs_of om_eff ps (\<lambda>_. None) \<and> transaction_depth om = 0"
  using change_set.execs_ok [of default_map ps]
  by (auto simp: default_ok seen_abs tx_level_def transaction_depth_def) (simp add: default_map_def)



text \<open>C28. With no transaction open, draining the overlay succeeds, hands over the top trie's changes in
  ascending order of their keys, and in them and in the changes of every child each key has the value that reading it
  returned; the overlay's tries are empty afterwards.\<close>

theorem drain_committed_is_what_was_read:
  assumes "run_ops decode ops (fresh_overlay c) = Some oc" "overlay_depth oc = 0"
  shows "\<exists>oc' t cts. overlay_drain_committed oc = Ok (oc', t, cts) \<and> sorted_wrt (<) (map fst t) \<and>
    (\<forall>k. map_of t k = storage k oc) \<and>
    (\<forall>ck k. Option.bind (map_of cts ck) (\<lambda>(kvs, _). map_of kvs k) = child_storage (ParentKeyId ck) k oc) \<and>
    overlay_is_empty oc'"
proof -
  have ok: "lock_ok oc" by (rule reached_ok [OF assms(1)])
  have sn: "map_option fst (seen om k) = (case om_get om k of None \<Rightarrow> None | Some x \<Rightarrow> value_ref x)" for om :: OverlayedChangeSet and k
    by (auto simp: seen_def split: option.split)
  obtain t where "drain_commited (top oc) = Ok t" "bt_ok t" "\<forall>k. map_of t k = storage k oc"
    using drain_ok [of "top oc"] ok assms(2) by (auto simp: lock_ok_def overlay_depth_def storage_def sn)
  moreover have "om_ok cs \<and> transaction_depth cs = 0" if "(k, (cs, info)) \<in> set (children oc)" for k cs info
    using that ok assms(2) by (auto simp: lock_ok_def in_step_def overlay_depth_def)
  then obtain cts where "drain_children (children oc) = Ok cts"
    "\<forall>ck k. Option.bind (map_of cts ck) (\<lambda>(kvs, _). map_of kvs k) = child_storage (ParentKeyId ck) k oc"
    using drain_children_ok [of "children oc"]
    by (auto simp: child_storage_def sn Option.bind_def split: option.split prod.split)
  ultimately show ?thesis
    by (simp add: overlay_drain_committed_def bt_ok_def overlay_is_empty_def om_is_empty_def default_map_def)
qed

theorem drain_committed_is_what_was_read_witness:
  "\<exists>oc oc' t cts. run_ops (\<lambda>_. None) [Start, Write (SetStorage [3] (Some [4])), Commit] (fresh_overlay False) = Some oc \<and>
     overlay_drain_committed oc = Ok (oc', t, cts) \<and> map_of t [3] = Some (Some [4]) \<and> overlay_is_empty oc'"
proof -
  let ?ops = "[Start, Write (SetStorage [3] (Some [4])), Commit]"
  obtain oc where oc: "run_ops (\<lambda>_. None) ?ops (fresh_overlay False) = Some oc" "reads oc = v_cur (v_run ?ops v_init)"
    "overlay_depth oc = v_depth (v_run ?ops v_init)"
    using run_reads by blast
  have "v_run ?ops v_init = v_write (SetStorage [3] (Some [4])) v_init"
    by (simp add: v_init_def each_def v_write_def v_cur_def v_closable_def v_depth_def)
  then have "storage [3] oc = Some (Some [4])" "overlay_depth oc = 0"
    using oc(2,3) by (auto simp: reads_def v_cur_def v_write_def v_init_def v_depth_def fun_eq_iff)
  then show ?thesis using drain_committed_is_what_was_read [OF oc(1)] oc(1) by auto
qed

text \<open>The next changed key after a key is the least changed key above it, and there is none only if
  no key above it has been changed.\<close>

theorem next_key_is_least:
  assumes "run_ops decode ops (fresh_overlay c) = Some oc"
  shows "case next_storage_key_change k oc of
      Some (k', e) \<Rightarrow> k < k' \<and> value_ref e \<noteq> None \<and> storage k' oc = value_ref e \<and> (\<forall>j. k < j \<longrightarrow> j < k' \<longrightarrow> storage j oc = None)
    | None \<Rightarrow> (\<forall>j. k < j \<longrightarrow> storage j oc = None)"
proof -
  have ok: "bt_ok (changes (top oc))" "\<And>k. map_of (changes (top oc)) k \<noteq> Some []"
    using reached_ok [OF assms] by (auto simp: lock_ok_def om_ok_def chg_ok_def)
  show ?thesis
  proof (cases "next_storage_key_change k oc")
    case None
    then show ?thesis
      using bt_next_None [of k "changes (top oc)"] by (simp add: next_storage_key_change_def next_change_def storage_def om_get_def)
  next
    case (Some x)
    obtain k' e where x: "x = (k', e)" by (cases x)
    have "k < k' \<and> map_of (changes (top oc)) k' = Some e \<and> (\<forall>j. k < j \<and> j < k' \<longrightarrow> map_of (changes (top oc)) j = None)"
      by (rule bt_next_Some [OF ok(1)]) (use Some x in \<open>simp add: next_storage_key_change_def next_change_def\<close>)
    then show ?thesis using Some x ok(2) [of k'] by (auto simp: storage_def om_get_def value_ref_def)
  qed
qed

theorem next_key_is_least_witness:
  "\<exists>oc. run_ops (\<lambda>_. None) [Write (SetStorage [2] None), Write (SetStorage [9] (Some []))] (fresh_overlay False) = Some oc \<and>
     (case next_storage_key_change [2] oc of
        Some (k', e) \<Rightarrow> [2] < k' \<and> value_ref e \<noteq> None \<and> storage k' oc = value_ref e \<and> (\<forall>j. [2] < j \<longrightarrow> j < k' \<longrightarrow> storage j oc = None)
      | None \<Rightarrow> (\<forall>j. [2] < j \<longrightarrow> storage j oc = None))"
proof -
  obtain oc where "run_ops (\<lambda>_. None) [Write (SetStorage [2] None), Write (SetStorage [9] (Some []))] (fresh_overlay False) = Some oc"
    using run_ok fresh_ok by blast
  then show ?thesis using next_key_is_least by blast
qed

end
