(* ===== verification/ForkTree.thy ===== *)
theory ForkTree
  imports Prelude
begin

text \<open>
  The tree of competing forks, \<^verbatim>\<open>utils/fork-tree/src/lib.rs\<close>: nodes with a hash, a number and data, grouped
  under the roots, imported as blocks arrive and cut down as blocks are finalized. Ancestry is the caller's: \<open>desc base target\<close>
  is the function \<open>is_descendent_of\<close>, which may fail. An operation that takes \<open>&mut self\<close> returns the tree
  it leaves, with its result, on every path; \<open>Panic\<close> is an index out of range or a failed \<open>expect\<close>.
\<close>

section \<open>Data\<close>

datatype 'e ForkError = Duplicate | UnfinalizedAncestor | Revert | ClientError 'e

datatype 'v FinalizationResult = Changed "'v option" | Unchanged

datatype ('h, 'n, 'v) Node =
  Node (node_hash: 'h) (node_number: 'n) (node_data: 'v) (node_children: "('h, 'n, 'v) Node list")

record ('h, 'n, 'v) ForkTree =
  roots :: "('h, 'n, 'v) Node list"
  best_finalized_number :: "'n option"

datatype 't FindOutcome = Found 't | Failure bool | Abort

type_synonym ('h, 'e) descendent = "'h \<Rightarrow> 'h \<Rightarrow> 'e + bool"

definition new_tree :: "('h, 'n, 'v) ForkTree" where
  "new_tree = \<lparr>roots = [], best_finalized_number = None\<rparr>"

text \<open>The question mark on a client call.\<close>

definition ask :: "'e + bool \<Rightarrow> ('e ForkError, bool) result" where
  "ask r = (case r of Inl e \<Rightarrow> Err (ClientError e) | Inr b \<Rightarrow> Ok b)"

text \<open>Rust's short-circuiting \<open>&&\<close> and \<open>||\<close> with a fallible right operand.\<close>

definition andalso :: "bool \<Rightarrow> ('e, bool) result \<Rightarrow> ('e, bool) result" where
  "andalso a b = (if a then b else Ok False)"

definition orelse :: "bool \<Rightarrow> ('e, bool) result \<Rightarrow> ('e, bool) result" where
  "orelse a b = (if a then Ok True else b)"

section \<open>Nodes\<close>

fun max_depth :: "('h, 'n, 'v) Node \<Rightarrow> nat" and max_depths :: "('h, 'n, 'v) Node list \<Rightarrow> nat \<Rightarrow> nat" where
  "max_depth (Node h n v cs) = max_depths cs 0 + 1"
| "max_depths [] m = m"
| "max_depths (c # cs) m = max_depths cs (max (max_depth c) m)"

definition by_depth :: "('h, 'n, 'v) Node list \<Rightarrow> ('h, 'n, 'v) Node list" where
  "by_depth cs = sort_key (\<lambda>c. - int (max_depth c)) cs"

lemma size_by_depth: "c \<in> set (by_depth cs) \<Longrightarrow> size c < Suc (size_list size cs)"
  by (simp add: by_depth_def size_list_estimation' less_Suc_eq_le)

function node_rebalance :: "('h, 'n, 'v) Node \<Rightarrow> ('h, 'n, 'v) Node" where
  "node_rebalance (Node h n v cs) = Node h n v (map node_rebalance (by_depth cs))"
  by pat_completeness auto
termination
  by (relation "measure size") (auto dest: size_by_depth)

fun node_map :: "('h \<Rightarrow> 'n \<Rightarrow> 'v \<Rightarrow> 'w) \<Rightarrow> ('h, 'n, 'v) Node \<Rightarrow> ('h, 'n, 'w) Node" where
  "node_map f (Node h n v cs) = Node h n (f h n v) (map (node_map f) cs)"

fun node_import ::
    "('h, 'e) descendent \<Rightarrow> 'h \<Rightarrow> 'n::linorder \<Rightarrow> 'v \<Rightarrow> ('h, 'n, 'v) Node \<Rightarrow>
     ('h, 'n, 'v) Node \<times> ('e ForkError, ('h \<times> 'n \<times> 'v) option) result"
  and import_children ::
    "('h, 'e) descendent \<Rightarrow> 'h \<Rightarrow> 'n \<Rightarrow> 'v \<Rightarrow> ('h, 'n, 'v) Node list \<Rightarrow>
     ('h, 'n, 'v) Node list \<times> ('e ForkError, ('h \<times> 'n \<times> 'v) option) result" where
  "node_import desc hash number data (Node h n v cs) =
     (if h = hash then (Node h n v cs, Err Duplicate)
      else if number \<le> n then (Node h n v cs, Ok (Some (hash, number, data)))
      else case import_children desc hash number data cs of
             (cs', Ok (Some (hash, number, data))) \<Rightarrow>
               (case ask (desc h hash) of
                  Ok True \<Rightarrow> (Node h n v (cs' @ [Node hash number data []]), Ok None)
                | Ok False \<Rightarrow> (Node h n v cs', Ok (Some (hash, number, data)))
                | Err e \<Rightarrow> (Node h n v cs', Err e)
                | Panic \<Rightarrow> (Node h n v cs', Panic))
           | (cs', r) \<Rightarrow> (Node h n v cs', r))"
| "import_children desc hash number data [] = ([], Ok (Some (hash, number, data)))"
| "import_children desc hash number data (c # cs) =
     (case node_import desc hash number data c of
        (c', Ok (Some (hash, number, data))) \<Rightarrow>
          (case import_children desc hash number data cs of (cs', r) \<Rightarrow> (c' # cs', r))
      | (c', r) \<Rightarrow> (c' # cs, r))"

fun node_find_index ::
    "('h, 'e) descendent \<Rightarrow> ('v \<Rightarrow> bool) \<Rightarrow> 'h \<Rightarrow> 'n::linorder \<Rightarrow> ('h, 'n, 'v) Node \<Rightarrow> ('e ForkError, nat list FindOutcome) result"
  and find_index_children ::
    "('h, 'e) descendent \<Rightarrow> ('v \<Rightarrow> bool) \<Rightarrow> 'h \<Rightarrow> 'n::linorder \<Rightarrow> nat \<Rightarrow> ('h, 'n, 'v) Node list \<Rightarrow> ('e ForkError, nat list FindOutcome) result" where
  "node_find_index desc P hash number (Node h n v cs) =
     (if number < n then Ok (Failure False)
      else and_then (find_index_children desc P hash number 0 cs) (\<lambda>r.
        case r of
          Failure known \<Rightarrow>
            and_then (orelse known (ask (desc h hash))) (\<lambda>is_desc.
              Ok (if is_desc \<and> P v then Found [] else Failure is_desc))
        | _ \<Rightarrow> Ok r))"
| "find_index_children desc P hash number i [] = Ok (Failure False)"
| "find_index_children desc P hash number i (c # cs) =
     and_then (node_find_index desc P hash number c) (\<lambda>r.
       case r of
         Abort \<Rightarrow> Ok Abort
       | Found x \<Rightarrow> Ok (Found (x @ [i]))
       | Failure True \<Rightarrow> Ok (Failure True)
       | Failure False \<Rightarrow> find_index_children desc P hash number (Suc i) cs)"

text \<open>
  Following a path of indices, popped off the end of the vector: the node there, and the node changed there
  by \<open>f\<close>, what the caller does with the mutable reference.
\<close>

fun walk :: "nat list \<Rightarrow> ('h, 'n, 'v) Node \<Rightarrow> ('e, ('h, 'n, 'v) Node) result" where
  "walk [] cur = Ok cur"
| "walk (i # is) cur = (if i < length (node_children cur) then walk is (node_children cur ! i) else Panic)"

fun walk_mut :: "(('h, 'n, 'v) Node \<Rightarrow> ('h, 'n, 'v) Node) \<Rightarrow> nat list \<Rightarrow> ('h, 'n, 'v) Node \<Rightarrow> ('e, ('h, 'n, 'v) Node) result" where
  "walk_mut f [] cur = Ok (f cur)"
| "walk_mut f (i # is) (Node h n v cs) =
     (if i < length cs then and_then (walk_mut f is (cs ! i)) (\<lambda>c. Ok (Node h n v (cs[i := c]))) else Panic)"

definition node_find_where ::
    "('h, 'e) descendent \<Rightarrow> ('v \<Rightarrow> bool) \<Rightarrow> 'h \<Rightarrow> 'n::linorder \<Rightarrow> ('h, 'n, 'v) Node \<Rightarrow> ('e ForkError, ('h, 'n, 'v) Node FindOutcome) result" where
  "node_find_where desc P hash number nd =
     and_then (node_find_index desc P hash number nd) (\<lambda>r.
       case r of
         Abort \<Rightarrow> Ok Abort
       | Failure f \<Rightarrow> Ok (Failure f)
       | Found indexes \<Rightarrow> and_then (walk (rev indexes) nd) (\<lambda>cur. Ok (Found cur)))"

definition node_find_where_mut ::
    "('h, 'e) descendent \<Rightarrow> ('v \<Rightarrow> bool) \<Rightarrow> (('h, 'n::linorder, 'v) Node \<Rightarrow> ('h, 'n, 'v) Node) \<Rightarrow> 'h \<Rightarrow> 'n \<Rightarrow> ('h, 'n, 'v) Node \<Rightarrow>
     ('e ForkError, ('h, 'n, 'v) Node FindOutcome) result" where
  "node_find_where_mut desc P f hash number nd =
     and_then (node_find_index desc P hash number nd) (\<lambda>r.
       case r of
         Abort \<Rightarrow> Ok Abort
       | Failure b \<Rightarrow> Ok (Failure b)
       | Found indexes \<Rightarrow> and_then (walk_mut f (rev indexes) nd) (\<lambda>nd'. Ok (Found nd')))"

section \<open>Iteration\<close>

text \<open>The iterators keep a stack, the next node last; what is left of one is the list of nodes it yields.\<close>

function node_iter_from :: "('h, 'n, 'v) Node list \<Rightarrow> ('h, 'n, 'v) Node list" where
  "node_iter_from stack =
     (if stack = [] then []
      else last stack # node_iter_from (butlast stack @ rev (node_children (last stack))))"
  by pat_completeness auto
termination
proof (relation "measure (\<lambda>st. sum_list (map size st))")
  fix stack :: "('h, 'n, 'v) Node list"
  assume "stack \<noteq> []"
  then obtain st h n v cs where st: "stack = st @ [Node h n v cs]" by (metis Node.exhaust append_butlast_last_id)
  have "sum_list (map size (rev cs)) \<le> size_list size cs" by (simp add: size_list_conv_sum_list flip: rev_map)
  then show "(butlast stack @ rev (node_children (last stack)), stack) \<in> measure (\<lambda>st. sum_list (map size st))"
    by (simp add: st)
qed simp

declare node_iter_from.simps [simp del]

definition node_iter :: "('h, 'n, 'v) ForkTree \<Rightarrow> ('h, 'n, 'v) Node list" where
  "node_iter t = node_iter_from (rev (roots t))"

definition entry_of :: "('h, 'n, 'v) Node \<Rightarrow> 'h \<times> 'n \<times> 'v" where
  "entry_of nd = (node_hash nd, node_number nd, node_data nd)"

definition tree_iter :: "('h, 'n, 'v) ForkTree \<Rightarrow> ('h \<times> 'n \<times> 'v) list" where
  "tree_iter t = map entry_of (node_iter t)"

definition tree_roots :: "('h, 'n, 'v) ForkTree \<Rightarrow> ('h \<times> 'n \<times> 'v) list" where
  "tree_roots t = map entry_of (roots t)"

definition removed_iter :: "('h, 'n, 'v) Node list \<Rightarrow> ('h \<times> 'n \<times> 'v) list" where
  "removed_iter stack = map entry_of (node_iter_from stack)"

section \<open>Import\<close>

definition rebalance :: "('h, 'n, 'v) ForkTree \<Rightarrow> ('h, 'n, 'v) ForkTree" where
  "rebalance t = t\<lparr>roots := map node_rebalance (by_depth (roots t))\<rparr>"

text \<open>The guard of the operations that take a number.\<close>

definition reverts :: "('h, 'n::linorder, 'v) ForkTree \<Rightarrow> 'n \<Rightarrow> bool" where
  "reverts t number = (case best_finalized_number t of Some best \<Rightarrow> number \<le> best | None \<Rightarrow> False)"

fun import_roots ::
    "('h, 'e) descendent \<Rightarrow> 'h \<Rightarrow> 'n::linorder \<Rightarrow> 'v \<Rightarrow> ('h, 'n, 'v) Node list \<Rightarrow>
     ('h, 'n, 'v) Node list \<times> ('e ForkError, ('h \<times> 'n \<times> 'v) option) result" where
  "import_roots desc hash number data [] = ([], Ok (Some (hash, number, data)))"
| "import_roots desc hash number data (root # rs) =
     (if node_hash root = hash then (root # rs, Err Duplicate)
      else case node_import desc hash number data root of
             (root', Ok (Some (hash, number, data))) \<Rightarrow>
               (case import_roots desc hash number data rs of (rs', r) \<Rightarrow> (root' # rs', r))
           | (root', r) \<Rightarrow> (root' # rs, r))"

definition tree_import ::
    "('h, 'e) descendent \<Rightarrow> 'h \<Rightarrow> 'n::linorder \<Rightarrow> 'v \<Rightarrow> ('h, 'n, 'v) ForkTree \<Rightarrow> ('h, 'n, 'v) ForkTree \<times> ('e ForkError, bool) result" where
  "tree_import desc hash number data t =
     (if reverts t number then (t, Err Revert)
      else case import_roots desc hash number data (roots t) of
             (rs, Ok None) \<Rightarrow> (rebalance (t\<lparr>roots := rs\<rparr>), Ok False)
           | (rs, Ok (Some (hash, number, data))) \<Rightarrow>
               (rebalance (t\<lparr>roots := rs @ [Node hash number data []]\<rparr>), Ok True)
           | (rs, Err e) \<Rightarrow> (t\<lparr>roots := rs\<rparr>, Err e)
           | (rs, Panic) \<Rightarrow> (t\<lparr>roots := rs\<rparr>, Panic))"

section \<open>Search\<close>

fun find_roots ::
    "('h, 'e) descendent \<Rightarrow> ('v \<Rightarrow> bool) \<Rightarrow> 'h \<Rightarrow> 'n::linorder \<Rightarrow> ('h, 'n, 'v) Node list \<Rightarrow> ('e ForkError, ('h, 'n, 'v) Node option) result" where
  "find_roots desc P hash number [] = Ok None"
| "find_roots desc P hash number (root # rs) =
     and_then (node_find_where desc P hash number root) (\<lambda>r.
       case r of Found nd \<Rightarrow> Ok (Some nd) | _ \<Rightarrow> find_roots desc P hash number rs)"

definition tree_find_where ::
    "('h, 'e) descendent \<Rightarrow> ('v \<Rightarrow> bool) \<Rightarrow> 'h \<Rightarrow> 'n::linorder \<Rightarrow> ('h, 'n, 'v) ForkTree \<Rightarrow> ('e ForkError, ('h, 'n, 'v) Node option) result" where
  "tree_find_where desc P hash number t = find_roots desc P hash number (roots t)"

text \<open>The mutable search returns the tree in which \<open>f\<close> was applied to the node found, if one was found.\<close>

fun find_roots_mut ::
    "('h, 'e) descendent \<Rightarrow> ('v \<Rightarrow> bool) \<Rightarrow> (('h, 'n, 'v) Node \<Rightarrow> ('h, 'n, 'v) Node) \<Rightarrow> 'h \<Rightarrow> 'n::linorder \<Rightarrow> ('h, 'n, 'v) Node list \<Rightarrow>
     ('e ForkError, ('h, 'n, 'v) Node list option) result" where
  "find_roots_mut desc P f hash number [] = Ok None"
| "find_roots_mut desc P f hash number (root # rs) =
     and_then (node_find_where_mut desc P f hash number root) (\<lambda>r.
       case r of
         Found root' \<Rightarrow> Ok (Some (root' # rs))
       | _ \<Rightarrow> and_then (find_roots_mut desc P f hash number rs) (\<lambda>rs'. Ok (map_option ((#) root) rs')))"

definition tree_find_where_mut ::
    "('h, 'e) descendent \<Rightarrow> ('v \<Rightarrow> bool) \<Rightarrow> (('h, 'n, 'v) Node \<Rightarrow> ('h, 'n, 'v) Node) \<Rightarrow> 'h \<Rightarrow> 'n::linorder \<Rightarrow> ('h, 'n, 'v) ForkTree \<Rightarrow>
     ('e ForkError, ('h, 'n, 'v) ForkTree option) result" where
  "tree_find_where_mut desc P f hash number t =
     and_then (find_roots_mut desc P f hash number (roots t)) (\<lambda>rs. Ok (map_option (\<lambda>rs'. t\<lparr>roots := rs'\<rparr>) rs))"

fun find_index_roots ::
    "('h, 'e) descendent \<Rightarrow> ('v \<Rightarrow> bool) \<Rightarrow> 'h \<Rightarrow> 'n::linorder \<Rightarrow> nat \<Rightarrow> ('h, 'n, 'v) Node list \<Rightarrow> ('e ForkError, nat list option) result" where
  "find_index_roots desc P hash number i [] = Ok None"
| "find_index_roots desc P hash number i (root # rs) =
     and_then (node_find_index desc P hash number root) (\<lambda>r.
       case r of Found x \<Rightarrow> Ok (Some (x @ [i])) | _ \<Rightarrow> find_index_roots desc P hash number (Suc i) rs)"

definition tree_find_index ::
    "('h, 'e) descendent \<Rightarrow> ('v \<Rightarrow> bool) \<Rightarrow> 'h \<Rightarrow> 'n::linorder \<Rightarrow> ('h, 'n, 'v) ForkTree \<Rightarrow> ('e ForkError, nat list option) result" where
  "tree_find_index desc P hash number t = find_index_roots desc P hash number 0 (roots t)"

definition tree_map :: "('h \<Rightarrow> 'n \<Rightarrow> 'v \<Rightarrow> 'w) \<Rightarrow> ('h, 'n, 'v) ForkTree \<Rightarrow> ('h, 'n, 'w) ForkTree" where
  "tree_map f t = \<lparr>roots = map (node_map f) (roots t), best_finalized_number = best_finalized_number t\<rparr>"

section \<open>Finalization\<close>

text \<open>\<open>Vec::swap_remove\<close>: the last element takes the place of the removed one.\<close>

definition swap_remove :: "nat \<Rightarrow> 'a list \<Rightarrow> 'a \<times> 'a list" where
  "swap_remove i xs = (xs ! i, butlast (xs[i := last xs]))"

fun position :: "('a \<Rightarrow> bool) \<Rightarrow> 'a list \<Rightarrow> nat option" where
  "position P [] = None"
| "position P (x # xs) = (if P x then Some 0 else map_option Suc (position P xs))"

definition finalize_root_at :: "nat \<Rightarrow> ('h, 'n, 'v) ForkTree \<Rightarrow> ('h, 'n, 'v) ForkTree \<times> 'v" where
  "finalize_root_at i t =
     (let (nd, _) = swap_remove i (roots t)
      in (t\<lparr>roots := node_children nd, best_finalized_number := Some (node_number nd)\<rparr>, node_data nd))"

definition finalize_root :: "'h \<Rightarrow> ('h, 'n, 'v) ForkTree \<Rightarrow> ('h, 'n, 'v) ForkTree \<times> 'v option" where
  "finalize_root hash t =
     (case position (\<lambda>nd. node_hash nd = hash) (roots t) of
        None \<Rightarrow> (t, None)
      | Some i \<Rightarrow> (case finalize_root_at i t of (t', v) \<Rightarrow> (t', Some v)))"

text \<open>
  Looking for a node of which the finalized block is a descendent, and keeping the roots that pass a test:
  the roots have been taken out of the tree, and those that passed before an error are what is left in it.
\<close>

fun some_descends :: "('n \<Rightarrow> bool) \<Rightarrow> ('h, 'e) descendent \<Rightarrow> 'h \<Rightarrow> ('h, 'n, 'v) Node list \<Rightarrow> ('e ForkError, unit) result" where
  "some_descends Q desc hash [] = Ok ()"
| "some_descends Q desc hash (nd # nds) =
     and_then (andalso (Q (node_number nd)) (ask (desc (node_hash nd) hash))) (\<lambda>b.
       if b then Err UnfinalizedAncestor else some_descends Q desc hash nds)"

fun retain :: "('a \<Rightarrow> ('e, bool) result) \<Rightarrow> 'a list \<Rightarrow> 'a list \<times> ('e, bool) result" where
  "retain keep [] = ([], Ok False)"
| "retain keep (r # rs) =
     (case keep r of
        Ok True \<Rightarrow> (case retain keep rs of (ks, res) \<Rightarrow> (r # ks, res))
      | Ok False \<Rightarrow> (case retain keep rs of (ks, res) \<Rightarrow> (ks, and_then res (\<lambda>_. Ok True)))
      | Err e \<Rightarrow> ([], Err e)
      | Panic \<Rightarrow> ([], Panic))"

definition finalize ::
    "('h, 'e) descendent \<Rightarrow> 'h \<Rightarrow> 'n::linorder \<Rightarrow> ('h, 'n, 'v) ForkTree \<Rightarrow>
     ('h, 'n, 'v) ForkTree \<times> ('e ForkError, 'v FinalizationResult) result" where
  "finalize desc hash number t =
     (if reverts t number then (t, Err Revert)
      else case finalize_root hash t of
             (t', Some root) \<Rightarrow> (t', Ok (Changed (Some root)))
           | (_, None) \<Rightarrow>
               (case some_descends (\<lambda>n. number > n) desc hash (roots t) of
                  Err e \<Rightarrow> (t, Err e)
                | Panic \<Rightarrow> (t, Panic)
                | Ok _ \<Rightarrow>
                    (case retain (\<lambda>root. andalso (node_number root > number) (ask (desc hash (node_hash root)))) (roots t) of
                       (rs, Ok changed) \<Rightarrow>
                         (t\<lparr>roots := rs, best_finalized_number := Some number\<rparr>,
                          Ok (if changed then Changed None else Unchanged))
                     | (rs, Err e) \<Rightarrow> (t\<lparr>roots := rs\<rparr>, Err e)
                     | (rs, Panic) \<Rightarrow> (t\<lparr>roots := rs\<rparr>, Panic))))"

text \<open>The loop of \<open>finalize_with_ancestors\<close>, at index \<open>i\<close> of the roots.\<close>

definition relation_to_root ::
    "('h, 'e) descendent \<Rightarrow> 'h \<Rightarrow> 'n::linorder \<Rightarrow> ('h, 'n, 'v) Node \<Rightarrow> ('e ForkError, bool \<times> bool \<times> bool) result" where
  "relation_to_root desc hash number root =
     (let is_finalized = (node_hash root = hash)
      in and_then (andalso (\<not> is_finalized \<and> node_number root > number) (ask (desc hash (node_hash root)))) (\<lambda>is_descendant.
         and_then (andalso (\<not> is_finalized \<and> \<not> is_descendant \<and> node_number root < number) (ask (desc (node_hash root) hash)))
           (\<lambda>is_ancestor. Ok (is_finalized, is_descendant, is_ancestor))))"

definition weight :: "('h, 'n, 'v) Node list \<Rightarrow> nat" where
  "weight nds = sum_list (map size nds)"

lemma weight_simps [simp]:
  "weight [] = 0" "weight (nd # nds) = size nd + weight nds" "weight (xs @ ys) = weight xs + weight ys"
  by (simp_all add: weight_def)

lemma weight_children: "weight (node_children nd) < size nd"
  by (cases nd) (simp add: weight_def size_list_conv_sum_list less_Suc_eq_le)

lemma size_node_pos: "0 < size (nd :: ('h, 'n, 'v) Node)"
  by (cases nd) simp

lemma weight_swap_remove:
  assumes "i < length xs"
  shows "weight (drop i (snd (swap_remove i xs) @ ys)) + size (xs ! i) = weight (drop i xs) + weight ys"
proof -
  obtain us x where xs: "xs = us @ [x]" using assms by (cases xs rule: rev_cases) auto
  show ?thesis
  proof (cases "i = length us")
    case True
    then show ?thesis by (simp add: swap_remove_def xs list_update_append)
  next
    case False
    then have i: "i < length us" using assms xs by simp
    have "drop i (us[i := x]) = x # drop (Suc i) us" using i by (metis Cons_nth_drop_Suc drop_update_cancel length_list_update lessI nth_list_update_eq)
    moreover have "drop i us = us ! i # drop (Suc i) us" using i by (simp add: Cons_nth_drop_Suc)
    ultimately show ?thesis using i by (simp add: swap_remove_def xs list_update_append nth_append butlast_append)
  qed
qed

lemma weight_steps:
  assumes "i \<noteq> length xs" "\<not> length xs < i"
  shows "weight (drop (Suc i) xs) < weight (drop i xs)"
    and "weight (drop i (snd (swap_remove i xs) @ node_children (fst (swap_remove i xs)))) < weight (drop i xs)"
    and "weight (drop i (snd (swap_remove i xs))) < weight (drop i xs)"
proof -
  have i: "i < length xs" using assms by simp
  note c = weight_children [of "xs ! i"] size_node_pos [of "xs ! i"]
  show "weight (drop (Suc i) xs) < weight (drop i xs)"
    using c i by (simp flip: Cons_nth_drop_Suc)
  show "weight (drop i (snd (swap_remove i xs) @ node_children (fst (swap_remove i xs)))) < weight (drop i xs)"
    using weight_swap_remove [OF i, of "node_children (xs ! i)"] c by (simp add: swap_remove_def)
  show "weight (drop i (snd (swap_remove i xs))) < weight (drop i xs)"
    using weight_swap_remove [OF i, of "[]"] c by simp
qed

function ancestors_loop ::
    "('h, 'e) descendent \<Rightarrow> 'h \<Rightarrow> 'n::linorder \<Rightarrow> nat \<Rightarrow> bool \<Rightarrow> ('h, 'n, 'v) ForkTree \<Rightarrow>
     ('h, 'n, 'v) ForkTree \<times> ('e ForkError, 'v FinalizationResult) result" where
  "ancestors_loop desc hash number i changed t =
     (if i = length (roots t) then
        (t\<lparr>best_finalized_number := Some number\<rparr>, Ok (if changed then Changed None else Unchanged))
      else if i > length (roots t) then (t, Panic)
      else case relation_to_root desc hash number (roots t ! i) of
             Err e \<Rightarrow> (t, Err e)
           | Panic \<Rightarrow> (t, Panic)
           | Ok (is_finalized, is_descendant, is_ancestor) \<Rightarrow>
               if is_finalized then (case finalize_root_at i t of (t', v) \<Rightarrow> (t', Ok (Changed (Some v))))
               else if is_descendant then ancestors_loop desc hash number (Suc i) changed t
               else if is_ancestor then
                 ancestors_loop desc hash number i True
                   (t\<lparr>roots := snd (swap_remove i (roots t)) @ node_children (fst (swap_remove i (roots t)))\<rparr>)
               else ancestors_loop desc hash number i True (t\<lparr>roots := snd (swap_remove i (roots t))\<rparr>))"
  by pat_completeness auto
termination
  by (relation "measure (\<lambda>(desc, hash, number, i, changed, t). weight (drop i (roots t)))")
    (simp_all add: weight_steps del: drop_append)

declare ancestors_loop.simps [simp del]

definition finalize_with_ancestors ::
    "('h, 'e) descendent \<Rightarrow> 'h \<Rightarrow> 'n::linorder \<Rightarrow> ('h, 'n, 'v) ForkTree \<Rightarrow>
     ('h, 'n, 'v) ForkTree \<times> ('e ForkError, 'v FinalizationResult) result" where
  "finalize_with_ancestors desc hash number t =
     (if reverts t number then (t, Err Revert)
      else case finalize_root hash t of
             (t', Some root) \<Rightarrow> (t', Ok (Changed (Some root)))
           | (_, None) \<Rightarrow> ancestors_loop desc hash number 0 False t)"

fun any_loop ::
    "('h, 'e) descendent \<Rightarrow> ('v \<Rightarrow> bool) \<Rightarrow> 'h \<Rightarrow> 'n::linorder \<Rightarrow> ('h, 'n, 'v) Node list \<Rightarrow> ('h, 'n, 'v) Node list \<Rightarrow>
     ('e ForkError, bool option) result" where
  "any_loop desc P hash number rs [] = Ok None"
| "any_loop desc P hash number rs (nd # nds) =
     and_then (andalso (P (node_data nd)) (orelse (node_hash nd = hash) (ask (desc (node_hash nd) hash)))) (\<lambda>b.
       if b then
         and_then (some_descends (\<lambda>n. n \<le> number) desc hash (node_children nd)) (\<lambda>_.
           Ok (Some (list_ex (\<lambda>root. node_hash root = node_hash nd) rs)))
       else any_loop desc P hash number rs nds)"

definition finalizes_any_with_descendent_if ::
    "('h, 'e) descendent \<Rightarrow> ('v \<Rightarrow> bool) \<Rightarrow> 'h \<Rightarrow> 'n::linorder \<Rightarrow> ('h, 'n, 'v) ForkTree \<Rightarrow> ('e ForkError, bool option) result" where
  "finalizes_any_with_descendent_if desc P hash number t =
     (if reverts t number then Err Revert else any_loop desc P hash number (roots t) (node_iter t))"

fun root_position ::
    "('h, 'e) descendent \<Rightarrow> ('v \<Rightarrow> bool) \<Rightarrow> 'h \<Rightarrow> 'n::linorder \<Rightarrow> nat \<Rightarrow> ('h, 'n, 'v) Node list \<Rightarrow> ('e ForkError, nat option) result" where
  "root_position desc P hash number i [] = Ok None"
| "root_position desc P hash number i (root # rs) =
     and_then (andalso (P (node_data root)) (orelse (node_hash root = hash) (ask (desc (node_hash root) hash)))) (\<lambda>b.
       if b then and_then (some_descends (\<lambda>n. n \<le> number) desc hash (node_children root)) (\<lambda>_. Ok (Some i))
       else root_position desc P hash number (Suc i) rs)"

definition keep_related :: "('h, 'e) descendent \<Rightarrow> 'h \<Rightarrow> 'n::linorder \<Rightarrow> ('h, 'n, 'v) Node \<Rightarrow> ('e ForkError, bool) result" where
  "keep_related desc hash number root =
     and_then (andalso (node_number root > number) (ask (desc hash (node_hash root)))) (\<lambda>b.
       orelse b (orelse (node_number root = number \<and> node_hash root = hash) (ask (desc (node_hash root) hash))))"

definition finalize_with_descendent_if ::
    "('h, 'e) descendent \<Rightarrow> ('v \<Rightarrow> bool) \<Rightarrow> 'h \<Rightarrow> 'n::linorder \<Rightarrow> ('h, 'n, 'v) ForkTree \<Rightarrow>
     ('h, 'n, 'v) ForkTree \<times> ('e ForkError, 'v FinalizationResult) result" where
  "finalize_with_descendent_if desc P hash number t =
     (if reverts t number then (t, Err Revert)
      else case root_position desc P hash number 0 (roots t) of
             Err e \<Rightarrow> (t, Err e)
           | Panic \<Rightarrow> (t, Panic)
           | Ok pos \<Rightarrow>
               (let (t1, node_data) = (case pos of
                      None \<Rightarrow> (t, None)
                    | Some i \<Rightarrow> (case finalize_root_at i t of (t', v) \<Rightarrow> (t', Some v)))
                in case retain (keep_related desc hash number) (roots t1) of
                     (rs, Ok changed) \<Rightarrow>
                       (t1\<lparr>roots := rs, best_finalized_number := Some number\<rparr>,
                        Ok (case (node_data, changed) of
                              (Some data, _) \<Rightarrow> Changed (Some data)
                            | (None, True) \<Rightarrow> Changed None
                            | (None, False) \<Rightarrow> Unchanged))
                   | (rs, Err e) \<Rightarrow> (t1\<lparr>roots := rs\<rparr>, Err e)
                   | (rs, Panic) \<Rightarrow> (t1\<lparr>roots := rs\<rparr>, Panic)))"

section \<open>Pruning\<close>

text \<open>Taking the node at a path out of a forest.\<close>

fun take_at :: "nat list \<Rightarrow> ('h, 'n, 'v) Node list \<Rightarrow> (('h, 'n, 'v) Node \<times> ('h, 'n, 'v) Node list) option" where
  "take_at [] cs = None"
| "take_at [i] cs = (if i < length cs then Some (cs ! i, take i cs @ drop (Suc i) cs) else None)"
| "take_at (i # is) cs =
     (if i < length cs then
        (case cs ! i of Node h n v cs' \<Rightarrow>
          (case take_at is cs' of
             None \<Rightarrow> None
           | Some (root, cs'') \<Rightarrow> Some (root, cs[i := Node h n v cs''])))
      else None)"

text \<open>
  The children of the new root: the first that is the pruned-to block or its ancestor stays, the others
  are removed. On an error the roots, which were taken out of the tree, are gone.
\<close>

fun split_children ::
    "('h, 'e) descendent \<Rightarrow> 'h \<Rightarrow> 'n::linorder \<Rightarrow> bool \<Rightarrow> ('h, 'n, 'v) Node list \<Rightarrow>
     ('e ForkError, ('h, 'n, 'v) Node list \<times> ('h, 'n, 'v) Node list) result" where
  "split_children desc hash number is_first [] = Ok ([], [])"
| "split_children desc hash number is_first (c # cs) =
     and_then (andalso is_first (orelse (node_number c = number \<and> node_hash c = hash)
                 (andalso (node_number c < number) (ask (desc (node_hash c) hash))))) (\<lambda>b.
       if b then and_then (split_children desc hash number False cs) (\<lambda>(ks, rs). Ok (c # ks, rs))
       else and_then (split_children desc hash number is_first cs) (\<lambda>(ks, rs). Ok (ks, c # rs)))"

definition prune ::
    "('h, 'e) descendent \<Rightarrow> ('v \<Rightarrow> bool) \<Rightarrow> 'h \<Rightarrow> 'n::linorder \<Rightarrow> ('h, 'n, 'v) ForkTree \<Rightarrow>
     ('h, 'n, 'v) ForkTree \<times> ('e ForkError, ('h, 'n, 'v) Node list) result" where
  "prune desc P hash number t =
     (case tree_find_index desc P hash number t of
        Err e \<Rightarrow> (t, Err e)
      | Panic \<Rightarrow> (t, Panic)
      | Ok None \<Rightarrow> (rebalance t, Ok [])
      | Ok (Some root_index) \<Rightarrow>
          (case take_at (rev root_index) (roots t) of
             None \<Rightarrow> (t\<lparr>roots := []\<rparr>, Panic)
           | Some (Node h n v root_children, old_roots) \<Rightarrow>
               (case split_children desc hash number True root_children of
                  Ok (ks, rs) \<Rightarrow> (rebalance (t\<lparr>roots := [Node h n v ks]\<rparr>), Ok (old_roots @ rs))
                | Err e \<Rightarrow> (t\<lparr>roots := []\<rparr>, Err e)
                | Panic \<Rightarrow> (t\<lparr>roots := []\<rparr>, Panic))))"

end
