(* ===== verification/ForkTreeSafety.thy ===== *)
theory ForkTreeSafety
  imports ForkTree "HOL-Library.Multiset"
begin

text \<open>
  The fork tree mirrors the chain's ancestry: under a node are exactly those nodes that descend from it, and
  siblings are on different forks. Import, finalization and pruning keep this, and what each of them keeps
  and drops is stated in terms of the ancestry alone.
\<close>

section \<open>Ancestry\<close>

text \<open>
  What the fork tree's clients provide: the strict ancestry of a chain of blocks, in which the number grows
  along every branch and two ancestors of a block are on one branch.
\<close>

definition ancestry :: "('h \<Rightarrow> 'h \<Rightarrow> bool) \<Rightarrow> ('h \<Rightarrow> 'n::linorder) \<Rightarrow> bool" where
  "ancestry anc num \<longleftrightarrow>
     (\<forall>a b. anc a b \<longrightarrow> num a < num b) \<and>
     (\<forall>a b c. anc a b \<longrightarrow> anc b c \<longrightarrow> anc a c) \<and>
     (\<forall>a b c. anc a c \<longrightarrow> anc b c \<longrightarrow> a = b \<or> anc a b \<or> anc b a)"

definition honest :: "('h \<Rightarrow> 'h \<Rightarrow> bool) \<Rightarrow> ('h, 'e) descendent" where
  "honest anc = (\<lambda>a b. Inr (anc a b))"

lemma ancestryD:
  assumes "ancestry anc num"
  shows "anc a b \<Longrightarrow> num a < num b" "anc a b \<Longrightarrow> anc b c \<Longrightarrow> anc a c"
    "anc a c \<Longrightarrow> anc b c \<Longrightarrow> a = b \<or> anc a b \<or> anc b a" "\<not> anc a a" "anc a b \<Longrightarrow> \<not> anc b a"
proof -
  have *: "anc a b \<Longrightarrow> num a < num b" for a b using assms unfolding ancestry_def by blast
  show "anc a b \<Longrightarrow> num a < num b" by (rule *)
  show "anc a b \<Longrightarrow> anc b c \<Longrightarrow> anc a c" using assms unfolding ancestry_def by blast
  show "anc a c \<Longrightarrow> anc b c \<Longrightarrow> a = b \<or> anc a b \<or> anc b a" using assms unfolding ancestry_def by blast
  show "\<not> anc a a" using * [of a a] by auto
  show "anc a b \<Longrightarrow> \<not> anc b a" using * [of a b] * [of b a] by auto
qed

lemma ask_honest [simp]: "ask (honest anc a b) = Ok (anc a b)"
  by (simp add: ask_def honest_def)

section \<open>Well-formed forests\<close>

fun nodes :: "('h, 'n, 'v) Node \<Rightarrow> ('h, 'n, 'v) Node list" where
  "nodes (Node h n v cs) = Node h n v cs # concat (map nodes cs)"

definition all_nodes :: "('h, 'n, 'v) Node list \<Rightarrow> ('h, 'n, 'v) Node list" where
  "all_nodes nds = concat (map nodes nds)"

definition entries :: "('h, 'n, 'v) Node list \<Rightarrow> ('h \<times> 'n \<times> 'v) multiset" where
  "entries nds = mset (map entry_of (all_nodes nds))"

definition hashes :: "('h, 'n, 'v) Node list \<Rightarrow> 'h set" where
  "hashes nds = node_hash ` set (all_nodes nds)"

definition apart :: "('h \<Rightarrow> 'h \<Rightarrow> bool) \<Rightarrow> 'h list \<Rightarrow> bool" where
  "apart anc hs \<longleftrightarrow> distinct hs \<and> (\<forall>a \<in> set hs. \<forall>b \<in> set hs. \<not> anc a b)"

fun node_ok :: "('h \<Rightarrow> 'h \<Rightarrow> bool) \<Rightarrow> ('h \<Rightarrow> 'n) \<Rightarrow> ('h, 'n, 'v) Node \<Rightarrow> bool" where
  "node_ok anc num (Node h n v cs) \<longleftrightarrow>
     n = num h \<and> apart anc (map node_hash cs) \<and> (\<forall>c \<in> set cs. anc h (node_hash c) \<and> node_ok anc num c)"

definition forest_ok :: "('h \<Rightarrow> 'h \<Rightarrow> bool) \<Rightarrow> ('h \<Rightarrow> 'n) \<Rightarrow> ('h, 'n, 'v) Node list \<Rightarrow> bool" where
  "forest_ok anc num nds \<longleftrightarrow> apart anc (map node_hash nds) \<and> (\<forall>nd \<in> set nds. node_ok anc num nd)"

lemma all_nodes_simps [simp]:
  "all_nodes [] = []" "all_nodes (nd # nds) = nodes nd @ all_nodes nds" "all_nodes (xs @ ys) = all_nodes xs @ all_nodes ys"
  by (simp_all add: all_nodes_def)

lemma nodes_children [simp]: "nodes (Node h n v cs) = Node h n v cs # all_nodes cs"
  by (simp add: all_nodes_def)

declare nodes.simps [simp del]

lemma entries_simps [simp]:
  "entries [] = {#}" "entries (Node h n v cs # nds) = add_mset (h, n, v) (entries cs + entries nds)"
  "entries (xs @ ys) = entries xs + entries ys"
  by (simp_all add: entries_def entry_of_def)

lemma entries_Cons: "entries (nd # c # nds) = entries [nd] + entries (c # nds)"
  by (cases nd) simp

lemma hashes_simps [simp]:
  "hashes [] = {}" "hashes (Node h n v cs # nds) = insert h (hashes cs \<union> hashes nds)"
  "hashes (xs @ ys) = hashes xs \<union> hashes ys"
  by (auto simp: hashes_def)

lemma hashes_Cons: "hashes (nd # c # nds) = hashes [nd] \<union> hashes (c # nds)"
  by (cases nd) simp

lemma in_hashes: "x \<in> hashes nds \<longleftrightarrow> (\<exists>nd \<in> set nds. x \<in> hashes [nd])"
  by (auto simp: hashes_def all_nodes_def)

lemma hashes_entries: "hashes nds = fst ` set_mset (entries nds)"
  by (auto simp: hashes_def entries_def entry_of_def image_iff)

lemma hash_in_hashes: "node_hash nd \<in> hashes [nd]"
  by (cases nd) simp

lemma apart_perm: "mset xs = mset ys \<Longrightarrow> apart anc xs = apart anc ys"
  by (simp add: apart_def mset_eq_imp_distinct_iff [of xs ys] mset_eq_setD [of xs ys])

lemma apart_sub: "apart anc (xs @ ys) \<Longrightarrow> apart anc xs \<and> apart anc ys"
  by (auto simp: apart_def)

lemma forest_ok_simps [simp]: "forest_ok anc num []"
  by (simp add: forest_ok_def apart_def)

lemma forest_ok_one [simp]: "ancestry anc num \<Longrightarrow> forest_ok anc num [nd] \<longleftrightarrow> node_ok anc num nd"
  by (auto simp: forest_ok_def apart_def ancestryD(4))

lemma node_ok_children:
  "node_ok anc num (Node h n v cs) \<longleftrightarrow> n = num h \<and> forest_ok anc num cs \<and> (\<forall>c \<in> set cs. anc h (node_hash c))"
  by (auto simp: forest_ok_def)

lemma forest_ok_tail: "forest_ok anc num (nd # nds) \<Longrightarrow> node_ok anc num nd \<and> forest_ok anc num nds"
  by (auto simp: forest_ok_def apart_def)

declare node_ok.simps [simp del]

text \<open>Everything in a tree descends from its root.\<close>

lemma under_root:
  assumes a: "ancestry anc num"
  shows "node_ok anc num nd \<Longrightarrow> x \<in> hashes [nd] \<Longrightarrow> x = node_hash nd \<or> anc (node_hash nd) x"
proof (induction nd)
  case (Node h n v cs)
  show ?case
  proof (cases "x = h")
    case False
    then obtain c where c: "c \<in> set cs" "x \<in> hashes [c]" using Node.prems(2) by (auto simp: in_hashes [of _ cs])
    then have "anc h (node_hash c)" "node_ok anc num c" using Node.prems(1) by (auto simp: node_ok_children forest_ok_def)
    then show ?thesis using Node.IH [OF c(1) _ c(2)] ancestryD(2) [OF a] by auto
  qed simp
qed

text \<open>A block is comparable with at most one of the roots.\<close>

lemma one_root:
  assumes a: "ancestry anc num" and f: "forest_ok anc num nds" and n: "c \<in> set nds" "d \<in> set nds"
    and "x = node_hash c \<or> anc (node_hash c) x" "x = node_hash d \<or> anc (node_hash d) x"
  shows "c = d"
proof -
  have "node_hash c = node_hash d"
    using assms ancestryD(3) [OF a, of "node_hash c" x "node_hash d"] by (auto simp: forest_ok_def apart_def)
  then show ?thesis using f n by (auto simp: forest_ok_def apart_def distinct_map inj_on_def)
qed

lemma forest_member: "forest_ok anc num nds \<Longrightarrow> c \<in> set nds \<Longrightarrow> node_ok anc num c"
  by (simp add: forest_ok_def)

lemma split_first: "hashes (c # cs) = hashes [c] \<union> hashes cs" "entries (c # cs) = entries [c] + entries cs"
  by (cases c; simp)+

lemma root_in_hashes: "c \<in> set nds \<Longrightarrow> node_hash c \<in> hashes nds"
  using in_hashes [of "node_hash c" nds] hash_in_hashes by blast

lemma some_ancestor:
  assumes a: "ancestry anc num" and f: "forest_ok anc num nds"
  shows "(\<exists>x \<in> hashes nds. anc x h) \<longleftrightarrow> (\<exists>c \<in> set nds. anc (node_hash c) h)"
proof
  assume "\<exists>x \<in> hashes nds. anc x h"
  then obtain x c where x: "anc x h" "c \<in> set nds" "x \<in> hashes [c]" using in_hashes [of _ nds] by blast
  then have "anc (node_hash c) h" using under_root [OF a forest_member [OF f x(2)] x(3)] ancestryD(2) [OF a, of "node_hash c" x h] by auto
  then show "\<exists>c \<in> set nds. anc (node_hash c) h" using x(2) by blast
qed (use root_in_hashes in blast)

section \<open>Import\<close>

text \<open>Importing into a tree: a duplicate is refused, a block of another fork is handed back, and a descendent is inserted.\<close>

definition import_spec :: "('h \<Rightarrow> 'h \<Rightarrow> bool) \<Rightarrow> ('h \<Rightarrow> 'n::linorder) \<Rightarrow> 'h \<Rightarrow> 'v \<Rightarrow> ('h, 'n, 'v) Node \<Rightarrow>
    ('h, 'n, 'v) Node \<times> ('e ForkError, ('h \<times> 'n \<times> 'v) option) result \<Rightarrow> bool" where
  "import_spec anc num h v c r \<longleftrightarrow>
     (h \<in> hashes [c] \<longrightarrow> r = (c, Err Duplicate)) \<and>
     (h \<notin> hashes [c] \<longrightarrow> \<not> anc (node_hash c) h \<longrightarrow> r = (c, Ok (Some (h, num h, v)))) \<and>
     (h \<notin> hashes [c] \<longrightarrow> anc (node_hash c) h \<longrightarrow> (\<forall>x \<in> hashes [c]. \<not> anc h x) \<longrightarrow>
        (\<exists>c'. r = (c', Ok None) \<and> node_hash c' = node_hash c \<and> node_ok anc num c' \<and>
           entries [c'] = add_mset (h, num h, v) (entries [c])))"

definition imports_spec :: "('h \<Rightarrow> 'h \<Rightarrow> bool) \<Rightarrow> ('h \<Rightarrow> 'n::linorder) \<Rightarrow> 'h \<Rightarrow> 'v \<Rightarrow> ('h, 'n, 'v) Node list \<Rightarrow>
    ('h, 'n, 'v) Node list \<times> ('e ForkError, ('h \<times> 'n \<times> 'v) option) result \<Rightarrow> bool" where
  "imports_spec anc num h v cs r \<longleftrightarrow>
     (h \<in> hashes cs \<longrightarrow> r = (cs, Err Duplicate)) \<and>
     (h \<notin> hashes cs \<longrightarrow> (\<forall>c \<in> set cs. \<not> anc (node_hash c) h) \<longrightarrow> r = (cs, Ok (Some (h, num h, v)))) \<and>
     (h \<notin> hashes cs \<longrightarrow> (\<exists>c \<in> set cs. anc (node_hash c) h) \<longrightarrow> (\<forall>x \<in> hashes cs. \<not> anc h x) \<longrightarrow>
        (\<exists>cs'. r = (cs', Ok None) \<and> forest_ok anc num cs' \<and> map node_hash cs' = map node_hash cs \<and>
           entries cs' = add_mset (h, num h, v) (entries cs)))"

lemma other_root:
  assumes a: "ancestry anc num" and f: "forest_ok anc num (c # cs)" and c: "h \<in> hashes [c] \<or> anc (node_hash c) h"
  shows "h \<notin> hashes cs \<and> (\<forall>d \<in> set cs. \<not> anc (node_hash d) h)"
proof -
  have ch: "h = node_hash c \<or> anc (node_hash c) h"
    using c under_root [OF a, of c h] forest_member [OF f, of c] by auto
  have "\<not> (h = node_hash d \<or> anc (node_hash d) h)" if "d \<in> set cs" for d
    using one_root [OF a f, of c d h] ch that f by (auto simp: forest_ok_def apart_def)
  then show ?thesis
    using under_root [OF a, where x = h] forest_member [OF f] by (fastforce simp: in_hashes [of _ cs])
qed

lemma import_list:
  fixes D :: "('h, 'e) descendent"
  assumes a: "ancestry anc num"
    and IH: "\<And>c. c \<in> set cs \<Longrightarrow> import_spec anc num h v c (node_import D h (num h) v c)"
    and f: "forest_ok anc num cs"
  shows "imports_spec anc num h v cs (import_children D h (num h) v cs)"
  using IH f
proof (induction cs)
  case Nil
  show ?case by (simp add: imports_spec_def)
next
  case (Cons c cs)
  have I: "import_spec anc num h v c (node_import D h (num h) v c)" using Cons.prems(1) by simp
  have L: "imports_spec anc num h v cs (import_children D h (num h) v cs)"
    using Cons forest_ok_tail [OF Cons.prems(2)] by simp
  note o = other_root [OF a Cons.prems(2), of h] and sf = split_first [of c cs]
  consider (dup) "h \<in> hashes [c]" | (here) "h \<notin> hashes [c]" "anc (node_hash c) h" | (there) "h \<notin> hashes [c]" "\<not> anc (node_hash c) h" by blast
  then show ?case
  proof cases
    case dup
    then show ?thesis using I o ancestryD(4) [OF a] under_root [OF a, of c h] forest_ok_tail [OF Cons.prems(2)]
      by (auto simp: imports_spec_def import_spec_def sf)
  next
    case here
    then have n: "h \<notin> hashes (c # cs)" using o by (simp add: sf)
    have "\<exists>cs'. import_children D h (num h) v (c # cs) = (cs', Ok None) \<and> forest_ok anc num cs' \<and>
        map node_hash cs' = map node_hash (c # cs) \<and> entries cs' = add_mset (h, num h, v) (entries (c # cs))"
      if "\<forall>x \<in> hashes (c # cs). \<not> anc h x"
    proof -
      have "\<forall>x \<in> hashes [c]. \<not> anc h x" using that by (simp add: sf)
      then obtain c' where "node_import D h (num h) v c = (c', Ok None)" "node_hash c' = node_hash c"
        "node_ok anc num c'" "entries [c'] = add_mset (h, num h, v) (entries [c])"
        using I here unfolding import_spec_def by blast
      moreover from this have "forest_ok anc num (c' # cs)" using Cons.prems(2) by (simp add: forest_ok_def)
      ultimately show ?thesis by (simp add: sf split_first [of c' cs])
    qed
    then show ?thesis using n here unfolding imports_spec_def by auto
  next
    case there
    then have i: "node_import D h (num h) v c = (c, Ok (Some (h, num h, v)))" using I by (simp add: import_spec_def)
    have "\<exists>cs'. import_children D h (num h) v (c # cs) = (cs', Ok None) \<and> forest_ok anc num cs' \<and>
        map node_hash cs' = map node_hash (c # cs) \<and> entries cs' = add_mset (h, num h, v) (entries (c # cs))"
      if "h \<notin> hashes cs" "\<exists>c \<in> set cs. anc (node_hash c) h" "\<forall>x \<in> hashes (c # cs). \<not> anc h x"
    proof -
      have "\<forall>x \<in> hashes cs. \<not> anc h x" using that by (simp add: sf)
      then have "\<exists>cs'. import_children D h (num h) v cs = (cs', Ok None) \<and> forest_ok anc num cs' \<and>
          map node_hash cs' = map node_hash cs \<and> entries cs' = add_mset (h, num h, v) (entries cs)"
        using L that(1,2) by (simp add: imports_spec_def)
      then obtain cs' where "import_children D h (num h) v cs = (cs', Ok None)" "forest_ok anc num cs'"
        "map node_hash cs' = map node_hash cs" "entries cs' = add_mset (h, num h, v) (entries cs)"
        by blast
      moreover from this have "forest_ok anc num (c # cs')" using Cons.prems(2) by (simp add: forest_ok_def)
      ultimately show ?thesis using i by (simp add: sf split_first [of c cs'])
    qed
    then show ?thesis using there i L unfolding imports_spec_def by (auto simp: sf)
  qed
qed

lemma import_node:
  fixes D :: "('h, 'e) descendent"
  assumes a: "ancestry anc num" and D: "D = honest anc"
  shows "node_ok anc num c \<Longrightarrow> import_spec anc num h v c (node_import D h (num h) v c)"
proof (induction c)
  case (Node h' n' v' cs)
  let ?c = "Node h' n' v' cs"
  have ok: "n' = num h'" "forest_ok anc num cs" "\<And>c. c \<in> set cs \<Longrightarrow> anc h' (node_hash c)"
    using Node.prems by (auto simp: node_ok_children)
  have L: "imports_spec anc num h v cs (import_children D h (num h) v cs)"
    by (rule import_list [OF a _ ok(2)]) (use Node.IH forest_member [OF ok(2)] in blast)
  have below: "anc h' h" if below: "h \<in> hashes cs \<or> (\<exists>c \<in> set cs. anc (node_hash c) h)"
  proof -
    obtain c where c: "c \<in> set cs" "h \<in> hashes [c] \<or> anc (node_hash c) h" using below in_hashes [of h cs] by blast
    then have "h = node_hash c \<or> anc (node_hash c) h" using under_root [OF a forest_member [OF ok(2) c(1)], of h] by blast
    then show ?thesis using ok(3) [OF c(1)] ancestryD(2) [OF a, of h' "node_hash c" h] by auto
  qed
  have lt: "\<not> num h \<le> num h'" if "anc h' h" using ancestryD(1) [OF a that] by simp
  show ?case unfolding import_spec_def
  proof (intro conjI impI)
    assume "h \<in> hashes [?c]"
    then consider "h = h'" | "h \<noteq> h'" "h \<in> hashes cs" by auto
    then show "node_import D h (num h) v ?c = (?c, Err Duplicate)"
      using L lt below ok(1) by cases (auto simp: imports_spec_def)
  next
    assume h: "h \<notin> hashes [?c]" "\<not> anc (node_hash ?c) h"
    then have "import_children D h (num h) v cs = (cs, Ok (Some (h, num h, v)))" using below L by (auto simp: imports_spec_def)
    then show "node_import D h (num h) v ?c = (?c, Ok (Some (h, num h, v)))" using h D by auto
  next
    assume h: "h \<notin> hashes [?c]" "anc (node_hash ?c) h" "\<forall>x \<in> hashes [?c]. \<not> anc h x"
    then have n: "h' \<noteq> h" "h \<notin> hashes cs" "\<forall>x \<in> hashes cs. \<not> anc h x" "\<not> num h \<le> n'" using lt ok(1) by auto
    show "\<exists>c'. node_import D h (num h) v ?c = (c', Ok None) \<and> node_hash c' = node_hash ?c \<and> node_ok anc num c' \<and>
        entries [c'] = add_mset (h, num h, v) (entries [?c])"
    proof (cases "\<exists>c \<in> set cs. anc (node_hash c) h")
      case True
      have "\<exists>cs'. import_children D h (num h) v cs = (cs', Ok None) \<and> forest_ok anc num cs' \<and>
          map node_hash cs' = map node_hash cs \<and> entries cs' = add_mset (h, num h, v) (entries cs)"
        using L n True by (simp add: imports_spec_def)
      then obtain cs' where cs': "import_children D h (num h) v cs = (cs', Ok None)" "forest_ok anc num cs'"
          "map node_hash cs' = map node_hash cs" "entries cs' = add_mset (h, num h, v) (entries cs)" by blast
      have "anc h' (node_hash c)" if "c \<in> set cs'" for c
      proof -
        have "node_hash c \<in> set (map node_hash cs)" using that cs'(3) by (metis image_eqI list.set_map)
        then show ?thesis using ok(3) by auto
      qed
      then show ?thesis using cs' n ok(1) by (intro exI [of _ "Node h' n' v' cs'"]) (auto simp: node_ok_children)
    next
      case False
      then have i: "import_children D h (num h) v cs = (cs, Ok (Some (h, num h, v)))" using n L by (simp add: imports_spec_def)
      have "node_hash c \<in> hashes cs" if "c \<in> set cs" for c by (rule root_in_hashes [OF that])
      then have "apart anc (map node_hash (cs @ [Node h (num h) v []]))"
        using ok(2) False n ancestryD(4) [OF a] by (auto simp: forest_ok_def apart_def)
      then have "node_ok anc num (Node h' n' v' (cs @ [Node h (num h) v []]))"
        using ok h(2) by (auto simp: node_ok_children forest_ok_def apart_def)
      then show ?thesis using i n h(2) D by auto
    qed
  qed
qed

lemma import_roots_children: "import_roots D h n v rs = import_children D h n v rs"
proof (induction rs arbitrary: h n v)
  case (Cons r rs)
  have "node_import D h n v r = (r, Err Duplicate)" if "node_hash r = h" using that by (cases r) simp
  then show ?case using Cons by (auto split: prod.split result.split option.split)
qed simp

lemma set_by_depth [simp]: "set (by_depth cs) = set cs" "mset (by_depth cs) = mset cs"
  by (simp_all add: by_depth_def)

lemma entries_mset: "entries nds = (\<Sum>nd \<in># mset nds. entries [nd])"
  by (induction nds) (simp_all add: entries_def)

lemma node_rebalance_ok:
  "node_hash (node_rebalance c) = node_hash c \<and> entries [node_rebalance c] = entries [c] \<and>
   (node_ok anc num c \<longrightarrow> node_ok anc num (node_rebalance c))"
proof (induction c rule: node_rebalance.induct)
  case (1 h n v cs)
  let ?cs = "map node_rebalance (by_depth cs)"
  have e: "entries ?cs = entries cs"
  proof -
    have "entries ?cs = (\<Sum>c \<in># mset (by_depth cs). entries [node_rebalance c])"
      by (subst entries_mset) (simp add: image_mset.compositionality comp_def)
    also have "\<dots> = (\<Sum>c \<in># mset (by_depth cs). entries [c])"
      by (rule arg_cong [of _ _ sum_mset], rule image_mset_cong) (use 1 in auto)
    also have "\<dots> = entries cs" by (subst (2) entries_mset) simp
    finally show ?thesis .
  qed
  have h: "map node_hash ?cs = map node_hash (by_depth cs)" using 1 by (simp cong: map_cong)
  then have "apart anc (map node_hash ?cs) = apart anc (map node_hash cs)"
    by (intro apart_perm) (metis mset_map set_by_depth(2))
  then show ?case using e 1 by (auto simp: node_ok_children forest_ok_def)
qed

lemma rebalance_ok:
  "entries (roots (rebalance t)) = entries (roots t)"
  "forest_ok anc num (roots t) \<Longrightarrow> forest_ok anc num (roots (rebalance t))"
  "best_finalized_number (rebalance t) = best_finalized_number t"
proof -
  let ?r = "map node_rebalance (by_depth (roots t))"
  have "entries ?r = (\<Sum>c \<in># mset (roots t). entries [c])"
    by (subst entries_mset) (simp add: image_mset.compositionality comp_def node_rebalance_ok)
  then show "entries (roots (rebalance t)) = entries (roots t)"
    by (simp add: rebalance_def entries_mset [of "roots t"])
  have h: "map node_hash ?r = map node_hash (by_depth (roots t))" by (simp add: node_rebalance_ok)
  then have "apart anc (map node_hash ?r) = apart anc (map node_hash (roots t))"
    by (intro apart_perm) (metis mset_map set_by_depth(2))
  then show "forest_ok anc num (roots t) \<Longrightarrow> forest_ok anc num (roots (rebalance t))"
    by (auto simp: rebalance_def forest_ok_def node_rebalance_ok)
  show "best_finalized_number (rebalance t) = best_finalized_number t" by (simp add: rebalance_def)
qed

lemma tree_import_ok:
  fixes D :: "('h, 'e) descendent"
  assumes D: "D = honest anc" and a: "ancestry anc num" and f: "forest_ok anc num (roots t)" and r: "\<not> reverts t (num h)"
    and h: "h \<notin> hashes (roots t)" "\<forall>x \<in> hashes (roots t). \<not> anc h x"
  shows "\<exists>t'. tree_import D h (num h) v t = (t', Ok (\<forall>x \<in> hashes (roots t). \<not> anc x h)) \<and>
    forest_ok anc num (roots t') \<and> entries (roots t') = add_mset (h, num h, v) (entries (roots t)) \<and>
    best_finalized_number t' = best_finalized_number t"
proof -
  have L: "imports_spec anc num h v (roots t) (import_roots D h (num h) v (roots t))"
    unfolding import_roots_children
    by (rule import_list [OF a import_node [OF a D] f]) (rule forest_member [OF f])
  have rt: "node_hash c \<in> hashes (roots t)" if "c \<in> set (roots t)" for c by (rule root_in_hashes [OF that])
  have top: "(\<exists>x \<in> hashes (roots t). anc x h) \<longleftrightarrow> (\<exists>c \<in> set (roots t). anc (node_hash c) h)"
    by (rule some_ancestor [OF a f])
  show ?thesis
  proof (cases "\<exists>c \<in> set (roots t). anc (node_hash c) h")
    case True
    then obtain rs where "import_roots D h (num h) v (roots t) = (rs, Ok None :: ('e ForkError, _) result)"
        "forest_ok anc num rs" "entries rs = add_mset (h, num h, v) (entries (roots t))"
      using L h unfolding imports_spec_def by auto
    then show ?thesis
      using r True top rebalance_ok [where t = "t\<lparr>roots := rs\<rparr>"]
      by (intro exI [of _ "rebalance (t\<lparr>roots := rs\<rparr>)"]) (auto simp: tree_import_def)
  next
    case False
    let ?rs = "roots t @ [Node h (num h) v []]"
    have "import_roots D h (num h) v (roots t) = (roots t, Ok (Some (h, num h, v)) :: ('e ForkError, _) result)"
      using L h False unfolding imports_spec_def by auto
    moreover have "apart anc (map node_hash ?rs)"
      using f False h rt ancestryD(4) [OF a] by (auto simp: forest_ok_def apart_def)
    then have "forest_ok anc num ?rs" using f by (auto simp: forest_ok_def node_ok_children apart_def)
    ultimately show ?thesis
      using r False top rebalance_ok [where t = "t\<lparr>roots := ?rs\<rparr>"]
      by (intro exI [of _ "rebalance (t\<lparr>roots := ?rs\<rparr>)"]) (auto simp: tree_import_def)
  qed
qed

lemma tree_import_refused:
  fixes D :: "('h, 'e) descendent"
  assumes "ancestry anc num" "forest_ok anc num (roots t)" and D: "D = honest anc"
  shows "reverts t n \<Longrightarrow> tree_import D h n v t = (t, Err Revert)"
    and "\<not> reverts t (num h) \<Longrightarrow> h \<in> hashes (roots t) \<Longrightarrow> tree_import D h (num h) v t = (t, Err Duplicate)"
proof -
  show "reverts t n \<Longrightarrow> tree_import D h n v t = (t, Err Revert)" by (simp add: tree_import_def)
  have L: "imports_spec anc num h v (roots t) (import_roots D h (num h) v (roots t))"
    unfolding import_roots_children
    by (rule import_list [OF assms(1) import_node [OF assms(1) D] assms(2)]) (rule forest_member [OF assms(2)])
  then show "\<not> reverts t (num h) \<Longrightarrow> h \<in> hashes (roots t) \<Longrightarrow> tree_import D h (num h) v t = (t, Err Duplicate)"
    by (auto simp: tree_import_def imports_spec_def)
qed

end
