(* ===== verification/ForkTreeFinality.thy ===== *)
theory ForkTreeFinality
  imports ForkTreeSafety
begin

text \<open>
  What finalizing a block keeps of the fork tree: the descendents of the block, and nothing else.
\<close>

section \<open>Keeping the descendents\<close>

definition keeping :: "('h \<Rightarrow> bool) \<Rightarrow> ('h \<times> 'n \<times> 'v) multiset \<Rightarrow> ('h \<times> 'n \<times> 'v) multiset" where
  "keeping P M = filter_mset (\<lambda>e. P (fst e)) M"

lemma keeping_simps [simp]:
  "keeping P {#} = {#}" "keeping P (M + N) = keeping P M + keeping P N"
  "keeping P (add_mset e M) = (if P (fst e) then add_mset e (keeping P M) else keeping P M)"
  by (simp_all add: keeping_def)

lemma keeping_all: "(\<And>x. x \<in> hashes nds \<Longrightarrow> P x) \<Longrightarrow> keeping P (entries nds) = entries nds"
  by (auto simp: keeping_def hashes_entries filter_mset_eq_conv)

lemma keeping_none: "(\<And>x. x \<in> hashes nds \<Longrightarrow> \<not> P x) \<Longrightarrow> keeping P (entries nds) = {#}"
  by (auto simp: keeping_def hashes_entries)

lemma entries_perm: "mset xs = mset ys \<Longrightarrow> entries xs = entries ys"
  by (metis entries_mset)

lemma forest_perm: "mset xs = mset ys \<Longrightarrow> forest_ok anc num xs = forest_ok anc num ys"
  using apart_perm [of "map node_hash xs" "map node_hash ys" anc] mset_eq_setD [of xs ys] by (simp add: forest_ok_def)

lemma below_all:
  assumes "ancestry anc num" "node_ok anc num r" "anc h (node_hash r)" "x \<in> hashes [r]"
  shows "anc h x"
  using under_root [OF assms(1,2,4)] assms(3) ancestryD(2) [OF assms(1)] by auto

lemma apart_none:
  assumes "ancestry anc num" "node_ok anc num r" "node_hash r \<noteq> h" "\<not> anc (node_hash r) h" "\<not> anc h (node_hash r)" "x \<in> hashes [r]"
  shows "\<not> anc h x"
  using under_root [OF assms(1,2,6)] assms(3-5) ancestryD(3) [OF assms(1)] by auto

lemma keep_tree:
  assumes a: "ancestry anc num" and r: "node_ok anc num r"
  shows "anc h (node_hash r) \<Longrightarrow> keeping (anc h) (entries [r]) = entries [r]"
    and "node_hash r \<noteq> h \<Longrightarrow> \<not> anc (node_hash r) h \<Longrightarrow> \<not> anc h (node_hash r) \<Longrightarrow> keeping (anc h) (entries [r]) = {#}"
    and "node_hash r = h \<Longrightarrow> keeping (anc h) (entries [r]) = entries (node_children r)"
proof -
  show "keeping (anc h) (entries [r]) = entries [r]" if "anc h (node_hash r)"
    by (rule keeping_all) (rule below_all [OF a r that])
  show "keeping (anc h) (entries [r]) = {#}" if "node_hash r \<noteq> h" "\<not> anc (node_hash r) h" "\<not> anc h (node_hash r)"
    by (rule keeping_none) (rule apart_none [OF a r that])
  show "keeping (anc h) (entries [r]) = entries (node_children r)" if "node_hash r = h"
  proof (cases r)
    case (Node h' n v cs)
    have "anc h x" if "x \<in> hashes cs" for x
    proof -
      obtain c where c: "c \<in> set cs" "x \<in> hashes [c]" using \<open>x \<in> hashes cs\<close> in_hashes [of x cs] by blast
      then have "node_ok anc num c" "anc h (node_hash c)"
        using r \<open>node_hash r = h\<close> Node by (auto simp: node_ok_children forest_ok_def)
      then show ?thesis using below_all [OF a, of c h x] c(2) by simp
    qed
    then have "keeping (anc h) (entries cs) = entries cs" by (intro keeping_all)
    then show ?thesis using Node that ancestryD(4) [OF a] by simp
  qed
qed

lemma keep_forest:
  assumes a: "ancestry anc num" and f: "\<And>r. r \<in> set rs \<Longrightarrow> node_ok anc num r"
    and r: "\<And>r. r \<in> set rs \<Longrightarrow> node_hash r \<noteq> h \<and> \<not> anc (node_hash r) h"
  shows "keeping (anc h) (entries rs) = entries (filter (\<lambda>r. anc h (node_hash r)) rs)"
  using f r
proof (induction rs)
  case (Cons r rs)
  then show ?case
    using keep_tree(1,2) [OF a, of r h] split_first(2) [of r rs] split_first(2) [of r "filter (\<lambda>r. anc h (node_hash r)) rs"] by simp
qed simp

lemma forest_Cons:
  "forest_ok anc num (r # rs) \<Longrightarrow> c \<in> set rs \<Longrightarrow>
   node_hash c \<noteq> node_hash r \<and> \<not> anc (node_hash c) (node_hash r) \<and> \<not> anc (node_hash r) (node_hash c) \<and> node_ok anc num c"
proof -
  assume f: "forest_ok anc num (r # rs)" and c: "c \<in> set rs"
  have ap: "apart anc (node_hash r # map node_hash rs)" and ok: "node_ok anc num c" using f c by (auto simp: forest_ok_def)
  have *: "x \<noteq> y \<and> \<not> anc x y \<and> \<not> anc y x" if "apart anc (y # ys)" "x \<in> set ys" for x y and ys :: "'a list"
    using that by (auto simp: apart_def)
  show ?thesis using * [OF ap, of "node_hash c"] c ok by auto
qed

lemma others_apart:
  assumes a: "ancestry anc num" and f: "forest_ok anc num (r # rs)" and h: "node_hash r = h"
  shows "keeping (anc h) (entries rs) = {#}"
proof -
  have "node_hash c \<noteq> h \<and> \<not> anc (node_hash c) h \<and> \<not> anc h (node_hash c)" if "c \<in> set rs" for c
    using forest_Cons [OF f that] h by auto
  moreover have "node_ok anc num c" if "c \<in> set rs" for c using f that by (simp add: forest_ok_def)
  ultimately show ?thesis
    using keep_forest [OF a, of rs h] by (simp add: filter_False)
qed

lemma filter_forest: "forest_ok anc num rs \<Longrightarrow> forest_ok anc num (filter P rs)"
  by (auto simp: forest_ok_def apart_def distinct_map_filter)

lemma open_root:
  assumes a: "ancestry anc num" and f: "forest_ok anc num (r # rs)"
  shows "forest_ok anc num (rs @ node_children r)"
proof -
  obtain h n v cs where r: "r = Node h n v cs" by (cases r)
  have cs: "forest_ok anc num cs" "\<And>c. c \<in> set cs \<Longrightarrow> anc h (node_hash c)"
    using f by (auto simp: r forest_ok_def node_ok_children)
  have rs: "forest_ok anc num rs" "\<And>d. d \<in> set rs \<Longrightarrow> h \<noteq> node_hash d \<and> \<not> anc h (node_hash d) \<and> \<not> anc (node_hash d) h"
    using forest_ok_tail [OF f] forest_Cons [OF f] by (auto simp: r)
  have x: "node_hash c \<noteq> node_hash d \<and> \<not> anc (node_hash c) (node_hash d) \<and> \<not> anc (node_hash d) (node_hash c)"
    if "c \<in> set cs" "d \<in> set rs" for c d
    using cs(2) [OF that(1)] rs(2) [OF that(2)] ancestryD(2) [OF a, of h "node_hash c" "node_hash d"]
      ancestryD(3) [OF a, of h "node_hash c" "node_hash d"] by auto
  have "apart anc (map node_hash (rs @ cs))"
    using cs(1) rs(1) x unfolding forest_ok_def apart_def by fastforce
  then show ?thesis using cs(1) rs(1) by (auto simp: r forest_ok_def)
qed

lemma children_forest: "node_ok anc num r \<Longrightarrow> forest_ok anc num (node_children r)"
  by (cases r) (simp add: node_ok_children)

section \<open>The operations\<close>

lemma mset_swap_remove:
  assumes "i < length xs"
  shows "mset xs = add_mset (xs ! i) (mset (snd (swap_remove i xs)))" "take i (snd (swap_remove i xs)) = take i xs"
proof -
  obtain us x where xs: "xs = us @ [x]" using assms by (cases xs rule: rev_cases) auto
  show "mset xs = add_mset (xs ! i) (mset (snd (swap_remove i xs)))"
  proof (cases "i < length us")
    case True
    then have "mset us = add_mset (us ! i) (mset us - {#us ! i#})" by (simp add: nth_mem)
    then show ?thesis using True by (simp add: swap_remove_def xs list_update_append nth_append butlast_append mset_update)
  next
    case False
    then show ?thesis using assms by (simp add: swap_remove_def xs list_update_append nth_append butlast_append)
  qed
  show "take i (snd (swap_remove i xs)) = take i xs"
    using assms by (simp add: swap_remove_def xs butlast_append list_update_append)
qed

lemma position_Some: "position P xs = Some i \<Longrightarrow> i < length xs \<and> P (xs ! i)"
  by (induction P xs arbitrary: i rule: position.induct) (auto split: if_splits)

lemma position_None: "position P xs = None \<longleftrightarrow> (\<forall>x \<in> set xs. \<not> P x)"
  by (induction P xs rule: position.induct) auto

lemma pick:
  assumes "i < length xs"
  obtains rest where "mset xs = mset (xs ! i # rest)"
  using mset_swap_remove(1) [OF assms] by auto

text \<open>Finalizing a root leaves its children: exactly what descends from it.\<close>

lemma finalize_root_at_ok:
  assumes a: "ancestry anc num" and f: "forest_ok anc num (roots t)" and i: "i < length (roots t)" "node_hash (roots t ! i) = h"
  shows "\<exists>t' v. finalize_root_at i t = (t', v) \<and> forest_ok anc num (roots t') \<and>
    entries (roots t') = keeping (anc h) (entries (roots t)) \<and> best_finalized_number t' = Some (num h) \<and>
    (h, num h, v) \<in># entries (roots t)"
proof -
  obtain rest where m: "mset (roots t) = mset (roots t ! i # rest)" by (rule pick [OF i(1)])
  let ?r = "roots t ! i"
  have ok: "forest_ok anc num (?r # rest)" using f forest_perm [OF m] by simp
  then have r: "node_ok anc num ?r" by (simp add: forest_ok_def)
  have "keeping (anc h) (entries (roots t)) = keeping (anc h) (entries [?r]) + keeping (anc h) (entries rest)"
    unfolding entries_perm [OF m] split_first(2) [of ?r rest] by simp
  then have k: "entries (node_children ?r) = keeping (anc h) (entries (roots t))"
    using keep_tree(3) [OF a r i(2)] others_apart [OF a ok i(2)] by simp
  obtain n v cs where rn: "?r = Node h n v cs" using i(2) by (cases ?r) auto
  then have "n = num h" using r by (simp add: node_ok_children)
  moreover have "(h, n, v) \<in># entries (roots t)" unfolding entries_perm [OF m] by (simp add: rn)
  ultimately show ?thesis
    using k rn children_forest [OF r] by (auto simp: finalize_root_at_def swap_remove_def)
qed

lemma some_descends_honest:
  "some_descends Q (honest anc) h nds =
     (if \<exists>nd \<in> set nds. Q (node_number nd) \<and> anc (node_hash nd) h then Err UnfinalizedAncestor else Ok ())"
  by (induction nds) (auto simp: andalso_def)

lemma retain_ok: "(\<And>r. r \<in> set rs \<Longrightarrow> keep r = Ok (Q r)) \<Longrightarrow> retain keep rs = (filter Q rs, Ok (\<exists>r \<in> set rs. \<not> Q r))"
  by (induction rs) auto

lemma number_of: "node_ok anc num r \<Longrightarrow> node_number r = num (node_hash r)"
  by (cases r) (simp add: node_ok_children)

text \<open>The outcome of finalization, for each operation that keeps the descendents.\<close>

definition finalized :: "('h \<Rightarrow> 'h \<Rightarrow> bool) \<Rightarrow> ('h \<Rightarrow> 'n::linorder) \<Rightarrow> 'h \<Rightarrow> ('h, 'n, 'v) ForkTree \<Rightarrow>
    ('h, 'n, 'v) ForkTree \<times> ('e ForkError, 'v FinalizationResult) result \<Rightarrow> bool" where
  "finalized anc num h t r \<longleftrightarrow>
     (\<exists>t' res. r = (t', Ok res) \<and> forest_ok anc num (roots t') \<and>
        entries (roots t') = keeping (anc h) (entries (roots t)) \<and> best_finalized_number t' = Some (num h) \<and>
        (case res of
           Changed (Some v) \<Rightarrow> (h, num h, v) \<in># entries (roots t)
         | Changed None \<Rightarrow> h \<notin> hashes (roots t) \<and> entries (roots t') \<noteq> entries (roots t)
         | Unchanged \<Rightarrow> entries (roots t') = entries (roots t)))"

lemma finalize_root_ok:
  assumes a: "ancestry anc num" and f: "forest_ok anc num (roots t)"
  shows "case finalize_root h t of
      (t', Some v) \<Rightarrow> finalized anc num h t (t', Ok (Changed (Some v)))
    | (_, None) \<Rightarrow> \<forall>r \<in> set (roots t). node_hash r \<noteq> h"
proof (cases "position (\<lambda>nd. node_hash nd = h) (roots t)")
  case None
  then have "\<forall>r \<in> set (roots t). node_hash r \<noteq> h" unfolding position_None .
  then show ?thesis using None by (simp add: finalize_root_def)
next
  case (Some i)
  then have "i < length (roots t)" "node_hash (roots t ! i) = h" using position_Some [OF Some] by auto
  then show ?thesis
    using finalize_root_at_ok [OF a f] Some by (fastforce simp: finalize_root_def finalized_def split: prod.split)
qed

lemma outside:
  assumes a: "ancestry anc num" and f: "forest_ok anc num nds" and "\<And>r. r \<in> set nds \<Longrightarrow> node_hash r \<noteq> h \<and> \<not> anc (node_hash r) h"
  shows "h \<notin> hashes nds"
proof
  assume "h \<in> hashes nds"
  then obtain c where "c \<in> set nds" "h \<in> hashes [c]" using in_hashes [of h nds] by blast
  then show False using under_root [OF a forest_member [OF f]] assms(3) by blast
qed

lemma entries_filter_ne:
  assumes "r \<in> set rs" "\<not> Q r"
  shows "entries (filter Q rs) \<noteq> entries rs"
proof -
  have "mset rs = mset (filter Q rs @ filter (\<lambda>r. \<not> Q r) rs)" by (induction rs) auto
  then have "entries rs = entries (filter Q rs) + entries (filter (\<lambda>r. \<not> Q r) rs)" by (metis entries_perm entries_simps(3))
  moreover have "entries (filter (\<lambda>r. \<not> Q r) rs) \<noteq> {#}"
    using assms root_in_hashes [of r "filter (\<lambda>r. \<not> Q r) rs"] by (auto simp: hashes_entries)
  ultimately show ?thesis by auto
qed

lemma finalize_ok:
  fixes D :: "('h, 'e) descendent"
  assumes a: "ancestry anc num" and f: "forest_ok anc num (roots t)" and D: "D = honest anc" and r: "\<not> reverts t (num h)"
  shows "if \<exists>x \<in> hashes (roots t). anc x h then finalize D h (num h) t = (t, Err UnfinalizedAncestor)
    else finalized anc num h t (finalize D h (num h) t)"
proof (cases "finalize_root h t")
  case (Pair t' o')
  note fr = finalize_root_ok [OF a f, of h, unfolded Pair]
  note top = some_ancestor [OF a f, of h]
  have num: "node_number c = num (node_hash c)" if "c \<in> set (roots t)" for c using that f number_of by (auto simp: forest_ok_def)
  show ?thesis
  proof (cases o')
    case (Some v)
    then have fin: "finalized anc num h t (t', Ok (Changed (Some v)) :: ('e ForkError, _) result)" using fr by simp
    have "\<not> (\<exists>c \<in> set (roots t). anc (node_hash c) h)"
    proof
      assume "\<exists>c \<in> set (roots t). anc (node_hash c) h"
      moreover obtain d where "d \<in> set (roots t)" "node_hash d = h"
        using Pair Some position_Some [of "\<lambda>nd. node_hash nd = h" "roots t"] nth_mem
        by (fastforce simp: finalize_root_def split: option.splits prod.splits)
      ultimately show False using f by (auto simp: forest_ok_def apart_def)
    qed
    then show ?thesis using fin top Pair Some r by (simp add: finalize_def)
  next
    case None
    then have nr: "\<forall>r \<in> set (roots t). node_hash r \<noteq> h" using fr by simp
    have sd: "some_descends (\<lambda>n. num h > n) D h (roots t) =
        (if \<exists>c \<in> set (roots t). anc (node_hash c) h then Err UnfinalizedAncestor else Ok ())"
      unfolding D some_descends_honest using num ancestryD(1) [OF a] by force
    show ?thesis
    proof (cases "\<exists>c \<in> set (roots t). anc (node_hash c) h")
      case True
      then show ?thesis using top Pair None r sd by (simp add: finalize_def)
    next
      case False
      let ?Q = "\<lambda>c. anc h (node_hash c)"
      have rt: "retain (\<lambda>c. andalso (node_number c > num h) (ask (D h (node_hash c)))) (roots t) =
          (filter ?Q (roots t), Ok (\<exists>c \<in> set (roots t). \<not> ?Q c))"
        by (rule retain_ok) (use num ancestryD(1) [OF a] D in \<open>auto simp: andalso_def\<close>)
      have k: "keeping (anc h) (entries (roots t)) = entries (filter ?Q (roots t))"
        by (rule keep_forest [OF a]) (use f False nr in \<open>auto simp: forest_ok_def\<close>)
      have "h \<notin> hashes (roots t)" by (rule outside [OF a f]) (use False nr in auto)
      moreover have "entries (filter ?Q (roots t)) \<noteq> entries (roots t)" if "\<exists>c \<in> set (roots t). \<not> ?Q c"
        using that entries_filter_ne [of _ "roots t" ?Q] by blast
      moreover have "filter ?Q (roots t) = roots t" if "\<not> (\<exists>c \<in> set (roots t). \<not> ?Q c)" using that by simp
      ultimately have "finalized anc num h t (finalize D h (num h) t)"
        using filter_forest [OF f, of ?Q] Pair None r sd False rt k by (auto simp: finalize_def finalized_def)
      then show ?thesis using False top by simp
    qed
  qed
qed

section \<open>Finalizing past unfinalized ancestors\<close>

definition loop_done :: "('h \<Rightarrow> 'h \<Rightarrow> bool) \<Rightarrow> ('h \<Rightarrow> 'n::linorder) \<Rightarrow> 'h \<Rightarrow> bool \<Rightarrow> ('h, 'n, 'v) ForkTree \<Rightarrow>
    ('h, 'n, 'v) ForkTree \<times> ('e ForkError, 'v FinalizationResult) result \<Rightarrow> bool" where
  "loop_done anc num h changed t r \<longleftrightarrow>
     (\<exists>t' res. r = (t', Ok res) \<and> forest_ok anc num (roots t') \<and>
        entries (roots t') = keeping (anc h) (entries (roots t)) \<and> best_finalized_number t' = Some (num h) \<and>
        (case res of
           Changed (Some v) \<Rightarrow> (h, num h, v) \<in># entries (roots t)
         | Changed None \<Rightarrow> h \<notin> hashes (roots t) \<and> (changed \<or> entries (roots t') \<noteq> entries (roots t))
         | Unchanged \<Rightarrow> \<not> changed \<and> entries (roots t') = entries (roots t)))"

text \<open>A turn that replaces the roots by others with the same descendents of the block, dropping a root.\<close>

lemma loop_step:
  assumes d: "loop_done anc num h True t1 r" and k: "keeping (anc h) (entries (roots t1)) = keeping (anc h) (entries (roots t))"
    and s: "entries (roots t) = add_mset e (entries (roots t1)) + M" "\<not> anc h (fst e)" "h \<notin> fst ` set_mset M" "fst e \<noteq> h"
  shows "loop_done anc num h changed t r"
proof -
  have "e \<in># entries (roots t)" "e \<notin># keeping (anc h) (entries (roots t))" using s(1,2) by (auto simp: keeping_def)
  then have ne: "keeping (anc h) (entries (roots t)) \<noteq> entries (roots t)" by metis
  have h: "h \<in> hashes (roots t) \<longleftrightarrow> h \<in> hashes (roots t1)" using s(1,3,4) by (auto simp: hashes_entries)
  obtain t' res where r: "r = (t', Ok res)" "forest_ok anc num (roots t')" "entries (roots t') = keeping (anc h) (entries (roots t1))"
    "best_finalized_number t' = Some (num h)"
    "case res of Changed (Some v) \<Rightarrow> (h, num h, v) \<in># entries (roots t1)
         | Changed None \<Rightarrow> h \<notin> hashes (roots t1) \<and> (True \<or> entries (roots t') \<noteq> entries (roots t1))
         | Unchanged \<Rightarrow> \<not> True \<and> entries (roots t') = entries (roots t1)"
    using d unfolding loop_done_def by blast
  have "case res of Changed (Some v) \<Rightarrow> (h, num h, v) \<in># entries (roots t)
         | Changed None \<Rightarrow> h \<notin> hashes (roots t) \<and> (changed \<or> entries (roots t') \<noteq> entries (roots t))
         | Unchanged \<Rightarrow> \<not> changed \<and> entries (roots t') = entries (roots t)"
    using r(3,5) k ne h s(1) by (cases res) (auto split: option.splits)
  then show ?thesis unfolding loop_done_def using r(1-4) k by auto
qed

lemma ancestors_loop_ok:
  fixes D :: "('h, 'e) descendent"
  assumes a: "ancestry anc num" and D: "D = honest anc"
  shows "forest_ok anc num (roots t) \<Longrightarrow> i \<le> length (roots t) \<Longrightarrow> \<forall>r \<in> set (take i (roots t)). anc h (node_hash r) \<Longrightarrow>
    loop_done anc num h changed t (ancestors_loop D h (num h) i changed t)"
proof (induction "weight (drop i (roots t))" arbitrary: i changed t rule: less_induct)
  case less
  note f = less.prems(1)
  show ?case
  proof (cases "i = length (roots t)")
    case True
    then have d: "\<And>r. r \<in> set (roots t) \<Longrightarrow> anc h (node_hash r)" using less.prems(3) by simp
    have nh: "node_hash r \<noteq> h \<and> \<not> anc (node_hash r) h" if "r \<in> set (roots t)" for r
      using d [OF that] ancestryD(4,5) [OF a] by metis
    have "keeping (anc h) (entries (roots t)) = entries (filter (\<lambda>r. anc h (node_hash r)) (roots t))"
      by (rule keep_forest [OF a]) (use f nh in \<open>auto simp: forest_ok_def\<close>)
    also have "filter (\<lambda>r. anc h (node_hash r)) (roots t) = roots t" using d by simp
    finally show ?thesis
      using True f outside [OF a f nh] by (simp add: ancestors_loop.simps loop_done_def)
  next
    case False
    then have i: "i < length (roots t)" using less.prems(2) by simp
    let ?r = "roots t ! i" and ?rest = "snd (swap_remove i (roots t))"
    have "\<not> length (roots t) < i" using i by simp
    note w = weight_steps [OF False this]
    have m: "mset (roots t) = mset (?r # ?rest)" using mset_swap_remove(1) [OF i] by simp
    have fr: "forest_ok anc num (?r # ?rest)" using f forest_perm [OF m] by simp
    then have r: "node_ok anc num ?r" by (simp add: forest_ok_def)
    have e: "entries (roots t) = entries [?r] + entries ?rest" unfolding entries_perm [OF m] by (rule split_first(2))
    have lt: "node_number ?r > num h \<longleftrightarrow> True" if "anc h (node_hash ?r)" using that number_of [OF r] ancestryD(1) [OF a] by simp
    have gt: "node_number ?r < num h \<longleftrightarrow> True" if "anc (node_hash ?r) h" using that number_of [OF r] ancestryD(1) [OF a] by simp
    have rel: "relation_to_root D h (num h) ?r = Ok (node_hash ?r = h, anc h (node_hash ?r), anc (node_hash ?r) h)"
      using lt gt ancestryD(4,5) [OF a] D by (auto simp: relation_to_root_def andalso_def Let_def)
    have "i \<le> length ?rest" using i by (simp add: swap_remove_def)
    then have tk: "take i (?rest @ ys) = take i (roots t)" for ys using mset_swap_remove(2) [OF i] by simp
    obtain h' n v cs where rn: "?r = Node h' n v cs" by (cases ?r)
    consider (fin) "node_hash ?r = h" | (desc) "anc h (node_hash ?r)" | (anc) "anc (node_hash ?r) h"
      | (none) "node_hash ?r \<noteq> h" "\<not> anc h (node_hash ?r)" "\<not> anc (node_hash ?r) h" by blast
    then show ?thesis
    proof cases
      case fin
      then show ?thesis
        using finalize_root_at_ok [OF a f i fin] rel i False
        by (fastforce simp: ancestors_loop.simps loop_done_def)
    next
      case desc
      have "ancestors_loop D h (num h) i changed t = ancestors_loop D h (num h) (Suc i) changed t"
        using rel desc i ancestryD(4) [OF a] by (subst ancestors_loop.simps) auto
      moreover have "\<forall>r \<in> set (take (Suc i) (roots t)). anc h (node_hash r)"
        using less.prems(3) desc i by (auto simp: take_Suc_conv_app_nth)
      ultimately show ?thesis using less.hyps [OF w(1) f] i by simp
    next
      case anc
      let ?t = "t\<lparr>roots := ?rest @ node_children ?r\<rparr>"
      have l: "ancestors_loop D h (num h) i changed t = ancestors_loop D h (num h) i True ?t"
        using rel anc i ancestryD(4,5) [OF a] by (subst ancestors_loop.simps) (auto simp: swap_remove_def)
      have "loop_done anc num h True ?t (ancestors_loop D h (num h) i True ?t)"
      proof (rule less.hyps)
        show "weight (drop i (roots ?t)) < weight (drop i (roots t))" using w(2) by (simp add: swap_remove_def)
        show "forest_ok anc num (roots ?t)" using open_root [OF a fr] by simp
        show "i \<le> length (roots ?t)" using \<open>i \<le> length ?rest\<close> by simp
        show "\<forall>r \<in> set (take i (roots ?t)). anc h (node_hash r)" using less.prems(3) tk by simp
      qed
      then show ?thesis unfolding l
      proof (rule loop_step [where e = "(h', n, v)" and M = "{#}"])
        show "keeping (anc h) (entries (roots ?t)) = keeping (anc h) (entries (roots t))"
          using e rn anc ancestryD(5) [OF a] by (simp add: add.commute)
        show "entries (roots t) = add_mset (h', n, v) (entries (roots ?t)) + {#}" using e rn by (simp add: add.commute)
      qed (use anc rn ancestryD(4,5) [OF a] in auto)
    next
      case none
      let ?t = "t\<lparr>roots := ?rest\<rparr>"
      have l: "ancestors_loop D h (num h) i changed t = ancestors_loop D h (num h) i True ?t"
        using rel none i by (subst ancestors_loop.simps) auto
      have "loop_done anc num h True ?t (ancestors_loop D h (num h) i True ?t)"
      proof (rule less.hyps)
        show "weight (drop i (roots ?t)) < weight (drop i (roots t))" using w(3) by simp
        show "forest_ok anc num (roots ?t)" using forest_ok_tail [OF fr] by simp
        show "i \<le> length (roots ?t)" using \<open>i \<le> length ?rest\<close> by simp
        show "\<forall>r \<in> set (take i (roots ?t)). anc h (node_hash r)" using less.prems(3) tk [of "[]"] by simp
      qed
      then show ?thesis unfolding l
      proof (rule loop_step [where e = "(h', n, v)" and M = "entries cs"])
        show "keeping (anc h) (entries (roots ?t)) = keeping (anc h) (entries (roots t))"
          using e keep_tree(2) [OF a r none(1,3,2)] by simp
        show "entries (roots t) = add_mset (h', n, v) (entries (roots ?t)) + entries cs" using e rn by (simp add: add.commute)
        show "h \<notin> fst ` set_mset (entries cs)"
          using under_root [OF a r, of h] none rn by (auto simp: hashes_entries)
      qed (use none rn in auto)
    qed
  qed
qed

lemma finalize_with_ancestors_ok:
  fixes D :: "('h, 'e) descendent"
  assumes a: "ancestry anc num" and f: "forest_ok anc num (roots t)" and D: "D = honest anc" and r: "\<not> reverts t (num h)"
  shows "finalized anc num h t (finalize_with_ancestors D h (num h) t)"
proof (cases "finalize_root h t")
  case (Pair t' o')
  show ?thesis
  proof (cases o')
    case (Some v)
    then show ?thesis using finalize_root_ok [OF a f, of h] Pair r by (simp add: finalize_with_ancestors_def)
  next
    case None
    have "loop_done anc num h False t (ancestors_loop D h (num h) 0 False t)"
      by (rule ancestors_loop_ok [OF a D f]) simp_all
    then have "finalized anc num h t (ancestors_loop D h (num h) 0 False t)"
      unfolding loop_done_def finalized_def by (simp cong: FinalizationResult.case_cong option.case_cong)
    then show ?thesis using Pair None r by (simp add: finalize_with_ancestors_def)
  qed
qed

end
