(* ===== verification/ForkTreeSearch.thy ===== *)
theory ForkTreeSearch
  imports ForkTreeFinality
begin

text \<open>
  Iterating, searching and pruning the fork tree. The search returns the deepest ancestor of a block that
  passes a predicate; pruning re-roots the tree there and hands over every node it removes.
\<close>

section \<open>Iteration\<close>

lemma node_iter_from_eq: "node_iter_from st = all_nodes (rev st)"
proof (induction st rule: node_iter_from.induct)
  case (1 st)
  show ?case
  proof (cases st rule: rev_cases)
    case (snoc us nd)
    obtain h n v cs where nd: "nd = Node h n v cs" by (cases nd)
    have "node_iter_from st = nd # node_iter_from (us @ rev cs)"
      by (subst node_iter_from.simps) (simp add: snoc nd)
    also have "node_iter_from (us @ rev cs) = all_nodes (cs @ rev us)" using 1 by (simp add: snoc nd)
    finally show ?thesis by (simp add: snoc nd)
  qed (simp add: node_iter_from.simps)
qed

lemma node_iter_eq: "node_iter t = all_nodes (roots t)"
  by (simp add: node_iter_def node_iter_from_eq)

lemma removed_iter_mset: "mset (removed_iter st) = entries st"
  using entries_perm [of "rev st" st] by (simp add: removed_iter_def node_iter_from_eq entries_def)

section \<open>Search\<close>

definition candidate :: "('h \<Rightarrow> 'h \<Rightarrow> bool) \<Rightarrow> ('v \<Rightarrow> bool) \<Rightarrow> 'h \<Rightarrow> ('h, 'n, 'v) Node \<Rightarrow> bool" where
  "candidate anc P h x \<longleftrightarrow> anc (node_hash x) h \<and> P (node_data x)"

definition deepest :: "('h \<Rightarrow> 'h \<Rightarrow> bool) \<Rightarrow> ('v \<Rightarrow> bool) \<Rightarrow> 'h \<Rightarrow> ('h, 'n, 'v) Node list \<Rightarrow> ('h, 'n, 'v) Node \<Rightarrow> bool" where
  "deepest anc P h nds x \<longleftrightarrow> x \<in> set nds \<and> candidate anc P h x \<and>
     (\<forall>y \<in> set nds. candidate anc P h y \<longrightarrow> y = x \<or> anc (node_hash y) (node_hash x))"

lemma node_hash_in: "x \<in> set (nodes c) \<Longrightarrow> node_hash x \<in> hashes [c]"
  by (auto simp: hashes_def)

lemma in_all_nodes: "x \<in> set (all_nodes nds) \<longleftrightarrow> (\<exists>c \<in> set nds. x \<in> set (nodes c))"
  by (auto simp: all_nodes_def)

lemma candidate_root:
  assumes "ancestry anc num" "node_ok anc num c" "x \<in> set (nodes c)" "candidate anc P h x"
  shows "anc (node_hash c) h"
  using under_root [OF assms(1,2) node_hash_in [OF assms(3)]] assms(4) ancestryD(2) [OF assms(1)]
  by (auto simp: candidate_def)

definition find_spec :: "('h \<Rightarrow> 'h \<Rightarrow> bool) \<Rightarrow> ('v \<Rightarrow> bool) \<Rightarrow> 'h \<Rightarrow> ('h, 'n, 'v) Node \<Rightarrow> ('e ForkError, nat list FindOutcome) result \<Rightarrow> bool" where
  "find_spec anc P h c r \<longleftrightarrow>
     (\<exists>p x. r = Ok (Found p) \<and> walk (rev p) c = (Ok x :: ('e ForkError, _) result) \<and> deepest anc P h (nodes c) x) \<or>
     (r = Ok (Failure (anc (node_hash c) h)) \<and> (\<forall>y \<in> set (nodes c). \<not> candidate anc P h y))"

definition finds_spec :: "('h \<Rightarrow> 'h \<Rightarrow> bool) \<Rightarrow> ('v \<Rightarrow> bool) \<Rightarrow> 'h \<Rightarrow> nat \<Rightarrow> ('h, 'n, 'v) Node list \<Rightarrow> ('e ForkError, nat list FindOutcome) result \<Rightarrow> bool" where
  "finds_spec anc P h i cs r \<longleftrightarrow>
     (\<exists>q k x. r = Ok (Found (q @ [i + k])) \<and> k < length cs \<and> walk (rev q) (cs ! k) = (Ok x :: ('e ForkError, _) result) \<and>
        deepest anc P h (all_nodes cs) x) \<or>
     (r = Ok (Failure (\<exists>c \<in> set cs. anc (node_hash c) h)) \<and> (\<forall>y \<in> set (all_nodes cs). \<not> candidate anc P h y))"

text \<open>If a block descends from the first tree of a forest, no candidate is in the others.\<close>

lemma only_here:
  assumes a: "ancestry anc num" and f: "forest_ok anc num (c # cs)" and c: "anc (node_hash c) h"
  shows "\<forall>y \<in> set (all_nodes cs). \<not> candidate anc P h y"
proof
  fix y
  assume "y \<in> set (all_nodes cs)"
  then obtain d where d: "d \<in> set cs" "y \<in> set (nodes d)" unfolding in_all_nodes by blast
  have "\<not> anc (node_hash d) h" using other_root [OF a f, of h] c d(1) by simp
  moreover have "node_ok anc num d" using f d(1) by (simp add: forest_ok_def)
  ultimately show "\<not> candidate anc P h y" using candidate_root [OF a _ d(2)] by blast
qed

lemma deepest_here:
  assumes "deepest anc P h (nodes c) x" "\<forall>y \<in> set (all_nodes cs). \<not> candidate anc P h y"
  shows "deepest anc P h (all_nodes (c # cs)) x"
  using assms by (auto simp: deepest_def)

lemma deepest_there:
  assumes "deepest anc P h (all_nodes cs) x" "\<forall>y \<in> set (nodes c). \<not> candidate anc P h y"
  shows "deepest anc P h (all_nodes (c # cs)) x"
  using assms by (auto simp: deepest_def)

lemma deepest_anc:
  assumes "ancestry anc num" "node_ok anc num c" "deepest anc P h (nodes c) x"
  shows "anc (node_hash c) h"
  using candidate_root [OF assms(1,2)] assms(3) by (auto simp: deepest_def)

lemma find_list:
  fixes D :: "('h, 'e) descendent"
  assumes a: "ancestry anc num"
    and IH: "\<And>c. c \<in> set cs \<Longrightarrow> find_spec anc P h c (node_find_index D P h (num h) c)"
    and f: "forest_ok anc num cs"
  shows "finds_spec anc P h i cs (find_index_children D P h (num h) i cs)"
  using IH f
proof (induction cs arbitrary: i)
  case Nil
  show ?case by (simp add: finds_spec_def)
next
  case (Cons c cs)
  have ok: "node_ok anc num c" "forest_ok anc num cs" using forest_ok_tail [OF Cons.prems(2)] by auto
  have L: "finds_spec anc P h (Suc i) cs (find_index_children D P h (num h) (Suc i) cs)"
    by (rule Cons.IH) (use Cons.prems(1) ok(2) in auto)
  have "find_spec anc P h c (node_find_index D P h (num h) c)" using Cons.prems(1) by simp
  then consider (found) p x where "node_find_index D P h (num h) c = Ok (Found p)" "walk (rev p) c = (Ok x :: ('e ForkError, _) result)"
      "deepest anc P h (nodes c) x"
    | (fail) "node_find_index D P h (num h) c = Ok (Failure (anc (node_hash c) h))" "\<forall>y \<in> set (nodes c). \<not> candidate anc P h y"
    unfolding find_spec_def by blast
  then show ?case
  proof cases
    case (found p x)
    have "deepest anc P h (all_nodes (c # cs)) x"
      by (rule deepest_here [OF found(3) only_here [OF a Cons.prems(2) deepest_anc [OF a ok(1) found(3)]]])
    then show ?thesis unfolding finds_spec_def using found(1,2) by (intro disjI1 exI [of _ p] exI [of _ 0] exI [of _ x]) simp
  next
    case fail
    show ?thesis
    proof (cases "anc (node_hash c) h")
      case True
      then show ?thesis
        unfolding finds_spec_def using fail only_here [OF a Cons.prems(2) True] by (intro disjI2) auto
    next
      case False
      then have r: "find_index_children D P h (num h) i (c # cs) = find_index_children D P h (num h) (Suc i) cs"
        using fail(1) by simp
      from L consider (f) q k x where "find_index_children D P h (num h) (Suc i) cs = Ok (Found (q @ [Suc i + k]))" "k < length cs"
          "walk (rev q) (cs ! k) = (Ok x :: ('e ForkError, _) result)" "deepest anc P h (all_nodes cs) x"
        | (n) "find_index_children D P h (num h) (Suc i) cs = Ok (Failure (\<exists>c \<in> set cs. anc (node_hash c) h))"
            "\<forall>y \<in> set (all_nodes cs). \<not> candidate anc P h y"
        unfolding finds_spec_def by blast
      then show ?thesis
      proof cases
        case (f q k x)
        then show ?thesis unfolding finds_spec_def r
          using deepest_there [OF f(4) fail(2)] by (intro disjI1 exI [of _ q] exI [of _ "Suc k"] exI [of _ x]) simp
      next
        case n
        then show ?thesis unfolding finds_spec_def r using False fail(2) by (intro disjI2) auto
      qed
    qed
  qed
qed

lemma find_node:
  fixes D :: "('h, 'e) descendent"
  assumes a: "ancestry anc num" and D: "D = honest anc"
  shows "node_ok anc num c \<Longrightarrow> find_spec anc P h c (node_find_index D P h (num h) c)"
proof (induction c)
  case (Node h' n' v' cs)
  let ?c = "Node h' n' v' cs"
  have ok: "n' = num h'" "forest_ok anc num cs" "\<And>c. c \<in> set cs \<Longrightarrow> anc h' (node_hash c)"
    using Node.prems by (auto simp: node_ok_children)
  show ?case
  proof (cases "num h < n'")
    case True
    then have "\<not> anc h' h" using ok(1) ancestryD(1) [OF a, of h' h] by auto
    then have "\<forall>y \<in> set (nodes ?c). \<not> candidate anc P h y" using candidate_root [OF a Node.prems] by auto
    then show ?thesis using True \<open>\<not> anc h' h\<close> by (simp add: find_spec_def)
  next
    case False
    have "finds_spec anc P h 0 cs (find_index_children D P h (num h) 0 cs)"
      by (rule find_list [OF a _ ok(2)]) (use Node.IH forest_member [OF ok(2)] in blast)
    then consider (f) q k x where "find_index_children D P h (num h) 0 cs = Ok (Found (q @ [k]))" "k < length cs"
        "walk (rev q) (cs ! k) = (Ok x :: ('e ForkError, _) result)" "deepest anc P h (all_nodes cs) x"
      | (n) "find_index_children D P h (num h) 0 cs = Ok (Failure (\<exists>c \<in> set cs. anc (node_hash c) h))"
          "\<forall>y \<in> set (all_nodes cs). \<not> candidate anc P h y"
      unfolding finds_spec_def by auto
    then show ?thesis
    proof cases
      case (f q k x)
      obtain c where c: "c \<in> set cs" "x \<in> set (nodes c)" using f(4) in_all_nodes [of x cs] by (auto simp: deepest_def)
      then have "node_hash x = node_hash c \<or> anc (node_hash c) (node_hash x)"
        using under_root [OF a forest_member [OF ok(2) c(1)] node_hash_in] by blast
      then have "anc h' (node_hash x)" using ok(3) [OF c(1)] ancestryD(2) [OF a, of h'] by auto
      then have "deepest anc P h (nodes ?c) x" using f(4) by (auto simp: deepest_def)
      then show ?thesis using f False by (auto simp: find_spec_def)
    next
      case n
      have e: "(\<exists>c \<in> set cs. anc (node_hash c) h) \<or> anc h' h \<longleftrightarrow> anc h' h" using ok(3) ancestryD(2) [OF a] by blast
      have "orelse (\<exists>c \<in> set cs. anc (node_hash c) h) (ask (D h' h)) = Ok (anc h' h)"
        using e D by (auto simp: orelse_def)
      then have r: "node_find_index D P h (num h) ?c = Ok (if anc h' h \<and> P v' then Found [] else Failure (anc h' h))"
        using n(1) False by simp
      show ?thesis
      proof (cases "anc h' h \<and> P v'")
        case True
        then have "deepest anc P h (nodes ?c) ?c" using n(2) by (auto simp: deepest_def candidate_def)
        then show ?thesis using r True by (auto simp: find_spec_def)
      next
        case False
        then have "\<forall>y \<in> set (nodes ?c). \<not> candidate anc P h y" using n(2) by (auto simp: candidate_def)
        then show ?thesis using r False by (simp add: find_spec_def)
      qed
    qed
  qed
qed

lemma find_roots_index:
  fixes D :: "('h, 'e) descendent"
  assumes a: "ancestry anc num" and D: "D = honest anc" and f: "forest_ok anc num cs"
  shows "(\<exists>q k x. find_index_roots D P h (num h) i cs = Ok (Some (q @ [i + k])) \<and> k < length cs \<and>
        walk (rev q) (cs ! k) = (Ok x :: ('e ForkError, _) result) \<and> deepest anc P h (all_nodes cs) x) \<or>
     (find_index_roots D P h (num h) i cs = Ok None \<and> (\<forall>y \<in> set (all_nodes cs). \<not> candidate anc P h y))"
  using f
proof (induction cs arbitrary: i)
  case (Cons c cs)
  have ok: "node_ok anc num c" "forest_ok anc num cs" using forest_ok_tail [OF Cons.prems] by auto
  have "find_spec anc P h c (node_find_index D P h (num h) c)" by (rule find_node [OF a D ok(1)])
  then consider (found) p x where "node_find_index D P h (num h) c = Ok (Found p)" "walk (rev p) c = (Ok x :: ('e ForkError, _) result)"
      "deepest anc P h (nodes c) x"
    | (fail) "node_find_index D P h (num h) c = Ok (Failure (anc (node_hash c) h))" "\<forall>y \<in> set (nodes c). \<not> candidate anc P h y"
    unfolding find_spec_def by blast
  then show ?case
  proof cases
    case (found p x)
    have "deepest anc P h (all_nodes (c # cs)) x"
      by (rule deepest_here [OF found(3) only_here [OF a Cons.prems deepest_anc [OF a ok(1) found(3)]]])
    then show ?thesis using found(1,2) by (intro disjI1 exI [of _ p] exI [of _ 0] exI [of _ x]) simp
  next
    case fail
    then have r: "find_index_roots D P h (num h) i (c # cs) = find_index_roots D P h (num h) (Suc i) cs" by simp
    from Cons.IH [OF ok(2), of "Suc i"]
    consider (f) q k x where "find_index_roots D P h (num h) (Suc i) cs = Ok (Some (q @ [Suc i + k]))" "k < length cs"
        "walk (rev q) (cs ! k) = (Ok x :: ('e ForkError, _) result)" "deepest anc P h (all_nodes cs) x"
      | (n) "find_index_roots D P h (num h) (Suc i) cs = Ok None" "\<forall>y \<in> set (all_nodes cs). \<not> candidate anc P h y" by blast
    then show ?thesis
    proof cases
      case (f q k x)
      then show ?thesis unfolding r
        using deepest_there [OF f(4) fail(2)] by (intro disjI1 exI [of _ q] exI [of _ "Suc k"] exI [of _ x]) simp
    next
      case n
      then show ?thesis unfolding r using fail(2) by (intro disjI2) auto
    qed
  qed
qed simp

lemma find_where_ok:
  fixes D :: "('h, 'e) descendent"
  assumes a: "ancestry anc num" and D: "D = honest anc" and f: "forest_ok anc num cs"
  shows "case find_roots D P h (num h) cs of
      Ok (Some x) \<Rightarrow> deepest anc P h (all_nodes cs) x
    | Ok None \<Rightarrow> (\<forall>y \<in> set (all_nodes cs). \<not> candidate anc P h y)
    | _ \<Rightarrow> False"
  using f
proof (induction cs)
  case (Cons c cs)
  have ok: "node_ok anc num c" "forest_ok anc num cs" using forest_ok_tail [OF Cons.prems] by auto
  have "find_spec anc P h c (node_find_index D P h (num h) c)" by (rule find_node [OF a D ok(1)])
  then consider (found) p x where "node_find_index D P h (num h) c = Ok (Found p)" "walk (rev p) c = (Ok x :: ('e ForkError, _) result)"
      "deepest anc P h (nodes c) x"
    | (fail) "node_find_index D P h (num h) c = Ok (Failure (anc (node_hash c) h))" "\<forall>y \<in> set (nodes c). \<not> candidate anc P h y"
    unfolding find_spec_def by blast
  then show ?case
  proof cases
    case (found p x)
    have "deepest anc P h (all_nodes (c # cs)) x"
      by (rule deepest_here [OF found(3) only_here [OF a Cons.prems deepest_anc [OF a ok(1) found(3)]]])
    then show ?thesis using found(1,2) by (simp add: node_find_where_def)
  next
    case fail
    then have "find_roots D P h (num h) (c # cs) = find_roots D P h (num h) cs" by (simp add: node_find_where_def)
    then show ?thesis
      using Cons.IH [OF ok(2)] deepest_there [of anc P h cs _ c] fail(2) by (auto split: result.splits option.splits)
  qed
qed simp

section \<open>Pruning\<close>

lemma entries_nth: "k < length cs \<Longrightarrow> entries cs = entries [cs ! k] + entries (take k cs @ drop (Suc k) cs)"
  using entries_perm [of cs "cs ! k # take k cs @ drop (Suc k) cs"] split_first(2) [of "cs ! k" "take k cs @ drop (Suc k) cs"]
    id_take_nth_drop [of k cs] by (metis (no_types, lifting) mset.simps(2) mset_append union_mset_add_mset_right)

lemma entries_update:
  "k < length cs \<Longrightarrow> entries (cs[k := c]) = entries [c] + entries (take k cs @ drop (Suc k) cs)"
  using entries_nth [of k "cs[k := c]"] by simp

lemma take_at_ok:
  "k < length cs \<Longrightarrow> walk p (cs ! k) = (Ok x :: ('e, _) result) \<Longrightarrow>
   \<exists>cs'. take_at (k # p) cs = Some (x, cs') \<and> entries cs = entries [x] + entries cs'"
proof (induction p arbitrary: k cs)
  case Nil
  then show ?case using entries_nth [of k cs] by simp
next
  case (Cons i p)
  obtain h n v cs' where c: "cs ! k = Node h n v cs'" by (cases "cs ! k")
  have i: "i < length cs'" "walk p (cs' ! i) = (Ok x :: ('e, _) result)" using Cons.prems(2) c by (auto split: if_splits)
  obtain cs'' where "take_at (i # p) cs' = Some (x, cs'')" "entries cs' = entries [x] + entries cs''" using Cons.IH [OF i] by blast
  then show ?case using Cons.prems(1) c entries_nth [of k cs] entries_update [of k cs "Node h n v cs''"] by simp
qed

lemma split_children_ok:
  fixes D :: "('h, 'e) descendent"
  assumes a: "ancestry anc num" and D: "D = honest anc" and ok: "\<forall>c \<in> set cs. node_ok anc num c"
  shows "\<exists>ks rs. split_children D h (num h) first cs = Ok (ks, rs) \<and> entries cs = entries ks + entries rs \<and>
    set ks \<subseteq> {c \<in> set cs. node_hash c = h \<or> anc (node_hash c) h} \<and> set rs \<subseteq> set cs \<and> length ks \<le> 1 \<and> (first \<or> ks = []) \<and>
    (first \<longrightarrow> (\<exists>c \<in> set cs. node_hash c = h \<or> anc (node_hash c) h) \<longrightarrow> ks \<noteq> [])"
  using ok
proof (induction cs arbitrary: first)
  case (Cons c cs)
  have n: "node_number c = num (node_hash c)" using Cons.prems number_of by auto
  have t: "orelse (node_number c = num h \<and> node_hash c = h) (andalso (node_number c < num h) (ask (D (node_hash c) h))) =
      Ok (node_hash c = h \<or> anc (node_hash c) h)"
    using n ancestryD(1) [OF a, of "node_hash c" h] D by (auto simp: orelse_def andalso_def)
  show ?case
  proof (cases "first \<and> (node_hash c = h \<or> anc (node_hash c) h)")
    case True
    obtain ks rs where "split_children D h (num h) False cs = Ok (ks, rs)" "entries cs = entries ks + entries rs" "set rs \<subseteq> set cs" "ks = []"
      using Cons.IH [of False] Cons.prems by auto
    then show ?thesis
      using True t split_first(2) [of c cs] by (intro exI [of _ "[c]"] exI [of _ rs]) (auto simp: andalso_def)
  next
    case False
    obtain ks rs where kr: "split_children D h (num h) first cs = Ok (ks, rs)" "entries cs = entries ks + entries rs"
        "set ks \<subseteq> {c \<in> set cs. node_hash c = h \<or> anc (node_hash c) h}" "set rs \<subseteq> set cs" "length ks \<le> 1" "first \<or> ks = []"
        "first \<longrightarrow> (\<exists>c \<in> set cs. node_hash c = h \<or> anc (node_hash c) h) \<longrightarrow> ks \<noteq> []"
      using Cons.IH [of first] Cons.prems by auto
    have "split_children D h (num h) first (c # cs) = Ok (ks, c # rs)" using False t kr(1) by (auto simp: andalso_def)
    then show ?thesis
      using kr False split_first(2) [of c cs] split_first(2) [of c rs]
      by (intro exI [of _ ks] exI [of _ "c # rs"]) (auto simp: add_ac)
  qed
qed simp

end
