(* ===== verification/ForkTreeProperties.thy ===== *)
theory ForkTreeProperties
  imports ForkTreeSearch "HOL-Library.Sublist"
begin

text \<open>
  The properties of the fork tree, for every tree that imports, finalizations and prunings lead to.
\<close>

section \<open>The tree order is the ancestry\<close>

lemma node_unique:
  assumes a: "ancestry anc num"
  shows "node_ok anc num c \<Longrightarrow> x \<in> set (nodes c) \<Longrightarrow> y \<in> set (nodes c) \<Longrightarrow> node_hash x = node_hash y \<Longrightarrow> x = y"
proof (induction c)
  case (Node h n v cs)
  let ?c = "Node h n v cs"
  have f: "forest_ok anc num cs" "\<And>c. c \<in> set cs \<Longrightarrow> anc h (node_hash c)" using Node.prems(1) by (auto simp: node_ok_children)
  have below: "\<exists>c \<in> set cs. z \<in> set (nodes c) \<and> (node_hash z = node_hash c \<or> anc (node_hash c) (node_hash z)) \<and> anc h (node_hash z)"
    if z: "z \<in> set (all_nodes cs)" for z
  proof -
    obtain c where c: "c \<in> set cs" "z \<in> set (nodes c)" using z in_all_nodes [of z cs] by blast
    then have "node_hash z = node_hash c \<or> anc (node_hash c) (node_hash z)"
      using under_root [OF a forest_member [OF f(1) c(1)] node_hash_in [OF c(2)]] by blast
    then show ?thesis using c f(2) [OF c(1)] ancestryD(2) [OF a, of h "node_hash c" "node_hash z"] by auto
  qed
  show ?case
  proof (cases "x = ?c \<or> y = ?c")
    case True
    then show ?thesis using Node.prems(2-4) below [of x] below [of y] ancestryD(4) [OF a, of h] by auto
  next
    case False
    then have "x \<in> set (all_nodes cs)" "y \<in> set (all_nodes cs)" using Node.prems(2,3) by auto
    then obtain c d where cd: "c \<in> set cs" "x \<in> set (nodes c)" "node_hash x = node_hash c \<or> anc (node_hash c) (node_hash x)"
        "d \<in> set cs" "y \<in> set (nodes d)" "node_hash y = node_hash d \<or> anc (node_hash d) (node_hash y)"
      using below by blast
    have "c = d" by (rule one_root [OF a f(1) cd(1,4), of "node_hash x"]) (use cd(3,6) Node.prems(4) in auto)
    then show ?thesis using Node.IH [OF cd(1) forest_member [OF f(1) cd(1)] cd(2)] cd(5) Node.prems(4) by simp
  qed
qed

lemma forest_unique:
  assumes a: "ancestry anc num" and f: "forest_ok anc num nds"
    and x: "x \<in> set (all_nodes nds)" "y \<in> set (all_nodes nds)" "node_hash x = node_hash y"
  shows "x = y"
proof -
  obtain c d where cd: "c \<in> set nds" "x \<in> set (nodes c)" "d \<in> set nds" "y \<in> set (nodes d)"
    using x(1,2) in_all_nodes [of _ nds] by blast
  have "c = d"
    by (rule one_root [OF a f cd(1,3), of "node_hash x"])
      (use under_root [OF a forest_member [OF f cd(1)] node_hash_in [OF cd(2)]]
        under_root [OF a forest_member [OF f cd(3)] node_hash_in [OF cd(4)]] x(3) in auto)
  then show ?thesis using node_unique [OF a forest_member [OF f cd(1)] cd(2)] cd(4) x(3) by simp
qed

lemma node_ok_inside:
  "node_ok anc num c \<Longrightarrow> x \<in> set (nodes c) \<Longrightarrow> node_ok anc num x"
proof (induction c)
  case (Node h n v cs)
  show ?case
  proof (cases "x = Node h n v cs")
    case False
    then obtain c where "c \<in> set cs" "x \<in> set (nodes c)" using Node.prems(2) in_all_nodes [of x cs] by auto
    then show ?thesis using Node.IH Node.prems(1) by (auto simp: node_ok_children forest_ok_def)
  qed (use Node.prems(1) in simp)
qed

lemma forest_node_ok: "forest_ok anc num nds \<Longrightarrow> x \<in> set (all_nodes nds) \<Longrightarrow> node_ok anc num x"
  using node_ok_inside [of anc num _ x] by (auto simp: in_all_nodes forest_ok_def)

lemma descendants_inside:
  assumes a: "ancestry anc num"
  shows "node_ok anc num c \<Longrightarrow> x \<in> set (nodes c) \<Longrightarrow> z \<in> hashes [c] \<Longrightarrow> anc (node_hash x) z \<Longrightarrow> z \<in> hashes [x]"
proof (induction c)
  case (Node h n v cs)
  have f: "forest_ok anc num cs" "\<And>c. c \<in> set cs \<Longrightarrow> anc h (node_hash c)" using Node.prems(1) by (auto simp: node_ok_children)
  show ?case
  proof (cases "x = Node h n v cs")
    case False
    then obtain c where c: "c \<in> set cs" "x \<in> set (nodes c)" using Node.prems(2) in_all_nodes [of x cs] by auto
    have cx: "node_hash x = node_hash c \<or> anc (node_hash c) (node_hash x)"
      using under_root [OF a forest_member [OF f(1) c(1)] node_hash_in [OF c(2)]] by auto
    then have cz: "anc (node_hash c) z" using Node.prems(4) ancestryD(2) [OF a, of "node_hash c" "node_hash x" z] by auto
    have "z \<noteq> h" using cz f(2) [OF c(1)] ancestryD(5) [OF a] by blast
    then obtain d where d: "d \<in> set cs" "z \<in> hashes [d]" using Node.prems(3) in_hashes [of z cs] by auto
    have "c = d"
      by (rule one_root [OF a f(1) c(1) d(1), of z]) (use cz under_root [OF a forest_member [OF f(1) d(1)] d(2)] in auto)
    then show ?thesis using Node.IH [OF c(1) forest_member [OF f(1) c(1)] c(2)] d(2) Node.prems(4) by simp
  qed (use Node.prems(3) in simp)
qed

lemma forest_inside:
  assumes a: "ancestry anc num" and f: "forest_ok anc num nds"
    and x: "x \<in> set (all_nodes nds)" "z \<in> hashes nds" "anc (node_hash x) z"
  shows "z \<in> hashes [x]"
proof -
  obtain c d where cd: "c \<in> set nds" "x \<in> set (nodes c)" "d \<in> set nds" "z \<in> hashes [d]"
    using x(1,2) in_all_nodes [of x nds] in_hashes [of z nds] by blast
  have "anc (node_hash c) z"
    using under_root [OF a forest_member [OF f cd(1)] node_hash_in [OF cd(2)]] x(3) ancestryD(2) [OF a, of "node_hash c" "node_hash x" z]
    by auto
  then have "c = d"
    using one_root [OF a f cd(1,3), of z] under_root [OF a forest_member [OF f cd(3)] cd(4)] by auto
  then show ?thesis using descendants_inside [OF a forest_member [OF f cd(1)] cd(2)] cd(4) x(3) by simp
qed

lemma nodes_trans: "x \<in> set (nodes c) \<Longrightarrow> set (nodes x) \<subseteq> set (nodes c)"
  by (induction c) (fastforce simp: in_all_nodes)

lemma all_nodes_trans: "x \<in> set (all_nodes nds) \<Longrightarrow> set (nodes x) \<subseteq> set (all_nodes nds)"
  using nodes_trans [of x] unfolding all_nodes_def by fastforce

lemma hashes_trans: "x \<in> set (all_nodes nds) \<Longrightarrow> hashes [x] \<subseteq> hashes nds"
  using all_nodes_trans [of x nds] by (auto simp: hashes_def)

lemma mirror:
  assumes a: "ancestry anc num" and f: "forest_ok anc num nds" and x: "x \<in> set (all_nodes nds)" "y \<in> set (all_nodes nds)"
  shows "y \<in> set (nodes x) \<longleftrightarrow> y = x \<or> anc (node_hash x) (node_hash y)"
proof
  assume y: "y \<in> set (nodes x)"
  then have "node_hash y = node_hash x \<or> anc (node_hash x) (node_hash y)"
    using under_root [OF a forest_node_ok [OF f x(1)] node_hash_in] by auto
  then show "y = x \<or> anc (node_hash x) (node_hash y)" using forest_unique [OF a f x(2,1)] by auto
next
  assume "y = x \<or> anc (node_hash x) (node_hash y)"
  then show "y \<in> set (nodes x)"
  proof
    assume anc: "anc (node_hash x) (node_hash y)"
    have "node_hash y \<in> hashes nds" using x(2) by (auto simp: hashes_def)
    then have "node_hash y \<in> hashes [x]" by (rule forest_inside [OF a f x(1) _ anc])
    then obtain y' where y': "y' \<in> set (nodes x)" "node_hash y' = node_hash y" by (auto simp: hashes_def)
    have "y' \<in> set (all_nodes nds)" using all_nodes_trans [OF x(1)] y'(1) by blast
    then show ?thesis using forest_unique [OF a f _ x(2) y'(2)] y'(1) by simp
  qed (cases x, simp)
qed

section \<open>Pruning and conditional finalization\<close>

text \<open>The nodes that pruning keeps under its new root: the branch of the child towards the block.\<close>

definition towards :: "('h \<Rightarrow> 'h \<Rightarrow> bool) \<Rightarrow> 'h set \<Rightarrow> 'h \<Rightarrow> 'h \<Rightarrow> 'h \<Rightarrow> bool" where
  "towards anc H root h y \<longleftrightarrow> y \<in> H \<and> (\<exists>z \<in> H. anc root z \<and> (z = h \<or> anc z h) \<and> (y = z \<or> anc z y))"

lemma kept_branch:
  assumes a: "ancestry anc num" and f: "forest_ok anc num nds" and x: "x = Node hx n v cs" "x \<in> set (all_nodes nds)"
    and ks: "set ks \<subseteq> {c \<in> set cs. node_hash c = h \<or> anc (node_hash c) h}"
      "(\<exists>c \<in> set cs. node_hash c = h \<or> anc (node_hash c) h) \<longrightarrow> ks \<noteq> []"
  shows "y \<in> hashes [Node hx n v ks] \<longleftrightarrow> y = hx \<or> towards anc (hashes nds) hx h y"
proof -
  have fc: "forest_ok anc num cs" "\<And>c. c \<in> set cs \<Longrightarrow> anc hx (node_hash c)"
    using forest_node_ok [OF f x(2)] x(1) by (auto simp: node_ok_children)
  have sub: "hashes cs \<subseteq> hashes nds" using hashes_trans [OF x(2)] x(1) by auto
  have child: "\<exists>c \<in> set cs. z \<in> hashes [c]" if "z \<in> hashes nds" "anc hx z" for z
  proof -
    have "z \<in> hashes [x]" by (rule forest_inside [OF a f x(2)]) (use that x(1) in auto)
    then show ?thesis using x(1) that(2) ancestryD(4) [OF a, of hx] in_hashes [of z cs] by auto
  qed
  have "y \<in> hashes ks \<longleftrightarrow> towards anc (hashes nds) hx h y"
  proof
    assume "y \<in> hashes ks"
    then obtain c where c: "c \<in> set ks" "y \<in> hashes [c]" using in_hashes [of y ks] by blast
    then have cs: "c \<in> set cs" "node_hash c = h \<or> anc (node_hash c) h" using ks(1) by auto
    have "y \<in> hashes nds" "node_hash c \<in> hashes nds"
      using sub cs(1) c(2) root_in_hashes [OF cs(1)] in_hashes [of y cs] by blast+
    moreover have "y = node_hash c \<or> anc (node_hash c) y" by (rule under_root [OF a forest_member [OF fc(1) cs(1)] c(2)])
    ultimately show "towards anc (hashes nds) hx h y" using cs fc(2) [OF cs(1)] by (auto simp: towards_def)
  next
    assume "towards anc (hashes nds) hx h y"
    then obtain z where z: "y \<in> hashes nds" "z \<in> hashes nds" "anc hx z" "z = h \<or> anc z h" "y = z \<or> anc z y" by (auto simp: towards_def)
    obtain d where d: "d \<in> set cs" "z \<in> hashes [d]" using child [OF z(2,3)] by blast
    have dz: "z = node_hash d \<or> anc (node_hash d) z" by (rule under_root [OF a forest_member [OF fc(1) d(1)] d(2)])
    then have dh: "h = node_hash d \<or> anc (node_hash d) h" and dy: "y = node_hash d \<or> anc (node_hash d) y"
      using z(4,5) ancestryD(2) [OF a, of "node_hash d" z] by auto
    then obtain c where c: "c \<in> set ks" using ks(2) d(1) by (metis list.set_sel(1))
    then have "c \<in> set cs" "node_hash c = h \<or> anc (node_hash c) h" using ks(1) by auto
    then have "c = d" using one_root [OF a fc(1) _ d(1), of c h] dh by auto
    have "anc hx y" using z(3,5) ancestryD(2) [OF a] by blast
    then obtain e where e: "e \<in> set cs" "y \<in> hashes [e]" using child [OF z(1)] by blast
    have "e = d" using one_root [OF a fc(1) e(1) d(1), of y] under_root [OF a forest_member [OF fc(1) e(1)] e(2)] dy by auto
    then show "y \<in> hashes ks" using c e(2) \<open>c = d\<close> in_hashes [of y ks] by blast
  qed
  then show ?thesis by auto
qed

lemma prune_ok:
  fixes D :: "('h, 'e) descendent"
  assumes a: "ancestry anc num" and D: "D = honest anc" and f: "forest_ok anc num (roots t)"
  shows "\<exists>t' removed. prune D P h (num h) t = (t', Ok removed) \<and> forest_ok anc num (roots t') \<and>
    best_finalized_number t' = best_finalized_number t \<and> entries (roots t') + entries removed = entries (roots t) \<and>
    (if \<exists>y \<in> set (all_nodes (roots t)). candidate anc P h y
     then \<exists>x. deepest anc P h (all_nodes (roots t)) x \<and>
       hashes (roots t') = insert (node_hash x) (Collect (towards anc (hashes (roots t)) (node_hash x) h))
     else removed = [])"
proof -
  from find_roots_index [OF a D f, of P h 0]
  consider (f) q k x where "tree_find_index D P h (num h) t = Ok (Some (q @ [k]))" "k < length (roots t)"
      "walk (rev q) (roots t ! k) = (Ok x :: ('e ForkError, _) result)" "deepest anc P h (all_nodes (roots t)) x"
    | (n) "tree_find_index D P h (num h) t = Ok None" "\<forall>y \<in> set (all_nodes (roots t)). \<not> candidate anc P h y"
    by (auto simp: tree_find_index_def)
  then show ?thesis
  proof cases
    case (f q k x)
    obtain hx n v cs where x: "x = Node hx n v cs" by (cases x)
    have xin: "x \<in> set (all_nodes (roots t))" "candidate anc P h x" using f(4) by (auto simp: deepest_def)
    obtain old where old: "take_at (k # rev q) (roots t) = Some (x, old)" "entries (roots t) = entries [x] + entries old"
      using take_at_ok [OF f(2,3)] by blast
    have ok: "node_ok anc num x" by (rule forest_node_ok [OF assms(3) xin(1)])
    then have cs: "n = num hx" "forest_ok anc num cs" "\<And>c. c \<in> set cs \<Longrightarrow> anc hx (node_hash c)" using x by (auto simp: node_ok_children)
    obtain ks rs where kr: "split_children D h (num h) True cs = Ok (ks, rs)" "entries cs = entries ks + entries rs"
        "set ks \<subseteq> {c \<in> set cs. node_hash c = h \<or> anc (node_hash c) h}" "length ks \<le> 1"
        "(\<exists>c \<in> set cs. node_hash c = h \<or> anc (node_hash c) h) \<longrightarrow> ks \<noteq> []"
      using split_children_ok [OF a D, of cs h True] cs(2) by (auto simp: forest_ok_def)
    let ?t = "t\<lparr>roots := [Node hx n v ks]\<rparr>"
    have "forest_ok anc num ks"
      using kr(3,4) cs(2) ancestryD(4) [OF a] by (cases ks) (auto simp: forest_ok_def apart_def)
    then have okt: "forest_ok anc num (roots ?t)" using cs kr(3) forest_ok_one [OF a, of "Node hx n v ks"] by (auto simp: node_ok_children)
    have p: "prune D P h (num h) t = (rebalance ?t, Ok (old @ rs))"
      using f(1) old(1) kr(1) x by (simp add: prune_def)
    have e: "entries (roots (rebalance ?t)) + entries (old @ rs) = entries (roots t)"
      using rebalance_ok(1) [of ?t] old(2) kr(2) x by (simp add: add_ac)
    have "hashes (roots (rebalance ?t)) = hashes [Node hx n v ks]"
      using rebalance_ok(1) [of ?t] by (simp add: hashes_entries)
    also have "\<dots> = insert hx (Collect (towards anc (hashes (roots t)) hx h))"
      using kept_branch [OF a assms(3) x xin(1) kr(3,5)] by (simp add: set_eq_iff)
    finally have "hashes (roots (rebalance ?t)) = insert (node_hash x) (Collect (towards anc (hashes (roots t)) (node_hash x) h))"
      using x by simp
    then show ?thesis
      using p e rebalance_ok(2) [OF okt] rebalance_ok(3) [of ?t] f(4) xin
      by (intro exI [of _ "rebalance ?t"] exI [of _ "old @ rs"]) auto
  next
    case n
    then have "prune D P h (num h) t = (rebalance t, Ok [])" by (simp add: prune_def)
    then show ?thesis using n(2) rebalance_ok [where t = t] assms(3) by auto
  qed
qed

lemma root_position_ok:
  fixes D :: "('h, 'e) descendent"
  assumes "D = honest anc"
  shows "case root_position D P h n i rs of
      Ok None \<Rightarrow> \<forall>r \<in> set rs. \<not> (P (node_data r) \<and> (node_hash r = h \<or> anc (node_hash r) h))
    | Ok (Some k) \<Rightarrow> i \<le> k \<and> k < i + length rs \<and> P (node_data (rs ! (k - i))) \<and>
        (node_hash (rs ! (k - i)) = h \<or> anc (node_hash (rs ! (k - i))) h) \<and>
        (\<forall>c \<in> set (node_children (rs ! (k - i))). node_number c \<le> n \<longrightarrow> \<not> anc (node_hash c) h)
    | Err e \<Rightarrow> e = UnfinalizedAncestor
    | Panic \<Rightarrow> False"
proof (induction rs arbitrary: i)
  case (Cons r rs)
  have t: "andalso (P (node_data r)) (orelse (node_hash r = h) (ask (D (node_hash r) h))) =
      Ok (P (node_data r) \<and> (node_hash r = h \<or> anc (node_hash r) h))"
    using assms by (auto simp: andalso_def orelse_def)
  show ?case
  proof (cases "P (node_data r) \<and> (node_hash r = h \<or> anc (node_hash r) h)")
    case True
    then have "root_position D P h n i (r # rs) =
        (if \<exists>c \<in> set (node_children r). node_number c \<le> n \<and> anc (node_hash c) h then Err UnfinalizedAncestor else Ok (Some i))"
      using t assms by (simp add: some_descends_honest)
    then show ?thesis using True by simp
  next
    case False
    then have "root_position D P h n i (r # rs) = root_position D P h n (Suc i) rs" using t by auto
    then show ?thesis using Cons [of "Suc i"] False
      by (auto simp: nth_Cons' Suc_diff_le split: result.splits option.splits)
  qed
qed simp

lemma finalize_if_forest:
  fixes D :: "('h, 'e) descendent"
  assumes a: "ancestry anc num" and D: "D = honest anc" and f: "forest_ok anc num (roots t)"
    and r: "finalize_with_descendent_if D P h n t = (t', r)"
  shows "forest_ok anc num (roots t')"
proof -
  have keep: "keep_related D h n c = Ok ((node_number c > n \<and> anc h (node_hash c)) \<or> (node_number c = n \<and> node_hash c = h) \<or> anc (node_hash c) h)" for c :: "('h, 'a, 'b) Node"
    using D by (auto simp: keep_related_def andalso_def orelse_def)
  have kept: "retain (keep_related D h n) rs = (filter Q rs, Ok (\<exists>r \<in> set rs. \<not> Q r))"
    if "Q = (\<lambda>c. (node_number c > n \<and> anc h (node_hash c)) \<or> (node_number c = n \<and> node_hash c = h) \<or> anc (node_hash c) h)" for Q and rs :: "('h, 'a, 'b) Node list"
    by (rule retain_ok) (simp add: keep that)
  show ?thesis
  proof (cases "reverts t n")
    case True
    then show ?thesis using r f by (simp add: finalize_with_descendent_if_def)
  next
    case False
    note rp = root_position_ok [OF D, where P = P and h = h and n = n and i = 0 and rs = "roots t"]
    show ?thesis
    proof (cases "root_position D P h n 0 (roots t)")
      case (Ok pos)
      let ?t = "case pos of None \<Rightarrow> t | Some i \<Rightarrow> fst (finalize_root_at i t)"
      have "forest_ok anc num (roots ?t)"
        using rp Ok f children_forest [OF forest_member [OF f nth_mem]]
        by (auto simp: finalize_root_at_def swap_remove_def split: option.splits)
      moreover have "\<exists>Q. roots t' = filter Q (roots ?t)"
        using r False Ok by (auto simp: finalize_with_descendent_if_def kept [OF refl] split: option.splits prod.splits)
      ultimately show ?thesis using filter_forest by metis
    qed (use r False f in \<open>auto simp: finalize_with_descendent_if_def\<close>)
  qed
qed

section \<open>Reachable trees\<close>

inductive ft_reach :: "('h \<Rightarrow> 'h \<Rightarrow> bool) \<Rightarrow> ('h \<Rightarrow> 'n::linorder) \<Rightarrow> ('h, 'n, 'v) ForkTree \<Rightarrow> bool"
  for anc num where
  ft_new: "ft_reach anc num new_tree"
| ft_import: "ft_reach anc num t \<Longrightarrow> \<forall>x \<in> hashes (roots t). \<not> anc h x \<Longrightarrow>
    tree_import (honest anc) h (num h) v t = (t', r :: (unit ForkError, bool) result) \<Longrightarrow> ft_reach anc num t'"
| ft_finalize: "ft_reach anc num t \<Longrightarrow>
    finalize (honest anc) h (num h) t = (t', r :: (unit ForkError, 'v FinalizationResult) result) \<Longrightarrow> ft_reach anc num t'"
| ft_ancestors: "ft_reach anc num t \<Longrightarrow>
    finalize_with_ancestors (honest anc) h (num h) t = (t', r :: (unit ForkError, 'v FinalizationResult) result) \<Longrightarrow> ft_reach anc num t'"
| ft_descendent: "ft_reach anc num t \<Longrightarrow>
    finalize_with_descendent_if (honest anc) P h (num h) t = (t', r :: (unit ForkError, 'v FinalizationResult) result) \<Longrightarrow> ft_reach anc num t'"
| ft_prune: "ft_reach anc num t \<Longrightarrow>
    prune (honest anc) P h (num h) t = (t', r :: (unit ForkError, ('h, 'n, 'v) Node list) result) \<Longrightarrow> ft_reach anc num t'"

lemma reach_forest:
  assumes a: "ancestry anc num"
  shows "ft_reach anc num t \<Longrightarrow> forest_ok anc num (roots t)"
proof (induction rule: ft_reach.induct)
  case ft_new
  show ?case by (simp add: new_tree_def)
next
  case (ft_import t h v t' r)
  show ?case
  proof (cases "reverts t (num h) \<or> h \<in> hashes (roots t)")
    case True
    then show ?thesis using tree_import_refused [OF a ft_import.IH refl] ft_import by (metis Pair_inject)
  next
    case False
    then show ?thesis using tree_import_ok [where 'e = unit, OF refl a ft_import.IH, of h v] ft_import by auto
  qed
next
  case (ft_finalize t h t' r)
  show ?case
  proof (cases "reverts t (num h)")
    case False
    then show ?thesis using finalize_ok [where 'e = unit, OF a ft_finalize.IH refl False] ft_finalize
      by (auto simp: finalized_def split: if_splits)
  qed (use ft_finalize in \<open>simp add: finalize_def\<close>)
next
  case (ft_ancestors t h t' r)
  show ?case
  proof (cases "reverts t (num h)")
    case False
    then show ?thesis using finalize_with_ancestors_ok [where 'e = unit, OF a ft_ancestors.IH refl False] ft_ancestors by (auto simp: finalized_def)
  qed (use ft_ancestors in \<open>simp add: finalize_with_ancestors_def\<close>)
next
  case (ft_descendent t P h t' r)
  then show ?case using finalize_if_forest [OF a refl] by blast
next
  case (ft_prune t P h t' r)
  then show ?case using prune_ok [where 'e = unit, OF a refl ft_prune.IH, of P h] by auto
qed

lemma tree_iter_entries: "mset (tree_iter t) = entries (roots t)"
  by (simp add: tree_iter_def node_iter_eq entries_def)

lemma some_descends_none: "(\<And>c. c \<in> set cs \<Longrightarrow> \<not> Q (node_number c)) \<Longrightarrow> some_descends Q desc h cs = Ok ()"
  by (induction cs) (auto simp: andalso_def)

section \<open>An example chain\<close>

text \<open>Blocks named by the path from the first block; a block's ancestors are its strict prefixes.\<close>

lemma prefix_ancestry: "ancestry (strict_prefix :: bool list \<Rightarrow> _) length"
  unfolding ancestry_def
  by (auto simp: strict_prefix_def prefix_length_less dest: prefix_order.trans prefix_order.antisym prefix_same_cases)

definition demo :: "(bool list, nat, nat) ForkTree" where
  "demo = \<lparr>roots = [Node [] 0 7 [Node [True] 1 8 [], Node [False] 1 9 []]], best_finalized_number = None\<rparr>"

lemma demo_reach: "ft_reach strict_prefix length demo"
proof -
  let ?t1 = "\<lparr>roots = [Node [] 0 7 []], best_finalized_number = None\<rparr> :: (bool list, nat, nat) ForkTree"
  let ?t2 = "\<lparr>roots = [Node [] 0 7 [Node [True] 1 8 []]], best_finalized_number = None\<rparr> :: (bool list, nat, nat) ForkTree"
  note defs = tree_import_def reverts_def rebalance_def by_depth_def ask_def honest_def strict_prefix_def
  have 1: "ft_reach strict_prefix length ?t1"
    by (rule ft_import [OF ft_new, of strict_prefix "[]" length 7 _ "Ok True"]) (simp_all add: new_tree_def defs)
  have 2: "ft_reach strict_prefix length ?t2"
    by (rule ft_import [OF 1, of "[True]" 8 _ "Ok False"]) (simp_all add: defs)
  show ?thesis unfolding demo_def
    by (rule ft_import [OF 2, of "[False]" 9 _ "Ok False"]) (simp_all add: defs)
qed

section \<open>Properties\<close>

text \<open>C29. In every reachable tree the order of the tree is the ancestry of the chain: no block occurs twice, each carries
  its number, and the nodes iterated under a node are that node and exactly its descendents.\<close>

theorem fork_tree_mirrors_chain:
  assumes "ancestry anc num" "ft_reach anc num t"
  shows "inj_on node_hash (set (node_iter t)) \<and>
    (\<forall>x \<in> set (node_iter t). node_number x = num (node_hash x) \<and>
       (\<forall>y \<in> set (node_iter t). y \<in> set (node_iter_from [x]) \<longleftrightarrow> y = x \<or> anc (node_hash x) (node_hash y)))"
proof -
  note f = reach_forest [OF assms]
  have "node_number x = num (node_hash x)" if "x \<in> set (all_nodes (roots t))" for x
    by (rule number_of [OF forest_node_ok [OF f that]])
  then show ?thesis
    using forest_unique [OF assms(1) f] mirror [OF assms(1) f]
    by (auto simp: node_iter_eq node_iter_from_eq inj_on_def)
qed

theorem fork_tree_mirrors_chain_witness:
  "inj_on node_hash (set (node_iter demo)) \<and> Node [False] (1::nat) (9::nat) [] \<in> set (node_iter_from (roots demo)) \<and>
   Node [False] (1::nat) (9::nat) [] \<notin> set (node_iter_from [Node [True] (1::nat) (8::nat) []])"
proof -
  note m = fork_tree_mirrors_chain [OF prefix_ancestry demo_reach]
  have x: "Node [] 0 7 [Node [True] (1::nat) (8::nat) [], Node [False] (1::nat) (9::nat) []] \<in> set (node_iter demo)"
    and y: "Node [True] (1::nat) (8::nat) [] \<in> set (node_iter demo)" and z: "Node [False] (1::nat) (9::nat) [] \<in> set (node_iter demo)"
    by (simp_all add: demo_def node_iter_eq)
  have "Node [False] (1::nat) (9::nat) [] \<in> set (node_iter_from (roots demo))" using m x z by (simp add: demo_def strict_prefix_def)
  moreover have "Node [False] (1::nat) (9::nat) [] \<notin> set (node_iter_from [Node [True] (1::nat) (8::nat) []])" using m y z by (simp add: strict_prefix_def)
  ultimately show ?thesis using m by simp
qed

text \<open>C30. Importing a block whose descendents are not in the tree: a block at or below the last finalized number and a
  block that is there already are refused without a change; any other is added, nothing else changes, and it is reported
  as a root exactly if no block of the tree is its ancestor.\<close>

theorem import_exact:
  assumes "ancestry anc num" "ft_reach anc num t" "\<forall>x \<in> hashes (roots t). \<not> anc h x"
  shows "case tree_import (honest anc) h (num h) v t of (t', r) \<Rightarrow>
    if reverts t (num h) then t' = t \<and> r = (Err Revert :: (unit ForkError, bool) result)
    else if h \<in> hashes (roots t) then t' = t \<and> r = Err Duplicate
    else r = Ok (\<forall>x \<in> hashes (roots t). \<not> anc x h) \<and> mset (tree_iter t') = add_mset (h, num h, v) (mset (tree_iter t)) \<and>
      best_finalized_number t' = best_finalized_number t"
proof -
  note f = reach_forest [OF assms(1,2)]
  show ?thesis
  proof (cases "reverts t (num h) \<or> h \<in> hashes (roots t)")
    case True
    then show ?thesis using tree_import_refused [where 'e = unit, OF assms(1) f refl] by auto
  next
    case False
    then show ?thesis
      using tree_import_ok [where 'e = unit, OF refl assms(1) f, of h v] assms(3) by (auto simp: tree_iter_entries)
  qed
qed

theorem import_exact_witness:
  "case tree_import (honest strict_prefix) [True, True] (Suc (Suc 0)) 5 demo of (t', r) \<Rightarrow>
     r = (Ok False :: (unit ForkError, bool) result) \<and> mset (tree_iter t') = add_mset ([True, True], Suc (Suc 0), 5) (mset (tree_iter demo))"
  using import_exact [OF prefix_ancestry demo_reach, of "[True, True]" 5]
  by (auto simp: demo_def reverts_def strict_prefix_def)

text \<open>C31. Finalizing a block above the last finalized number is refused, without a change, exactly if an ancestor of it is
  still in the tree; otherwise the tree is left with exactly the descendents of the block, and the data returned is the block's,
  if it was in the tree.\<close>

theorem finalize_exact:
  assumes "ancestry anc num" "ft_reach anc num t" "\<not> reverts t (num h)"
  shows "case finalize (honest anc) h (num h) t of (t', r) \<Rightarrow>
    if \<exists>x \<in> hashes (roots t). anc x h then t' = t \<and> r = (Err UnfinalizedAncestor :: (unit ForkError, 'v FinalizationResult) result)
    else mset (tree_iter t') = {# e \<in># mset (tree_iter t). anc h (fst e) #} \<and> best_finalized_number t' = Some (num h) \<and>
      (\<exists>res. r = Ok res \<and>
        (case res of Changed (Some v) \<Rightarrow> (h, num h, v) \<in># mset (tree_iter t)
         | Changed None \<Rightarrow> h \<notin> hashes (roots t) \<and> mset (tree_iter t') \<noteq> mset (tree_iter t)
         | Unchanged \<Rightarrow> mset (tree_iter t') = mset (tree_iter t)))"
  using finalize_ok [where 'e = unit, OF assms(1) reach_forest [OF assms(1,2)] refl assms(3)]
  unfolding tree_iter_entries by (auto simp: finalized_def keeping_def split: if_splits)

theorem finalize_exact_witness:
  "case finalize (honest strict_prefix) [] 0 demo of (t', r) \<Rightarrow>
     tree_iter t' = [([True], 1, 8), ([False], 1, 9)] \<and> (\<exists>res. r = (Ok res :: (unit ForkError, nat FinalizationResult) result))"
  using finalize_exact [OF prefix_ancestry demo_reach, of "[]"]
  by (simp add: demo_def reverts_def strict_prefix_def finalize_def finalize_root_def finalize_root_at_def swap_remove_def
      tree_iter_def node_iter_eq entry_of_def)

text \<open>C32. Finalizing a block together with its ancestors, above the last finalized number, always returns, and leaves the
  tree with exactly the descendents of the block, however many of its ancestors were in the tree.\<close>

theorem finalize_with_ancestors_exact:
  assumes "ancestry anc num" "ft_reach anc num t" "\<not> reverts t (num h)"
  shows "\<exists>t' res. finalize_with_ancestors (honest anc) h (num h) t = (t', Ok res :: (unit ForkError, 'v FinalizationResult) result) \<and>
    mset (tree_iter t') = {# e \<in># mset (tree_iter t). anc h (fst e) #} \<and> best_finalized_number t' = Some (num h) \<and>
    (case res of Changed (Some v) \<Rightarrow> (h, num h, v) \<in># mset (tree_iter t)
     | Changed None \<Rightarrow> h \<notin> hashes (roots t) \<and> mset (tree_iter t') \<noteq> mset (tree_iter t)
     | Unchanged \<Rightarrow> mset (tree_iter t') = mset (tree_iter t))"
  using finalize_with_ancestors_ok [where 'e = unit, OF assms(1) reach_forest [OF assms(1,2)] refl assms(3)]
  unfolding tree_iter_entries finalized_def keeping_def by blast

theorem finalize_with_ancestors_exact_witness:
  "\<exists>t' res. finalize_with_ancestors (honest strict_prefix) [True] 1 demo = (t', Ok res :: (unit ForkError, nat FinalizationResult) result) \<and>
     mset (tree_iter t') = {#} \<and> best_finalized_number t' = Some 1"
  using finalize_with_ancestors_exact [OF prefix_ancestry demo_reach, of "[True]"]
  by (auto simp: demo_def reverts_def strict_prefix_def tree_iter_def node_iter_eq entry_of_def)

text \<open>C33. Searching the tree for a block and a predicate returns the deepest ancestor of the block whose data satisfies
  the predicate, and nothing exactly if the tree has no such ancestor.\<close>

theorem find_node_where_deepest:
  assumes "ancestry anc num" "ft_reach anc num t"
  shows "case tree_find_where (honest anc) P h (num h) t of
      Ok (Some x) \<Rightarrow> x \<in> set (node_iter t) \<and> anc (node_hash x) h \<and> P (node_data x) \<and>
        (\<forall>y \<in> set (node_iter t). anc (node_hash y) h \<and> P (node_data y) \<longrightarrow> y = x \<or> anc (node_hash y) (node_hash x))
    | Ok None \<Rightarrow> \<forall>y \<in> set (node_iter t). \<not> (anc (node_hash y) h \<and> P (node_data y))
    | Err (e :: unit ForkError) \<Rightarrow> False
    | Panic \<Rightarrow> False"
  using find_where_ok [where 'e = unit, OF assms(1) refl reach_forest [OF assms], of P h]
  by (auto simp: tree_find_where_def node_iter_eq deepest_def candidate_def split: result.splits option.splits)

theorem find_node_where_deepest_witness:
  "\<exists>x. tree_find_where (honest strict_prefix) (\<lambda>_. True) [True, False] (Suc (Suc 0)) demo = (Ok (Some x) :: (unit ForkError, _) result) \<and>
     strict_prefix (node_hash x) [True, False] \<and> node_data x = 8"
  using find_node_where_deepest [OF prefix_ancestry demo_reach, where P = "\<lambda>_. True" and h = "[True, False]"]
  by (simp add: demo_def tree_find_where_def node_find_where_def honest_def ask_def orelse_def strict_prefix_def)

text \<open>C34. Pruning loses nothing: what is left in the tree and what the returned iterator yields are together what was in the
  tree. If some ancestor of the block satisfies the predicate, the tree is re-rooted at the deepest such ancestor, and below it keeps
  exactly the branch through a block of the tree that is the given block or an ancestor of it; otherwise nothing is removed.\<close>

theorem prune_exact:
  assumes "ancestry anc num" "ft_reach anc num t"
  shows "\<exists>t' removed. prune (honest anc) P h (num h) t = (t', Ok removed :: (unit ForkError, _) result) \<and>
    mset (tree_iter t') + mset (removed_iter removed) = mset (tree_iter t) \<and>
    (if \<exists>y \<in> set (node_iter t). anc (node_hash y) h \<and> P (node_data y)
     then \<exists>x. deepest anc P h (node_iter t) x \<and>
       hashes (roots t') = insert (node_hash x) (Collect (towards anc (hashes (roots t)) (node_hash x) h))
     else removed = [])"
  using prune_ok [where 'e = unit, OF assms(1) refl reach_forest [OF assms], of P h]
  unfolding tree_iter_entries removed_iter_mset node_iter_eq candidate_def by blast

theorem prune_exact_witness:
  "\<exists>t' removed. prune (honest strict_prefix) (\<lambda>_. True) [True] 1 demo = (t', Ok removed :: (unit ForkError, _) result) \<and>
     mset (tree_iter t') + mset (removed_iter removed) = mset (tree_iter demo) \<and> removed_iter removed = [([False], 1, 9)]"
  using prune_exact [OF prefix_ancestry demo_reach, where P = "\<lambda>_. True" and h = "[True]"]
  by (simp add: demo_def prune_def tree_find_index_def honest_def ask_def orelse_def andalso_def strict_prefix_def
      removed_iter_def node_iter_from_eq entry_of_def)

text \<open>C35. A client error while \<open>finalize\<close> sorts the roots loses them: if no root is at or below the finalized number and
  the ancestry of the first root cannot be determined, the call returns the error and leaves an empty tree.\<close>

theorem finalize_client_error_empties_tree:
  assumes "\<not> reverts t n" "roots t = r # rs" "\<forall>c \<in> set (r # rs). node_number c > n \<and> node_hash c \<noteq> h" "desc h (node_hash r) = Inl e"
  shows "finalize desc h n t = (t\<lparr>roots := []\<rparr>, Err (ClientError e))"
proof -
  have sd: "some_descends (\<lambda>m. n > m) desc h (roots t) = Ok ()"
    by (rule some_descends_none) (use assms(2,3) in auto)
  have pos: "position (\<lambda>nd. node_hash nd = h) (roots t) = None" using assms(2,3) by (simp add: position_None)
  have rt: "retain (\<lambda>c. andalso (node_number c > n) (ask (desc h (node_hash c)))) (roots t) = ([], Err (ClientError e))"
    using assms by (simp add: andalso_def ask_def)
  show ?thesis by (simp add: finalize_def finalize_root_def assms(1) sd pos rt)
qed

theorem finalize_client_error_empties_tree_witness:
  "finalize (\<lambda>_ _. Inl ()) [] (0::nat) \<lparr>roots = [Node [True] (1::nat) (8::nat) []], best_finalized_number = None\<rparr> =
     (\<lparr>roots = [], best_finalized_number = None\<rparr>, Err (ClientError ()))"
  using finalize_client_error_empties_tree [of "\<lparr>roots = [Node [True] (1::nat) (8::nat) []], best_finalized_number = None\<rparr>" 0
      "Node [True] (1::nat) 8 []" "[]" "[]" "\<lambda>_ _. Inl ()" "()"]
  by (simp add: reverts_def)

text \<open>Iterating the tree with the explicit stack visits its nodes in pre-order, each root's tree in turn, and ends.\<close>

theorem iter_is_preorder: "tree_iter t = map entry_of (concat (map nodes (roots t)))"
  by (simp add: tree_iter_def node_iter_eq all_nodes_def)

end
