(* ===== verification/BigUint.thy ===== *)
theory BigUint
  imports Prelude
begin

text \<open>
  Unsigned integers of any size, \<^verbatim>\<open>primitives/arithmetic/src/biguint.rs\<close>, and the 128-bit helpers built on them,
  \<^verbatim>\<open>helpers_128bit.rs\<close>. A number is a vector of 32-bit limbs, the most significant first; the limb arithmetic is
  on 64-bit words, which wrap. An index out of range and a division by zero are \<open>Panic\<close>. The loops run over the list
  of the indices they visit.
\<close>

unbundle bit_operations_syntax

section \<open>Limbs\<close>

type_synonym Single = u32
type_synonym Double = u64
type_synonym u128 = "128 word"

definition SHIFT :: nat where
  "SHIFT = 32"

text \<open>The base, \<open>B\<close> in the source.\<close>

definition Base :: Double where
  "Base = ucast (- 1 :: Single) + 1"

definition split_limbs :: "Double \<Rightarrow> Single \<times> Single" where
  "split_limbs a = (ucast (drop_bit SHIFT a), ucast a)"

definition mul_single :: "Single \<Rightarrow> Single \<Rightarrow> Double" where
  "mul_single a b = ucast a * ucast b"

definition add_single :: "Single \<Rightarrow> Single \<Rightarrow> Single \<times> Single" where
  "add_single a b = (let (carry, r) = split_limbs (ucast a + ucast b) in (r, carry))"

definition div_single :: "Double \<Rightarrow> Single \<Rightarrow> ('e, Double \<times> Single) result" where
  "div_single a b = (if b = 0 then Panic else Ok (a div ucast b, ucast (a mod ucast b)))"

section \<open>Numbers\<close>

record BigUint =
  digits :: "Single list"

definition big :: "Single list \<Rightarrow> BigUint" where
  "big ds = \<lparr>digits = ds\<rparr>"

definition with_capacity :: "nat \<Rightarrow> BigUint" where
  "with_capacity sz = big (replicate (max sz 1) 0)"

definition zero_big :: BigUint where
  "zero_big = big [0]"

definition one_big :: BigUint where
  "one_big = big [1]"

definition is_zero :: "BigUint \<Rightarrow> bool" where
  "is_zero x \<longleftrightarrow> list_all (\<lambda>d. d = 0) (digits x)"

definition from_limbs :: "Single list \<Rightarrow> BigUint" where
  "from_limbs limbs = (if limbs \<noteq> [] then big limbs else zero_big)"

definition big_len :: "BigUint \<Rightarrow> nat" where
  "big_len x = length (digits x)"

definition big_get :: "BigUint \<Rightarrow> nat \<Rightarrow> ('e, Single) result" where
  "big_get x i = (if i < big_len x then Ok (digits x ! (big_len x - 1 - i)) else Panic)"

definition checked_get :: "BigUint \<Rightarrow> nat \<Rightarrow> Single option" where
  "checked_get x i =
     (if big_len x < 1 then None
      else if big_len x - 1 < i then None
      else Some (digits x ! (big_len x - 1 - i)))"

definition big_set :: "BigUint \<Rightarrow> nat \<Rightarrow> Single \<Rightarrow> ('e, BigUint) result" where
  "big_set x i v = (if i < big_len x then Ok (big ((digits x)[big_len x - 1 - i := v])) else Panic)"

definition lsb :: "BigUint \<Rightarrow> ('e, Single) result" where
  "lsb x = (if digits x = [] then Panic else Ok (digits x ! (big_len x - 1)))"

definition msb :: "BigUint \<Rightarrow> ('e, Single) result" where
  "msb x = (if digits x = [] then Panic else Ok (digits x ! 0))"

definition lstrip :: "BigUint \<Rightarrow> BigUint" where
  "lstrip x =
     (if big_len x = 0 then x
      else let i = (let k = length (takeWhile (\<lambda>d. d = 0) (digits x)) in if k = big_len x then big_len x - 1 else k)
           in if i > 0 then big (drop i (digits x)) else x)"

definition lpad :: "nat \<Rightarrow> BigUint \<Rightarrow> BigUint" where
  "lpad sz x = (if big_len x \<ge> sz then x else big (replicate (sz - big_len x) 0 @ digits x))"

definition limb :: "BigUint \<Rightarrow> nat \<Rightarrow> Double" where
  "limb x j = ucast (case checked_get x j of Some d \<Rightarrow> d | None \<Rightarrow> 0)"

section \<open>Addition and subtraction\<close>

fun add_loop :: "BigUint \<Rightarrow> BigUint \<Rightarrow> nat list \<Rightarrow> Double \<Rightarrow> BigUint \<Rightarrow> ('e, Double \<times> BigUint) result" where
  "add_loop a b [] k w = Ok (k, w)"
| "add_loop a b (j # js) k w =
     (let s = limb a j + limb b j + k
      in and_then (big_set w j (ucast (s mod Base))) (add_loop a b js (s div Base)))"

definition big_add :: "BigUint \<Rightarrow> BigUint \<Rightarrow> ('e, BigUint) result" where
  "big_add a b =
     (let n = max (big_len a) (big_len b)
      in and_then (add_loop a b [0..<n] 0 (with_capacity (n + 1))) (\<lambda>(k, w). big_set w n (ucast k)))"

definition checked_sub_u64 :: "Double \<Rightarrow> Double \<Rightarrow> Double option" where
  "checked_sub_u64 u v = (if v \<le> u then Some (u - v) else None)"

definition sub_step :: "Double \<Rightarrow> Double \<Rightarrow> Double \<Rightarrow> Double \<times> Double" where
  "sub_step u v k =
     (case checked_sub_u64 u v of
        Some v1 \<Rightarrow>
          (case checked_sub_u64 v1 k of
             Some v2 \<Rightarrow> (v2, 0)
           | None \<Rightarrow> (u + Base - v - k, 1))
      | None \<Rightarrow> (u + Base - v - k, 1))"

fun sub_loop :: "BigUint \<Rightarrow> BigUint \<Rightarrow> nat list \<Rightarrow> Double \<Rightarrow> BigUint \<Rightarrow> ('e, Double \<times> BigUint) result" where
  "sub_loop a b [] k w = Ok (k, w)"
| "sub_loop a b (j # js) k w =
     (let (s, k') = sub_step (limb a j) (limb b j) k
      in and_then (big_set w j (ucast s)) (sub_loop a b js k'))"

text \<open>\<open>Err\<close> carries the digits after a borrow out of the last limb.\<close>

definition big_sub :: "BigUint \<Rightarrow> BigUint \<Rightarrow> (BigUint, BigUint) result" where
  "big_sub a b =
     (let n = max (big_len a) (big_len b)
      in and_then (sub_loop a b [0..<n] 0 (with_capacity n)) (\<lambda>(k, w). if k = 0 then Ok w else Err w))"

section \<open>Multiplication\<close>

fun mul_inner :: "Single \<Rightarrow> BigUint \<Rightarrow> nat \<Rightarrow> nat list \<Rightarrow> Single \<Rightarrow> BigUint \<Rightarrow> ('e, Single \<times> BigUint) result" where
  "mul_inner aj b j [] k w = Ok (k, w)"
| "mul_inner aj b j (i # is) k w =
     and_then (big_get b i) (\<lambda>bi.
     and_then (big_get w (i + j)) (\<lambda>wij.
       let t = mul_single aj bi + ucast wij + ucast k
       in and_then (big_set w (i + j) (ucast (t mod Base))) (mul_inner aj b j is (ucast (t div Base)))))"

fun mul_outer :: "BigUint \<Rightarrow> BigUint \<Rightarrow> nat list \<Rightarrow> BigUint \<Rightarrow> ('e, BigUint) result" where
  "mul_outer a b [] w = Ok w"
| "mul_outer a b (j # js) w =
     and_then (big_get a j) (\<lambda>aj.
       if aj = 0 then mul_outer a b js w
       else and_then (mul_inner aj b j [0..<big_len b] 0 w) (\<lambda>(k, w').
            and_then (big_set w' (j + big_len b) k) (mul_outer a b js)))"

definition big_mul :: "BigUint \<Rightarrow> BigUint \<Rightarrow> ('e, BigUint) result" where
  "big_mul a b = mul_outer a b [0..<big_len a] (with_capacity (big_len b + big_len a))"

section \<open>Division by one limb\<close>

fun div_unit_loop :: "BigUint \<Rightarrow> Single \<Rightarrow> nat list \<Rightarrow> Single \<Rightarrow> BigUint \<Rightarrow> ('e, BigUint) result" where
  "div_unit_loop a c [] r out = Ok out"
| "div_unit_loop a c (d # ds) r out =
     and_then (big_get a d) (\<lambda>x.
     and_then (div_single (ucast r * Base + ucast x) c) (\<lambda>(q, rr).
     and_then (big_set out d (ucast q)) (div_unit_loop a c ds rr)))"

definition div_unit :: "BigUint \<Rightarrow> Single \<Rightarrow> ('e, BigUint) result" where
  "div_unit a c = div_unit_loop a (max c 1) (rev [0..<big_len a]) 0 (with_capacity (big_len a))"

section \<open>Conversions\<close>

definition from_u32 :: "u32 \<Rightarrow> BigUint" where
  "from_u32 a = big [a]"

definition from_u64 :: "u64 \<Rightarrow> BigUint" where
  "from_u64 a = (let (ah, al) = split_limbs a in big [ah, al])"

definition split_u128 :: "u128 \<Rightarrow> u64 \<times> u64" where
  "split_u128 a = (ucast (drop_bit 64 a), ucast a)"

definition to_big_uint :: "u128 \<Rightarrow> BigUint" where
  "to_big_uint x =
     (let (xh, xl) = split_u128 x;
          (xhh, xhl) = split_limbs xh;
          (xlh, xll) = split_limbs xl
      in lstrip (from_limbs [xhh, xhl, xlh, xll]))"

fun acc_limbs :: "nat \<Rightarrow> Single list \<Rightarrow> 'w::len word \<Rightarrow> 'w word" where
  "acc_limbs i [] acc = acc"
| "acc_limbs i (d # ds) acc = acc_limbs (Suc i) ds (acc + push_bit (SHIFT * i) (ucast d))"

text \<open>\<open>ty\<close> is the name of the target type, \<open>'w\<close> its width: the macro's two arguments.\<close>

definition try_from_number :: "string \<Rightarrow> BigUint \<Rightarrow> (string, 'w::len word) result" where
  "try_from_number ty x =
     (let v = lstrip x
      in if big_len v * SHIFT > LENGTH('w) then Err (''cannot fit a number into '' @ ty)
         else Ok (acc_limbs 0 (rev (digits v)) 0))"

definition try_from_u128 :: "BigUint \<Rightarrow> (string, u128) result" where
  "try_from_u128 = try_from_number ''u128''"

definition try_from_u64 :: "BigUint \<Rightarrow> (string, u64) result" where
  "try_from_u64 = try_from_number ''u64''"

section \<open>Comparison\<close>

datatype Ordering = Less | Equal | Greater

definition cmp :: "'a::linorder \<Rightarrow> 'a \<Rightarrow> Ordering" where
  "cmp a b = (if a < b then Less else if a = b then Equal else Greater)"

fun cmp_slice :: "Single list \<Rightarrow> Single list \<Rightarrow> Ordering" where
  "cmp_slice (x # xs) (y # ys) = (case cmp x y of Equal \<Rightarrow> cmp_slice xs ys | r \<Rightarrow> r)"
| "cmp_slice xs ys = cmp (length xs) (length ys)"

definition big_cmp :: "BigUint \<Rightarrow> BigUint \<Rightarrow> Ordering" where
  "big_cmp a b =
     (let lhs = dropWhile (\<lambda>d. d = 0) (digits a); rhs = dropWhile (\<lambda>d. d = 0) (digits b)
      in if lhs = [] \<and> rhs = [] then Equal
         else if rhs = [] then Greater
         else if lhs = [] then Less
         else case cmp (length lhs) (length rhs) of
                Equal \<Rightarrow> cmp_slice lhs rhs
              | len_cmp \<Rightarrow> len_cmp)"

text \<open>The operator \<open>-\<close>: the digits of \<open>sub\<close>, whether it borrowed or not.\<close>

definition ops_sub :: "BigUint \<Rightarrow> BigUint \<Rightarrow> ('e, BigUint) result" where
  "ops_sub a b = (case big_sub a b of Ok w \<Rightarrow> Ok w | Err w \<Rightarrow> Ok w | Panic \<Rightarrow> Panic)"

section \<open>Long division\<close>

definition leading_zeros :: "Single \<Rightarrow> nat" where
  "leading_zeros x = length (takeWhile (\<lambda>i. \<not> bit x i) (rev [0..<32]))"

lemma Base_eq: "Base = 4294967296"
  by (simp add: Base_def unsigned_minus_1_eq_mask mask_eq_exp_minus_1)

text \<open>The closure \<open>test\<close> of step D3: whether the estimate was lowered, and the two cells after it.\<close>

definition qhat_test ::
  "BigUint \<Rightarrow> BigUint \<Rightarrow> nat \<Rightarrow> nat \<Rightarrow> Double \<Rightarrow> Double \<Rightarrow> ('e, bool \<times> Double \<times> Double) result" where
  "qhat_test other_norm self_norm n j qhat rhat =
     and_then (big_get other_norm (n - 2)) (\<lambda>v2.
     and_then (big_get self_norm (j + n - 2)) (\<lambda>u2.
       let predicate_1 = qhat \<ge> Base;
           predicate_2 = qhat * ucast v2 > Base * rhat + ucast u2
       in if predicate_1 \<or> predicate_2
          then and_then (big_get other_norm (n - 1)) (\<lambda>v1. Ok (True, qhat - 1, rhat + ucast v1))
          else Ok (False, qhat, rhat)))"

lemma and_then_cong [fundef_cong]:
  "r = r' \<Longrightarrow> (\<And>a. r' = Ok a \<Longrightarrow> f a = g a) \<Longrightarrow> and_then r f = and_then r' g"
  by (cases r) auto

lemma qhat_test_decreases:
  "qhat_test v u n j qhat rhat = Ok (True, qhat', rhat') \<Longrightarrow> unat qhat' < unat qhat"
proof -
  assume t: "qhat_test v u n j qhat rhat = Ok (True, qhat', rhat')"
  then have "qhat' = qhat - 1" and "qhat \<noteq> 0"
    by (auto simp: qhat_test_def and_then_Ok_iff Let_def Base_eq split: if_splits)
  then show ?thesis
    by (metis measure_unat)
qed

function qhat_loop ::
  "BigUint \<Rightarrow> BigUint \<Rightarrow> nat \<Rightarrow> nat \<Rightarrow> Double \<Rightarrow> Double \<Rightarrow> ('e, Double \<times> Double) result" where
  "qhat_loop other_norm self_norm n j qhat rhat =
     (if rhat < Base then
        and_then (qhat_test other_norm self_norm n j qhat rhat) (\<lambda>(lowered, qhat', rhat').
          if lowered then qhat_loop other_norm self_norm n j qhat' rhat' else Ok (qhat', rhat'))
      else Ok (qhat, rhat))"
  by pat_completeness auto
termination
  by (relation "measure (\<lambda>(v, u, n, j, qhat, rhat). unat qhat)") (auto dest: qhat_test_decreases)

declare qhat_loop.simps [simp del]

definition estimate :: "BigUint \<Rightarrow> BigUint \<Rightarrow> nat \<Rightarrow> nat \<Rightarrow> ('e, Double) result" where
  "estimate other_norm self_norm n j =
     and_then (big_get self_norm (j + n)) (\<lambda>u0.
     and_then (big_get self_norm (j + n - 1)) (\<lambda>u1.
     and_then (big_get other_norm (n - 1)) (\<lambda>v1.
     and_then (div_single (ucast u0 * Base + ucast u1) v1) (\<lambda>(qhat, rhat).
     and_then (qhat_test other_norm self_norm n j qhat (ucast rhat)) (\<lambda>(_, qhat, rhat).
     and_then (qhat_loop other_norm self_norm n j qhat rhat) (\<lambda>(qhat, _). Ok qhat))))))"

fun get_limbs :: "BigUint \<Rightarrow> nat list \<Rightarrow> ('e, Single list) result" where
  "get_limbs x [] = Ok []"
| "get_limbs x (d # ds) = and_then (big_get x d) (\<lambda>v. and_then (get_limbs x ds) (\<lambda>vs. Ok (v # vs)))"

fun copy_limbs :: "BigUint \<Rightarrow> nat \<Rightarrow> nat list \<Rightarrow> BigUint \<Rightarrow> ('e, BigUint) result" where
  "copy_limbs src j [] x = Ok x"
| "copy_limbs src j (d # ds) x = and_then (big_get src (d - j)) (\<lambda>v. and_then (big_set x d v) (copy_limbs src j ds))"

text \<open>The body of the main loop: steps D3 to D6 for the quotient limb \<open>j\<close>.\<close>

definition div_step :: "BigUint \<Rightarrow> nat \<Rightarrow> nat \<Rightarrow> BigUint \<Rightarrow> BigUint \<Rightarrow> ('e, BigUint \<times> BigUint) result" where
  "div_step other_norm n j self_norm q =
     and_then (estimate other_norm self_norm n j) (\<lambda>qhat.
     and_then (get_limbs self_norm (rev [j..<Suc (j + n)])) (\<lambda>lhs.
     and_then (big_mul other_norm (from_u64 qhat)) (\<lambda>rhs.
     and_then (case big_sub (big lhs) rhs of Ok t \<Rightarrow> Ok (False, t) | Err t \<Rightarrow> Ok (True, t) | Panic \<Rightarrow> Panic)
       (\<lambda>(negative, sub).
     and_then (copy_limbs sub j [j..<Suc (j + n)] self_norm) (\<lambda>self_norm.
     and_then (big_set q j (ucast qhat)) (\<lambda>q.
       if negative then
         and_then (big_get q j) (\<lambda>qj.
         and_then (big_set q j (qj - 1)) (\<lambda>q.
         and_then (get_limbs self_norm (rev [j..<Suc (j + n)])) (\<lambda>u.
         and_then (big_add other_norm (big u)) (\<lambda>r.
         and_then (copy_limbs r j (rev [j..<Suc (j + n)]) self_norm) (\<lambda>self_norm.
           Ok (self_norm, q))))))
       else Ok (self_norm, q)))))))"

fun div_loop :: "BigUint \<Rightarrow> nat \<Rightarrow> nat list \<Rightarrow> BigUint \<Rightarrow> BigUint \<Rightarrow> ('e, BigUint \<times> BigUint) result" where
  "div_loop other_norm n [] self_norm q = Ok (self_norm, q)"
| "div_loop other_norm n (j # js) self_norm q =
     and_then (div_step other_norm n j self_norm q) (\<lambda>(self_norm, q). div_loop other_norm n js self_norm q)"

fun undo_loop :: "BigUint \<Rightarrow> nat \<Rightarrow> nat list \<Rightarrow> BigUint \<Rightarrow> ('e, BigUint) result" where
  "undo_loop self_norm nb [] r = Ok r"
| "undo_loop self_norm nb (d # ds) r =
     and_then (big_get self_norm d) (\<lambda>x.
     and_then (big_get self_norm (d + 1)) (\<lambda>y.
     and_then (big_set r d (drop_bit nb x OR push_bit (SHIFT - nb) y)) (undo_loop self_norm nb ds)))"

definition undo_normalization :: "BigUint \<Rightarrow> nat \<Rightarrow> nat \<Rightarrow> BigUint \<Rightarrow> ('e, BigUint) result" where
  "undo_normalization self_norm nb n r =
     (if nb > 0 then
        and_then (undo_loop self_norm nb [0..<n - 1] r) (\<lambda>r.
        and_then (big_get self_norm (n - 1)) (\<lambda>x. big_set r (n - 1) (drop_bit nb x)))
      else Ok self_norm)"

definition div_main :: "BigUint \<Rightarrow> BigUint \<Rightarrow> nat \<Rightarrow> bool \<Rightarrow> ('e, BigUint \<times> BigUint) result" where
  "div_main a b nb rem =
     (let n = big_len b; m = big_len a - n; q = with_capacity (m + 1); r = with_capacity n;
          normalizer = 2 ^ nb
      in and_then (big_mul a (from_u32 normalizer)) (\<lambda>self_norm.
         and_then (big_mul b (from_u32 normalizer)) (\<lambda>other_norm.
         and_then (div_loop (lstrip other_norm) n (rev [0..<Suc m]) (lpad (n + m + 1) self_norm) q) (\<lambda>(self_norm, q).
         and_then (if rem then undo_normalization self_norm nb n r else Ok r) (\<lambda>r. Ok (q, r))))))"

definition big_div :: "BigUint \<Rightarrow> BigUint \<Rightarrow> bool \<Rightarrow> ('e, (BigUint \<times> BigUint) option) result" where
  "big_div a b rem =
     (if big_len b \<le> 1 then Ok None else
      and_then (msb b) (\<lambda>mb. if mb = 0 then Ok None else
      and_then (msb a) (\<lambda>ma. if ma = 0 \<or> big_len a \<le> big_len b then Ok None else
      and_then (div_main a b (leading_zeros mb) rem) (\<lambda>qr. Ok (Some qr)))))"

section \<open>128-bit helpers\<close>

function gcd_u128 :: "u128 \<Rightarrow> u128 \<Rightarrow> u128" where
  "gcd_u128 a b =
     (if a = b then b
      else if a = 0 then b
      else if b = 0 then a
      else if a AND 1 = 0 \<and> b AND 1 = 1 then gcd_u128 (drop_bit 1 a) b
      else if a AND 1 = 1 \<and> b AND 1 = 0 then gcd_u128 (drop_bit 1 b) a
      else if a AND 1 = 0 \<and> b AND 1 = 0 then push_bit 1 (gcd_u128 (drop_bit 1 a) (drop_bit 1 b))
      else let x = min a b; y = max a b in gcd_u128 (drop_bit 1 (y - x)) x)"
  by pat_completeness auto

text \<open>Halving, and the halved difference of the last branch, make the arguments smaller.\<close>

lemma unat_half: "unat (drop_bit (Suc 0) (a :: 'w::len word)) = unat a div 2"
  by (simp add: unat_drop_bit_eq) (simp add: drop_bit_eq_div)

lemma unat_half_less: "a \<noteq> 0 \<Longrightarrow> unat (drop_bit (Suc 0) (a :: 'w::len word)) < unat a"
  using unat_gt_0 [of a] by (simp add: unat_half)

lemma unat_half_difference:
  "a \<noteq> b \<Longrightarrow> a \<noteq> 0 \<Longrightarrow> b \<noteq> 0 \<Longrightarrow>
   unat (drop_bit 1 (max a b - min a (b :: 'w::len word))) + unat (min a b) < unat a + unat b"
proof (cases "a < b")
  case True
  assume "a \<noteq> 0"
  then have "unat b - unat a < unat b" "unat a < unat b"
    using True unat_gt_0 [of a] by (simp_all add: word_less_nat_alt)
  then show ?thesis
    using True by (simp add: unat_half unat_sub_nowrap)
next
  case False
  assume "a \<noteq> b" "b \<noteq> 0"
  moreover from \<open>a \<noteq> b\<close> False have "b < a"
    by simp
  ultimately have "unat a - unat b < unat a" "unat b < unat a"
    using unat_gt_0 [of b] by (simp_all add: word_less_nat_alt)
  then show ?thesis
    using False by (simp add: unat_half unat_sub_nowrap max_def min_def word_le_nat_alt)
qed

termination gcd_u128
proof (relation "measure (\<lambda>(a, b). unat a + unat b)", goal_cases)
  case (5 a b x y)
  then show ?case
    using unat_half_difference [of a b] by simp
qed (auto simp: unat_half_less add_less_mono)

declare gcd_u128.simps [simp del]

definition checked_mul_u128 :: "u128 \<Rightarrow> u128 \<Rightarrow> u128 option" where
  "checked_mul_u128 a b = (if unat a * unat b < 2 ^ 128 then Some (a * b) else None)"

text \<open>The quotient of the product by \<open>c\<close> when the product does not fit: the code between the two conversions.\<close>

definition big_quotient :: "BigUint \<Rightarrow> BigUint \<Rightarrow> u128 \<Rightarrow> (string, BigUint) result" where
  "big_quotient ab c_num c =
     (if big_len c_num = 1 then div_unit ab (ucast c)
      else
        and_then (big_div ab c_num True) (\<lambda>res.
          let (q, r) = (case res of Some qr \<Rightarrow> qr | None \<Rightarrow> (zero_big, zero_big))
          in case try_from_u128 r of
               Ok r \<Rightarrow> if r > c div 2 then big_add q (to_big_uint 1) else Ok q
             | _ \<Rightarrow> Panic))"

text \<open>\<open>multiply_by_rational\<close> once the arguments are ordered and one of them divided by \<open>c\<close>, if that is exact.\<close>

definition multiply_reduced :: "u128 \<Rightarrow> u128 \<Rightarrow> u128 \<Rightarrow> (string, u128) result" where
  "multiply_reduced a b c =
     (case checked_mul_u128 a b of
        Some x \<Rightarrow> Ok (x div c)
      | None \<Rightarrow>
          and_then (big_mul (to_big_uint a) (to_big_uint b)) (\<lambda>ab.
          and_then (big_quotient (lstrip ab) (to_big_uint c) c) (\<lambda>q.
            case try_from_u128 (lstrip q) of
              Err _ \<Rightarrow> Err ''result cannot fit in u128''
            | r \<Rightarrow> r)))"

definition multiply_by_rational :: "u128 \<Rightarrow> u128 \<Rightarrow> u128 \<Rightarrow> (string, u128) result" where
  "multiply_by_rational a b c =
     (if a = 0 \<or> b = 0 then Ok 0
      else let c = max c 1;
               (a, b) = (if b > a then (b, a) else (a, b));
               (a, b, c) = (if a mod c = 0 then (a div c, b, 1)
                            else if b mod c = 0 then (a, b div c, 1)
                            else (a, b, c))
           in multiply_reduced a b c)"

end
