(* ===== verification/BigUintArith.thy ===== *)
theory BigUintArith
  imports BigUint
begin

text \<open>
  What the limb vectors mean and that addition, subtraction, multiplication and division by one limb compute it.
  \<open>dg x i\<close> is the limb of weight \<open>i\<close>, 0 beyond the last, and \<open>val x\<close> the number. Every loop is followed by an
  invariant that compares the value of the output vector with the value of the limbs consumed; in all of them the
  limb arithmetic on 64-bit words is shown not to wrap.
\<close>

unbundle bit_operations_syntax

named_theorems limb_simps "the value of limbs and words read as natural numbers"

section \<open>The value of a vector of limbs\<close>

definition rad :: nat where
  "rad = 4294967296"

definition dg :: "BigUint \<Rightarrow> nat \<Rightarrow> nat" where
  "dg x i = (if i < big_len x then unat (digits x ! (big_len x - 1 - i)) else 0)"

definition psum :: "(nat \<Rightarrow> nat) \<Rightarrow> nat \<Rightarrow> nat" where
  "psum f k = (\<Sum>i<k. f i * rad ^ i)"

definition val :: "BigUint \<Rightarrow> nat" where
  "val x = psum (dg x) (big_len x)"

lemma rad_pos [simp]: "0 < rad" "rad \<noteq> 0" "Suc 0 < rad" "Suc 0 \<le> rad"
  by (simp_all add: rad_def)

lemma psum_0 [simp]: "psum f 0 = 0"
  by (simp add: psum_def)

lemma psum_Suc: "psum f (Suc k) = psum f k + f k * rad ^ k"
  by (simp add: psum_def)

lemma psum_cong: "(\<And>i. i < k \<Longrightarrow> f i = g i) \<Longrightarrow> psum f k = psum g k"
  by (simp add: psum_def)

lemma psum_less: "(\<And>i. i < k \<Longrightarrow> f i < rad) \<Longrightarrow> psum f k < rad ^ k"
proof (induction k)
  case (Suc k)
  then have "psum f k < rad ^ k" "Suc (f k) \<le> rad"
    by (simp_all add: Suc_leI)
  moreover have "Suc (f k) * rad ^ k \<le> rad * rad ^ k"
    using \<open>Suc (f k) \<le> rad\<close> by (rule mult_le_mono1)
  ultimately show ?case
    by (simp add: psum_Suc)
qed simp

lemma psum_beyond: "(\<And>i. k \<le> i \<Longrightarrow> i < l \<Longrightarrow> f i = 0) \<Longrightarrow> k \<le> l \<Longrightarrow> psum f l = psum f k"
proof (induction l)
  case (Suc l)
  show ?case
  proof (cases "k = Suc l")
    case False
    then show ?thesis
      using Suc by (simp add: psum_Suc)
  qed simp
qed simp

lemma psum_split: "psum f (j + l) = psum f j + rad ^ j * psum (\<lambda>i. f (j + i)) l"
  by (induction l) (simp_all add: psum_Suc algebra_simps power_add)

lemma dg_less [simp]: "dg x i < rad"
  using unat_u32_less by (simp add: dg_def rad_def)

lemma dg_beyond [simp]: "big_len x \<le> i \<Longrightarrow> dg x i = 0"
  by (simp add: dg_def)

lemma val_psum: "big_len x \<le> k \<Longrightarrow> psum (dg x) k = val x"
  unfolding val_def by (rule psum_beyond) simp_all

lemma val_less: "val x < rad ^ big_len x"
  unfolding val_def by (rule psum_less) simp

lemma val_small: "(\<And>i. k \<le> i \<Longrightarrow> dg x i = 0) \<Longrightarrow> val x < rad ^ k"
proof -
  assume "\<And>i. k \<le> i \<Longrightarrow> dg x i = 0"
  then have "psum (dg x) (max k (big_len x)) = psum (dg x) k"
    by (intro psum_beyond) simp_all
  then show ?thesis
    using psum_less [of k "dg x"] val_psum [of x "max k (big_len x)"] by simp
qed

text \<open>Limbs of great weight are 0 in a small number.\<close>

lemma dg_small: "val x < rad ^ k \<Longrightarrow> k \<le> i \<Longrightarrow> dg x i = 0"
proof (rule ccontr)
  assume "val x < rad ^ k" "k \<le> i" "dg x i \<noteq> 0"
  have "rad ^ k \<le> rad ^ i"
    using \<open>k \<le> i\<close> by (simp add: power_increasing)
  also have "\<dots> \<le> dg x i * rad ^ i"
    using \<open>dg x i \<noteq> 0\<close> by simp
  also have "\<dots> \<le> psum (dg x) (Suc i)"
    by (simp add: psum_Suc)
  also have "\<dots> \<le> psum (dg x) (Suc i + big_len x)"
    using psum_split [of "dg x" "Suc i" "big_len x"] by simp
  also have "\<dots> = val x"
    by (rule val_psum) simp
  finally show False
    using \<open>val x < rad ^ k\<close> by simp
qed

subsection \<open>Reading and writing a limb\<close>

lemma big_len_big [simp]: "big_len (big ds) = length ds" "digits (big ds) = ds"
  by (simp_all add: big_len_def big_def)

lemma big_digits [simp]: "big (digits x) = x"
  by (simp add: big_def)

lemma big_get_Ok: "i < big_len x \<Longrightarrow> \<exists>v. big_get x i = Ok v \<and> unat v = dg x i"
  by (simp add: big_get_def dg_def)

lemma big_get_unat: "big_get x i = Ok v \<Longrightarrow> unat v = dg x i"
  by (auto simp: big_get_def dg_def split: if_splits)

lemma big_set_Ok: "i < big_len x \<Longrightarrow> \<exists>y. big_set x i v = Ok y \<and> big_len y = big_len x \<and> dg y = (dg x)(i := unat v)"
  by (auto simp: big_set_def dg_def fun_eq_iff nth_list_update big_len_def big_def)

lemma big_set_val:
  assumes "i < big_len x" and "big_len y = big_len x" and "dg y = (dg x)(i := v)"
  shows "val y + dg x i * rad ^ i = val x + v * rad ^ i"
proof -
  have "psum (dg y) n + (if i < n then dg x i * rad ^ i else 0) = psum (dg x) n + (if i < n then v * rad ^ i else 0)" for n
    by (induction n) (auto simp: psum_Suc assms(3) less_Suc_eq)
  from this [of "big_len x"] show ?thesis
    using assms by (simp add: val_def)
qed

lemma checked_get_dg: "checked_get x i = (if i < big_len x then Some (digits x ! (big_len x - 1 - i)) else None)"
  by (auto simp: checked_get_def)

section \<open>Words\<close>

lemma unat_ucast_up [limb_simps]: "unat (ucast (a :: u32) :: u64) = unat a"
  using unat_u32_less [of a] by (simp add: unsigned_ucast_eq take_bit_nat_eq_self)

lemma unat_ucast_down [limb_simps]: "unat (ucast (a :: u64) :: u32) = unat a mod rad"
  by (simp add: unsigned_ucast_eq take_bit_eq_mod rad_def)

lemma unat_Base [limb_simps]: "unat Base = rad"
  by (simp add: Base_eq rad_def)

lemma unat_div_Base [limb_simps]: "unat (a div Base) = unat a div rad" "unat (a mod Base) = unat a mod rad"
  by (simp_all add: unat_div_distrib unat_mod_distrib unat_Base)

lemma unat_mul_nowrap [word_nat]:
  "unat (a :: 'w::len word) * unat b < 2 ^ LENGTH('w) \<Longrightarrow> unat (a * b) = unat a * unat b"
  by (simp add: unat_mult_lem)

lemma rad_square: "rad * rad = 2 ^ 64"
  by (simp add: rad_def)

lemma mul_single_unat [limb_simps]: "unat (mul_single a b) = unat a * unat b"
proof -
  have "unat a * unat b < rad * rad"
    using unat_u32_less [of a] unat_u32_less [of b] by (intro mult_strict_mono) (simp_all add: rad_def)
  then show ?thesis
    by (simp add: mul_single_def unat_mul_nowrap unat_ucast_up rad_square)
qed

lemma limb_unat [limb_simps]: "unat (limb x i) = dg x i"
  by (simp add: limb_def checked_get_dg dg_def unat_ucast_up)

section \<open>Addition\<close>

lemma digit_pair: "x mod rad * rad ^ j + x div rad * rad ^ Suc j = x * rad ^ j"
proof -
  have "(x mod rad + x div rad * rad) * rad ^ j = x * rad ^ j"
    by simp
  then show ?thesis
    by (simp only: add_mult_distrib mult.assoc power_Suc)
qed

lemma carry_step:
  assumes "V' = V + s mod rad * rad ^ j" and "V + k * rad ^ j = A + B" and "s = x + y + k"
  shows "V' + s div rad * rad ^ Suc j = (A + x * rad ^ j) + (B + y * rad ^ j)"
proof -
  have "V' + s div rad * rad ^ Suc j = V + (s mod rad * rad ^ j + s div rad * rad ^ Suc j)"
    using assms(1) by (simp only: add.assoc)
  also have "\<dots> = V + s * rad ^ j"
    by (simp only: digit_pair)
  also have "\<dots> = (V + k * rad ^ j) + (x * rad ^ j + y * rad ^ j)"
    unfolding assms(3) by (simp add: add_mult_distrib)
  finally show ?thesis
    unfolding assms(2) by simp
qed

lemma with_capacity_dg [simp]: "dg (with_capacity n) i = 0" "big_len (with_capacity n) = max n 1" "val (with_capacity n) = 0"
proof -
  show d: "dg (with_capacity n) i = 0" for i
    by (auto simp: dg_def with_capacity_def simp del: replicate.simps)
  show "big_len (with_capacity n) = max n 1"
    by (simp add: with_capacity_def)
  show "val (with_capacity n) = 0"
    using val_small [of 0 "with_capacity n"] d by simp
qed

lemma zero_above_set: "dg y = (dg x)(j := v) \<Longrightarrow> (\<And>i. j \<le> i \<Longrightarrow> dg x i = 0) \<Longrightarrow> Suc j \<le> i \<Longrightarrow> dg y i = 0"
  by simp

lemma add_step_unat:
  assumes "unat k \<le> 1"
  shows "unat (limb a j + limb b j + k) = dg a j + dg b j + unat k" and "dg a j + dg b j + unat k < 2 * rad"
proof -
  show "dg a j + dg b j + unat k < 2 * rad"
    using dg_less [of a j] dg_less [of b j] assms by linarith
  then show "unat (limb a j + limb b j + k) = dg a j + dg b j + unat k"
    by (simp add: word_nat limb_simps rad_def)
qed

lemma add_loop_ok:
  assumes "n < big_len w" and "unat k \<le> 1" and "\<And>i. j \<le> i \<Longrightarrow> dg w i = 0" and "j \<le> n"
    and "val w + unat k * rad ^ j = psum (dg a) j + psum (dg b) j"
  shows "\<exists>k' w'. (add_loop a b [j..<n] k w :: ('e, _) result) = Ok (k', w') \<and> big_len w' = big_len w \<and> unat k' \<le> 1 \<and>
    (\<forall>i\<ge>n. dg w' i = 0) \<and> val w' + unat k' * rad ^ n = psum (dg a) n + psum (dg b) n"
  using assms
proof (induction "n - j" arbitrary: j k w)
  case 0
  then show ?case by simp
next
  case (Suc l)
  let ?s = "limb a j + limb b j + k"
  have s: "unat ?s = dg a j + dg b j + unat k" and "unat ?s < 2 * rad"
    using add_step_unat [OF Suc.prems(2), of a j b] by simp_all
  obtain w' where w': "big_set w j (ucast (?s mod Base)) = (Ok w' :: ('e, BigUint) result)" "big_len w' = big_len w"
      "dg w' = (dg w)(j := unat ?s mod rad)"
    using big_set_Ok [of j w] Suc.prems Suc.hyps(2) by (fastforce simp: limb_simps)
  have "val w' = val w + unat ?s mod rad * rad ^ j"
    using big_set_val [OF _ w'(2,3)] Suc.prems Suc.hyps(2) by simp
  then have "val w' + unat (?s div Base) * rad ^ Suc j = psum (dg a) (Suc j) + psum (dg b) (Suc j)"
    unfolding psum_Suc unat_div_Base by (rule carry_step [OF _ Suc.prems(5) s])
  moreover have "unat (?s div Base) \<le> 1"
    using less_mult_imp_div_less [OF \<open>unat ?s < 2 * rad\<close>] unfolding unat_div_Base by linarith
  ultimately show ?case
    using Suc.hyps(1) [of "Suc j" w' "?s div Base"] Suc.prems Suc.hyps(2) w'
    by (simp add: upt_conv_Cons Let_def)
qed

lemma big_add_ok: "\<exists>w. (big_add a b :: ('e, BigUint) result) = Ok w \<and> val w = val a + val b \<and> big_len w = max (big_len a) (big_len b) + 1"
proof -
  let ?n = "max (big_len a) (big_len b)"
  let ?w = "with_capacity (?n + 1)"
  obtain k' w' where l: "add_loop a b [0..<?n] 0 ?w = (Ok (k', w') :: ('e, Double \<times> BigUint) result)" "big_len w' = ?n + 1"
      "unat k' \<le> 1" "\<forall>i\<ge>?n. dg w' i = 0" "val w' + unat k' * rad ^ ?n = psum (dg a) ?n + psum (dg b) ?n"
    using add_loop_ok [of ?n ?w 0 0 a b] by auto
  obtain y where y: "big_set w' ?n (ucast k') = (Ok y :: ('e, BigUint) result)" "big_len y = big_len w'"
      "dg y = (dg w')(?n := unat k')"
    using big_set_Ok [of ?n w' "ucast k'"] l(2,3) by (fastforce simp: limb_simps rad_def)
  then have "val y = val a + val b"
    using big_set_val [OF _ y(2,3)] l by (simp add: val_psum)
  then show ?thesis
    using l y by (simp add: big_add_def Let_def)
qed

section \<open>Subtraction\<close>

lemma sub_step_ok:
  assumes "unat u < rad" "unat v < rad" "unat k \<le> 1" and "sub_step u v k = (s, k')"
  shows "unat k' \<le> 1" "unat s < rad" "unat s + unat v + unat k = unat u + unat k' * rad"
proof -
  have borrow: "unat (u + Base - v - k) = unat u + rad - unat v - unat k"
    using assms(1-3) by (simp add: word_nat limb_simps rad_def)
  have "(unat k' = 0 \<and> unat v + unat k \<le> unat u \<and> unat s = unat u - unat v - unat k) \<or>
        (unat k' = 1 \<and> unat u < unat v + unat k \<and> unat s = unat u + rad - unat v - unat k)"
    using assms(3,4) borrow
    by (auto simp: sub_step_def checked_sub_u64_def word_le_nat_alt word_nat split: if_splits)
  then show "unat k' \<le> 1" "unat s < rad" "unat s + unat v + unat k = unat u + unat k' * rad"
    using assms(1-3) by auto
qed

lemma borrow_step:
  assumes "V' = V + s * rad ^ j" and "V + B = A + k * rad ^ j" and "s + v + k = u + k' * rad"
  shows "V' + (B + v * rad ^ j) = (A + u * rad ^ j) + k' * rad ^ Suc j"
proof -
  have "s * rad ^ j + v * rad ^ j + k * rad ^ j = u * rad ^ j + k' * rad ^ Suc j"
    using arg_cong [OF assms(3), of "\<lambda>x. x * rad ^ j"] by (simp add: add_mult_distrib)
  then show ?thesis
    using assms(1,2) by linarith
qed

lemma sub_loop_ok:
  assumes "n \<le> big_len w" and "unat k \<le> 1" and "\<And>i. j \<le> i \<Longrightarrow> dg w i = 0" and "j \<le> n"
    and "val w + psum (dg b) j = psum (dg a) j + unat k * rad ^ j"
  shows "\<exists>k' w'. (sub_loop a b [j..<n] k w :: ('e, _) result) = Ok (k', w') \<and> big_len w' = big_len w \<and> unat k' \<le> 1 \<and>
    (\<forall>i\<ge>n. dg w' i = 0) \<and> val w' + psum (dg b) n = psum (dg a) n + unat k' * rad ^ n"
  using assms
proof (induction "n - j" arbitrary: j k w)
  case 0
  then show ?case by simp
next
  case (Suc l)
  obtain s k' where st: "sub_step (limb a j) (limb b j) k = (s, k')"
    by fastforce
  have s: "unat k' \<le> 1" "unat s < rad" "unat s + dg b j + unat k = dg a j + unat k' * rad"
    using sub_step_ok [OF _ _ Suc.prems(2) st] by (simp_all add: limb_simps)
  obtain w' where w': "big_set w j (ucast s) = (Ok w' :: ('e, BigUint) result)" "big_len w' = big_len w"
      "dg w' = (dg w)(j := unat s)"
    using big_set_Ok [of j w] Suc.prems Suc.hyps(2) s(2) by (fastforce simp: limb_simps)
  have "val w' = val w + unat s * rad ^ j"
    using big_set_val [OF _ w'(2,3)] Suc.prems Suc.hyps(2) by simp
  then have "val w' + psum (dg b) (Suc j) = psum (dg a) (Suc j) + unat k' * rad ^ Suc j"
    unfolding psum_Suc by (rule borrow_step [OF _ Suc.prems(5) s(3)])
  then show ?case
    using Suc.hyps(1) [of "Suc j" w' k'] Suc.prems Suc.hyps(2) w' s(1) st
    by (simp add: upt_conv_Cons)
qed

lemma big_sub_ok:
  "\<exists>w. big_len w = max (max (big_len a) (big_len b)) 1 \<and>
     (if val b \<le> val a then big_sub a b = Ok w \<and> val w = val a - val b
      else big_sub a b = Err w \<and> val w = val a + rad ^ max (big_len a) (big_len b) - val b)"
proof -
  let ?n = "max (big_len a) (big_len b)"
  let ?w = "with_capacity ?n"
  obtain k' w' where l: "sub_loop a b [0..<?n] 0 ?w = (Ok (k', w') :: (BigUint, _) result)" "big_len w' = max ?n 1"
      "unat k' \<le> 1" "\<forall>i\<ge>?n. dg w' i = 0" "val w' + val b = val a + unat k' * rad ^ ?n"
    using sub_loop_ok [of ?n ?w 0 0 b a] by (auto simp: val_psum)
  have less: "val w' < rad ^ ?n" "val b < rad ^ ?n"
    using val_small [of ?n w'] val_small [of ?n b] l(4) by simp_all
  have "k' = 0 \<or> unat k' = 1"
    using l(3) by (metis One_nat_def le_SucE le_zero_eq unat_eq_zero)
  then show ?thesis
  proof
    assume "k' = 0"
    then have "big_sub a b = Ok w'" "val b \<le> val a" "val w' = val a - val b"
      using l(5) by (simp_all add: big_sub_def Let_def l(1))
    then show ?thesis
      using l(2) by auto
  next
    assume k': "unat k' = 1"
    then have "big_sub a b = Err w'"
      by (auto simp: big_sub_def Let_def l(1))
    moreover have "val w' + val b = val a + rad ^ ?n"
      using l(5) k' by simp
    ultimately show ?thesis
      using l(2) less by (intro exI [of _ w']) (simp only:, simp)
  qed
qed

section \<open>Multiplication\<close>

lemma mul_step_unat:
  "unat (mul_single x y + ucast (z :: u32) + ucast (k :: u32)) = unat x * unat y + unat z + unat k"
  and mul_step_less: "(unat x * unat y + unat z + unat k) div rad < rad"
proof -
  have l: "unat x \<le> rad - 1" "unat y \<le> rad - 1" "unat z \<le> rad - 1" "unat k \<le> rad - 1"
    using unat_u32_less [of x] unat_u32_less [of y] unat_u32_less [of z] unat_u32_less [of k] by (simp_all add: rad_def)
  then have "unat x * unat y \<le> (rad - 1) * (rad - 1)"
    by (intro mult_le_mono)
  then have s: "unat x * unat y + unat z + unat k < rad * rad"
    using l by (simp add: rad_def)
  then show "(unat x * unat y + unat z + unat k) div rad < rad"
    by (simp add: less_mult_imp_div_less)
  show "unat (mul_single x y + ucast z + ucast k) = unat x * unat y + unat z + unat k"
    using s unfolding rad_square by (simp add: word_nat limb_simps)
qed

text \<open>One row: \<open>w0\<close> is the output before it, \<open>x\<close> the limb of weight \<open>j\<close> it is for.\<close>

lemma row_step:
  assumes "V' + d * rad ^ (i + j) = V + t mod rad * rad ^ (i + j)" and "t = x * y + d + k"
    and "V + k * rad ^ (i + j) = V0 + x * P * rad ^ j"
  shows "V' + t div rad * rad ^ (Suc i + j) = V0 + x * (P + y * rad ^ i) * rad ^ j"
proof -
  let ?R = "rad ^ (i + j)"
  have "V' + d * ?R + t div rad * rad ^ Suc (i + j) = V + (t mod rad * ?R + t div rad * rad ^ Suc (i + j))"
    unfolding assms(1) by (simp only: add.assoc)
  also have "\<dots> = V + t * ?R"
    by (simp only: digit_pair)
  also have "\<dots> = (V + k * ?R) + x * y * ?R + d * ?R"
    unfolding assms(2) by (simp add: add_mult_distrib)
  also have "\<dots> = V0 + x * (P + y * rad ^ i) * rad ^ j + d * ?R"
    unfolding assms(3) by (simp add: add_mult_distrib add_mult_distrib2 power_add)
  finally show ?thesis
    by simp
qed

lemma mul_inner_ok:
  assumes "big_len b + j < big_len w" and "i \<le> big_len b"
    and "\<And>d. i + j \<le> d \<Longrightarrow> dg w d = dg w0 d"
    and "val w + unat k * rad ^ (i + j) = val w0 + unat x * psum (dg b) i * rad ^ j"
  shows "\<exists>k' w'. (mul_inner x b j [i..<big_len b] k w :: ('e, _) result) = Ok (k', w') \<and> big_len w' = big_len w \<and>
    (\<forall>d\<ge>big_len b + j. dg w' d = dg w0 d) \<and>
    val w' + unat k' * rad ^ (big_len b + j) = val w0 + unat x * val b * rad ^ j"
  using assms
proof (induction "big_len b - i" arbitrary: i k w)
  case 0
  then show ?case by (simp add: val_def)
next
  case (Suc l)
  have i: "i < big_len b" "i + j < big_len w"
    using Suc.hyps(2) Suc.prems(1) by simp_all
  obtain bi wij where g: "big_get b i = (Ok bi :: ('e, _) result)" "unat bi = dg b i"
      "big_get w (i + j) = (Ok wij :: ('e, _) result)" "unat wij = dg w (i + j)"
    using big_get_Ok [OF i(1)] big_get_Ok [OF i(2)] by metis
  let ?t = "mul_single x bi + ucast wij + ucast k"
  have t: "unat ?t = unat x * dg b i + dg w (i + j) + unat k" "unat (ucast (?t div Base) :: u32) = unat ?t div rad"
    using mul_step_unat [of x bi wij k] mul_step_less [of x bi wij k] g by (simp_all add: limb_simps)
  obtain w' where w': "big_set w (i + j) (ucast (?t mod Base)) = (Ok w' :: ('e, BigUint) result)" "big_len w' = big_len w"
      "dg w' = (dg w)(i + j := unat ?t mod rad)"
    using big_set_Ok [OF i(2)] by (fastforce simp: limb_simps)
  have "val w' + dg w (i + j) * rad ^ (i + j) = val w + unat ?t mod rad * rad ^ (i + j)"
    using big_set_val [OF i(2) w'(2,3)] .
  then have "val w' + unat (ucast (?t div Base) :: u32) * rad ^ (Suc i + j) = val w0 + unat x * psum (dg b) (Suc i) * rad ^ j"
    unfolding psum_Suc t(2) by (rule row_step [OF _ t(1) Suc.prems(4)])
  then show ?case
    using Suc.hyps(1) [of "Suc i" w' "ucast (?t div Base)"] Suc.hyps(2) Suc.prems(1,3) i w' g
    by (simp add: upt_conv_Cons Let_def)
qed

lemma mul_outer_ok:
  assumes "big_len a + big_len b \<le> big_len w" and "j \<le> big_len a"
    and "\<And>d. j + big_len b \<le> d \<Longrightarrow> dg w d = 0" and "val w = psum (dg a) j * val b"
  shows "\<exists>w'. (mul_outer a b [j..<big_len a] w :: ('e, _) result) = Ok w' \<and> big_len w' = big_len w \<and>
    val w' = val a * val b"
  using assms
proof (induction "big_len a - j" arbitrary: j w)
  case 0
  then show ?case by (simp add: val_def)
next
  case (Suc l)
  have j: "j < big_len a" "big_len b + j < big_len w"
    using Suc.hyps(2) Suc.prems(1) by simp_all
  obtain x where x: "big_get a j = (Ok x :: ('e, _) result)" "unat x = dg a j"
    using big_get_Ok [OF j(1)] by metis
  show ?case
  proof (cases "x = 0")
    case True
    then have "val w = psum (dg a) (Suc j) * val b"
      using Suc.prems(4) x(2) by (simp add: psum_Suc)
    then show ?thesis
      using Suc.hyps(1) [of "Suc j" w] Suc.hyps(2) Suc.prems(1,3) j x(1) True by (simp add: upt_conv_Cons)
  next
    case False
    obtain k' w' where r: "mul_inner x b j [0..<big_len b] 0 w = (Ok (k', w') :: ('e, _) result)" "big_len w' = big_len w"
        "\<forall>d\<ge>big_len b + j. dg w' d = dg w d" "val w' + unat k' * rad ^ (big_len b + j) = val w + unat x * val b * rad ^ j"
      using mul_inner_ok [OF j(2), of 0 w 0 x] by auto
    obtain y where y: "big_set w' (j + big_len b) k' = (Ok y :: ('e, _) result)" "big_len y = big_len w'"
        "dg y = (dg w')(j + big_len b := unat k')"
      using big_set_Ok [of "j + big_len b" w' k'] j(2) r(2) by (metis add.commute)
    have zero: "dg w' d = 0" if "j + big_len b \<le> d" for d
      using r(3) Suc.prems(3) that by (simp add: add.commute)
    have "val y = val w' + unat k' * rad ^ (big_len b + j)"
      using big_set_val [OF _ y(2,3)] j(2) r(2) zero by (simp add: add.commute)
    also have "\<dots> = psum (dg a) (Suc j) * val b"
      unfolding r(4) Suc.prems(4) psum_Suc x(2) by (simp add: algebra_simps)
    finally have "val y = psum (dg a) (Suc j) * val b" .
    then show ?thesis
      using Suc.hyps(1) [of "Suc j" y] Suc.hyps(2) Suc.prems(1) zero j x(1) r(1,2) y False by (simp add: upt_conv_Cons)
  qed
qed

lemma big_mul_ok:
  "\<exists>w. (big_mul a b :: ('e, _) result) = Ok w \<and> val w = val a * val b \<and> big_len w = max (big_len a + big_len b) 1"
  using mul_outer_ok [of a b "with_capacity (big_len b + big_len a)" 0] by (auto simp: big_mul_def add.commute)

section \<open>Stripping and padding\<close>

lemma val_eqI: "dg x = dg y \<Longrightarrow> val x = val y"
  using val_psum [of x "max (big_len x) (big_len y)"] val_psum [of y "max (big_len x) (big_len y)"] by simp

lemma dg_drop:
  assumes "\<And>k. k < i \<Longrightarrow> digits x ! k = 0" and "i \<le> big_len x"
  shows "dg (big (drop i (digits x))) = dg x"
proof
  fix d
  show "dg (big (drop i (digits x))) d = dg x d"
  proof (cases "d < big_len x - i")
    case True
    then have "d < big_len x"
      by simp
    then show ?thesis
      using True by (simp add: dg_def big_len_def)
  next
    case False
    then show ?thesis
      using assms by (simp add: dg_def big_len_def)
  qed
qed

lemma takeWhile_zero: "k < length (takeWhile P xs) \<Longrightarrow> P (xs ! k)"
  by (metis nth_mem set_takeWhileD takeWhile_nth)

lemma dg_lstrip [simp]: "dg (lstrip x) = dg x"
proof -
  let ?k = "length (takeWhile (\<lambda>d. d = 0) (digits x))"
  have k: "?k \<le> big_len x"
    by (simp add: big_len_def length_takeWhile_le)
  have "dg (big (drop i (digits x))) = dg x" if "i \<le> ?k" for i
    using dg_drop [of i x] takeWhile_zero [of _ "\<lambda>d. d = 0" "digits x"] k that by simp
  then show ?thesis
    using k by (auto simp: lstrip_def Let_def)
qed

lemma val_lstrip [simp]: "val (lstrip x) = val x"
  by (rule val_eqI) simp

lemma val_msb: "digits x \<noteq> [] \<Longrightarrow> digits x ! 0 \<noteq> 0 \<Longrightarrow> rad ^ (big_len x - 1) \<le> val x"
  using dg_small [of x "big_len x - 1" "big_len x - 1"] by (fastforce simp: dg_def big_len_def unat_eq_zero)

text \<open>A stripped number has no leading zero, unless it is the single limb 0.\<close>

lemma lstrip_msb: "digits x \<noteq> [] \<Longrightarrow> digits (lstrip x) \<noteq> [] \<and> (big_len (lstrip x) = 1 \<or> digits (lstrip x) ! 0 \<noteq> 0)"
proof -
  let ?k = "length (takeWhile (\<lambda>d. d = 0) (digits x))"
  assume x: "digits x \<noteq> []"
  have "?k < big_len x \<Longrightarrow> digits x ! ?k \<noteq> 0"
    by (metis (mono_tags, lifting) big_len_def nth_length_takeWhile)
  moreover have "?k \<le> big_len x"
    by (simp add: big_len_def length_takeWhile_le)
  ultimately show ?thesis
    using x by (cases "length (digits x)") (auto simp: lstrip_def Let_def big_len_def)
qed

lemma rad_mono: "a \<le> b \<Longrightarrow> rad ^ a \<le> rad ^ b"
  by (rule power_increasing) simp_all

lemma big_len_lstrip:
  assumes "digits x \<noteq> []" and "val x < rad ^ k" and "1 \<le> k"
  shows "big_len (lstrip x) \<le> k"
proof (rule ccontr)
  assume "\<not> big_len (lstrip x) \<le> k"
  then have "k \<le> big_len (lstrip x) - 1" "big_len (lstrip x) \<noteq> 1"
    using assms(3) by simp_all
  moreover have "rad ^ (big_len (lstrip x) - 1) \<le> val x" if "big_len (lstrip x) \<noteq> 1"
    using val_msb [of "lstrip x"] lstrip_msb [OF assms(1)] that by simp
  ultimately have "rad ^ k \<le> val x"
    using rad_mono le_trans by blast
  then show False
    using assms(2) by simp
qed

lemma big_len_ge: "rad ^ k \<le> val x \<Longrightarrow> k < big_len x"
  using rad_mono [of "big_len x" k] val_less [of x] by linarith

lemma lpad_ok [simp]: "dg (lpad k x) = dg x" "val (lpad k x) = val x" "big_len (lpad k x) = max k (big_len x)"
proof -
  show d: "dg (lpad k x) = dg x"
    by (auto simp: fun_eq_iff dg_def lpad_def nth_append big_len_def)
  then show "val (lpad k x) = val x"
    by (rule val_eqI)
  show "big_len (lpad k x) = max k (big_len x)"
    by (simp add: lpad_def big_len_def)
qed

end
