(* ===== verification/BigUintConversions.thy ===== *)
theory BigUintConversions
  imports BigUintArith
begin

text \<open>
  Division by one limb, the conversions between machine integers and limb vectors, the order, and the binary
  greatest common divisor, each against the natural numbers.
\<close>

unbundle bit_operations_syntax

section \<open>Division by one limb\<close>

lemma psum_high: "psum (\<lambda>i. f (d + i)) (Suc l) = f d + rad * psum (\<lambda>i. f (Suc d + i)) l"
  using psum_split [of "\<lambda>i. f (d + i)" 1 l] by (simp add: psum_Suc)

lemma div_digit:
  assumes "H' = x + rad * H" and "0 < c"
  shows "H' div c = H div c * rad + (H mod c * rad + x) div c" and "H' mod c = (H mod c * rad + x) mod c"
proof -
  have "H' = (H mod c * rad + x) + (H div c * rad) * c"
    using assms(1) div_mult_mod_eq [of H c] by (metis add.commute add.left_commute add_mult_distrib mult.assoc mult.commute)
  then show "H' div c = H div c * rad + (H mod c * rad + x) div c" "H' mod c = (H mod c * rad + x) mod c"
    using assms(2) by simp_all
qed

lemma div_single_unat:
  assumes "c \<noteq> 0" and "unat (r :: u32) < unat c"
  shows "\<exists>q rr. div_single (ucast r * Base + ucast (x :: u32)) c = (Ok (q, rr) :: ('e, _) result) \<and>
    unat q = (unat r * rad + unat x) div unat c \<and> unat q < rad \<and> unat rr = (unat r * rad + unat x) mod unat c"
proof -
  have c: "0 < unat c" "unat c < rad"
    using assms(1) unat_u32_less [of c] by (simp_all add: unat_gt_0 rad_def)
  have le: "unat r * rad + unat x < unat c * rad"
  proof -
    have "unat r * rad + unat x < Suc (unat r) * rad"
      using unat_u32_less [of x] by (simp add: rad_def)
    also have "\<dots> \<le> unat c * rad"
      using assms(2) by (intro mult_le_mono1) simp
    finally show ?thesis .
  qed
  then have "unat r * rad + unat x < 2 ^ 64"
    using mult_le_mono1 [of "unat c" rad rad] c unfolding rad_square [symmetric] by linarith
  then have s: "unat (ucast r * Base + ucast x) = unat r * rad + unat x"
    by (simp add: word_nat limb_simps)
  have "(unat r * rad + unat x) div unat c < rad"
    using le by (simp add: less_mult_imp_div_less mult.commute)
  moreover have "(unat r * rad + unat x) mod unat c < rad"
    using c mod_less_divisor [OF c(1), of "unat r * rad + unat x"] by linarith
  ultimately show ?thesis
    using assms(1) by (simp add: div_single_def unat_div_distrib unat_mod_distrib s limb_simps)
qed

lemma div_unit_loop_ok:
  fixes a c
  defines "H \<equiv> \<lambda>d. psum (\<lambda>i. dg a (d + i)) (big_len a - d)"
  assumes "c \<noteq> 0" and "big_len a \<le> big_len w" and "d \<le> big_len a" and "\<And>i. i < d \<Longrightarrow> dg w i = 0"
    and "unat r = H d mod unat c" and "val w = H d div unat c * rad ^ d"
  shows "\<exists>w'. (div_unit_loop a c (rev [0..<d]) r w :: ('e, _) result) = Ok w' \<and> big_len w' = big_len w \<and>
    val w' = val a div unat c"
  using assms(3-)
proof (induction d arbitrary: r w)
  case 0
  then show ?case by (simp add: H_def val_def)
next
  case (Suc d)
  have d: "d < big_len a" "d < big_len w"
    using Suc.prems(1,2) by simp_all
  have c: "0 < unat c"
    using assms(2) by (simp add: unat_gt_0)
  have H: "H d = dg a d + rad * H (Suc d)"
    using psum_high [of "dg a" d "big_len a - Suc d"] d by (simp add: H_def Suc_diff_Suc)
  obtain x where x: "big_get a d = (Ok x :: ('e, _) result)" "unat x = dg a d"
    using big_get_Ok [OF d(1)] by metis
  obtain q rr where q: "div_single (ucast r * Base + ucast x) c = (Ok (q, rr) :: ('e, _) result)"
      "unat q = (unat r * rad + dg a d) div unat c" "unat q < rad" "unat rr = (unat r * rad + dg a d) mod unat c"
    using div_single_unat [OF assms(2), of r x] Suc.prems(4) c x(2) by auto
  obtain w' where w': "big_set w d (ucast q) = (Ok w' :: ('e, _) result)" "big_len w' = big_len w" "dg w' = (dg w)(d := unat q)"
    using big_set_Ok [OF d(2), of "ucast q"] q(3) by (auto simp: limb_simps)
  have "val w' = val w + unat q * rad ^ d"
    using big_set_val [OF d(2) w'(2,3)] Suc.prems(3) by simp
  also have "\<dots> = H d div unat c * rad ^ d"
    unfolding Suc.prems(5) q(2) Suc.prems(4) div_digit(1) [OF H c] by (simp add: add_mult_distrib)
  finally have "val w' = H d div unat c * rad ^ d" .
  moreover have "unat rr = H d mod unat c"
    unfolding q(4) Suc.prems(4) div_digit(2) [OF H c] ..
  ultimately show ?case
    using Suc.IH [of w' rr] Suc.prems(1,3) d w' x(1) q(1) by simp
qed

lemma div_unit_ok:
  "\<exists>w. (div_unit a c :: ('e, _) result) = Ok w \<and> val w = val a div max (unat c) 1 \<and> big_len w = max (big_len a) 1"
proof -
  have m: "max c 1 \<noteq> 0" "unat (max c 1) = max (unat c) 1"
    by (auto simp: max_def word_le_nat_alt unat_eq_zero dest: le_antisym)
  show ?thesis
    using div_unit_loop_ok [OF m(1), of a "with_capacity (big_len a)" "big_len a" 0] unfolding m(2)
    by (auto simp: div_unit_def)
qed

section \<open>Conversions\<close>

lemma dg_Cons: "dg (big (d # ds)) i = (if i = length ds then unat d else dg (big ds) i)"
  by (auto simp: dg_def nth_Cons')

lemma val_Nil [simp]: "val (big []) = 0"
  by (simp add: val_def)

lemma val_Cons: "val (big (d # ds)) = unat d * rad ^ length ds + val (big ds)"
proof -
  have "psum (dg (big (d # ds))) (length ds) = psum (dg (big ds)) (length ds)"
    by (rule psum_cong) (simp add: dg_Cons)
  then show ?thesis
    by (simp add: val_def psum_Suc dg_Cons)
qed

lemma val_snoc: "val (big (ds @ [d])) = val (big ds) * rad + unat d"
  by (induction ds) (simp_all add: val_Cons algebra_simps)

lemma val_from_u32 [simp]: "val (from_u32 a) = unat a" "big_len (from_u32 a) = 1"
  by (simp_all add: from_u32_def val_Cons)

lemma split_limbs_unat: "split_limbs a = (h, l) \<Longrightarrow> unat h = unat a div rad \<and> unat l = unat a mod rad"
proof -
  assume "split_limbs a = (h, l)"
  then have *: "h = ucast (drop_bit 32 a)" "l = ucast a"
    by (simp_all add: split_limbs_def SHIFT_def)
  have "unat a < 2 ^ LENGTH(64)"
    by (rule unsigned_less)
  then have "unat a div rad < rad"
    by (simp add: rad_def less_mult_imp_div_less)
  then show ?thesis
    unfolding * unat_ucast_down unat_drop_bit_eq by (simp add: drop_bit_eq_div rad_def)
qed

lemma val_from_u64 [simp]: "val (from_u64 a) = unat a" "big_len (from_u64 a) = 2"
  using split_limbs_unat [of a] by (auto simp: from_u64_def val_Cons split: prod.splits)

lemma split_u128_unat: "split_u128 a = (h, l) \<Longrightarrow> unat a = unat h * (rad * rad) + unat l"
proof -
  assume "split_u128 a = (h, l)"
  then have *: "h = ucast (drop_bit 64 a)" "l = ucast a"
    by (simp_all add: split_u128_def)
  have "unat a < 2 ^ LENGTH(128)"
    by (rule unsigned_less)
  then have "unat a div (rad * rad) < rad * rad"
    by (simp add: rad_def less_mult_imp_div_less)
  then have "unat h = unat a div (rad * rad)" "unat l = unat a mod (rad * rad)"
    unfolding * unsigned_ucast_eq unat_drop_bit_eq by (simp_all add: take_bit_eq_mod drop_bit_eq_div rad_def)
  then show ?thesis
    by (simp only: div_mult_mod_eq)
qed

lemma val_to_big_uint [simp]: "val (to_big_uint x) = unat x"
proof -
  obtain xh xl xhh xhl xlh xll where s: "split_u128 x = (xh, xl)" "split_limbs xh = (xhh, xhl)" "split_limbs xl = (xlh, xll)"
    by fastforce
  have "unat xhh * rad + unat xhl = unat xh" "unat xlh * rad + unat xll = unat xl"
    using split_limbs_unat [OF s(2)] split_limbs_unat [OF s(3)] by simp_all
  then have "unat x = (unat xhh * rad + unat xhl) * (rad * rad) + (unat xlh * rad + unat xll)"
    using split_u128_unat [OF s(1)] by simp
  then show ?thesis
    by (simp add: to_big_uint_def s from_limbs_def val_Cons algebra_simps power3_eq_cube power2_eq_square)
qed

text \<open>Stripped, with between one and four limbs.\<close>

lemma to_big_uint_shape:
  "digits (to_big_uint x) \<noteq> []" "big_len (to_big_uint x) = 1 \<or> digits (to_big_uint x) ! 0 \<noteq> 0"
  using lstrip_msb by (auto simp: to_big_uint_def from_limbs_def split: prod.splits)

lemma rad_power: "rad ^ i = 2 ^ (32 * i)"
  unfolding power_mult by (simp add: rad_def)

lemma push_limb_unat:
  assumes "32 * Suc i \<le> LENGTH('w::len)"
  shows "unat (push_bit (32 * i) (ucast (d :: u32)) :: 'w word) = unat d * rad ^ i"
proof -
  have d: "unat d < 2 ^ 32"
    using unat_u32_less [of d] by simp
  have "unat d * rad ^ i < 2 ^ 32 * 2 ^ (32 * i)"
    using d by (simp add: rad_power)
  also have "\<dots> = 2 ^ (32 * Suc i)"
    by (simp only: power_add mult_Suc_right)
  also have "\<dots> \<le> 2 ^ LENGTH('w)"
    using assms by (intro power_increasing) simp_all
  finally have "unat d * rad ^ i < 2 ^ LENGTH('w)" .
  moreover have "(2::nat) ^ 32 \<le> 2 ^ LENGTH('w)"
    using assms by (intro power_increasing) simp_all
  then have "unat d < 2 ^ LENGTH('w)"
    using d by linarith
  ultimately show ?thesis
    unfolding unsigned_push_bit_eq unsigned_ucast_eq rad_power
    by (simp add: take_bit_nat_eq_self push_bit_eq_mult)
qed

lemma acc_limbs_unat:
  fixes acc :: "'w::len word"
  assumes "32 * (i + length ds) \<le> LENGTH('w)" and "unat acc < rad ^ i"
  shows "unat (acc_limbs i (rev ds) acc) = unat acc + rad ^ i * val (big ds)"
  using assms
proof (induction ds arbitrary: i acc rule: rev_induct)
  case (snoc d ds)
  let ?p = "push_bit (32 * i) (ucast d) :: 'w word"
  have p: "unat ?p = unat d * rad ^ i"
    using snoc.prems(1) by (intro push_limb_unat) simp
  have "unat acc + unat ?p < Suc (unat d) * rad ^ i"
    using snoc.prems(2) p by simp
  also have "\<dots> \<le> rad * rad ^ i"
    using unat_u32_less [of d] by (intro mult_le_mono1) (simp add: rad_def)
  finally have less: "unat acc + unat ?p < rad ^ Suc i"
    by simp
  also have "\<dots> \<le> 2 ^ LENGTH('w)"
    unfolding rad_power using snoc.prems(1) by (intro power_increasing) simp_all
  finally have "unat (acc + ?p) = unat acc + unat d * rad ^ i"
    unfolding p [symmetric] by (rule unat_add_nowrap)
  moreover have "unat (acc_limbs (Suc i) (rev ds) (acc + ?p)) = unat (acc + ?p) + rad ^ Suc i * val (big ds)"
    using snoc.IH [of "Suc i" "acc + ?p"] snoc.prems(1) less calculation p by simp
  ultimately show ?case
    by (simp add: SHIFT_def val_snoc algebra_simps)
qed simp

lemma lstrip_empty: "digits x = [] \<Longrightarrow> lstrip x = x"
  by (simp add: lstrip_def big_len_def)

lemma fit_limbs: "1 \<le> k \<Longrightarrow> k < big_len (lstrip x) \<longleftrightarrow> \<not> val x < rad ^ k"
proof (cases "digits x = []")
  case True
  then show ?thesis
    using val_less [of x] by (simp add: lstrip_empty big_len_def)
next
  case False
  assume "1 \<le> k"
  then show ?thesis
    using big_len_lstrip [OF False, of k] big_len_ge [of k "lstrip x"] by auto
qed

lemma try_from_number_ok:
  assumes "LENGTH('w::len) = 32 * k" and "1 \<le> k"
  shows "if val x < 2 ^ LENGTH('w) then \<exists>r. try_from_number ty x = Ok (r :: 'w word) \<and> unat r = val x
    else try_from_number ty x = (Err (''cannot fit a number into '' @ ty) :: (string, 'w word) result)"
proof -
  have "big_len (lstrip x) * SHIFT > LENGTH('w) \<longleftrightarrow> k < big_len (lstrip x)"
    unfolding assms(1) SHIFT_def by linarith
  then have fit: "big_len (lstrip x) * SHIFT > LENGTH('w) \<longleftrightarrow> \<not> val x < 2 ^ LENGTH('w)"
    using fit_limbs [OF assms(2), of x] assms(1) by (simp add: rad_power)
  show ?thesis
  proof (cases "val x < 2 ^ LENGTH('w)")
    case True
    then have "32 * (0 + length (digits (lstrip x))) \<le> LENGTH('w)"
      using fit by (simp add: big_len_def SHIFT_def)
    from acc_limbs_unat [OF this, of 0] have "unat (acc_limbs 0 (rev (digits (lstrip x))) (0 :: 'w word)) = val x"
      by simp
    then show ?thesis
      using True fit by (simp add: try_from_number_def Let_def)
  qed (simp add: try_from_number_def Let_def fit)
qed

section \<open>Order\<close>

lemma val_big_less: "val (big ds) < rad ^ length ds"
  using val_less [of "big ds"] by simp

lemma cmp_lex: "x < R \<Longrightarrow> y < R \<Longrightarrow> cmp (a * R + x) (b * R + y) = (case cmp a b of Equal \<Rightarrow> cmp x y | r \<Rightarrow> r)"
  for R :: nat
proof -
  assume l: "x < R" "y < R"
  have *: "a * R + x < b * R + y" if "a < b" "x < R" for a b x y
  proof -
    have "a * R + x < Suc a * R"
      using that by simp
    also have "\<dots> \<le> b * R"
      using that by (intro mult_le_mono1) simp
    finally show ?thesis by simp
  qed
  show ?thesis
    using * [of a b x y] * [of b a y x] l by (auto simp: cmp_def)
qed

lemma cmp_unat: "cmp (unat x) (unat y) = cmp x y"
  by (simp add: cmp_def word_less_nat_alt word_eq_iff_unsigned [where ?'a = nat])

lemma cmp_slice_val: "length xs = length ys \<Longrightarrow> cmp_slice xs ys = cmp (val (big xs)) (val (big ys))"
proof (induction xs ys rule: list_induct2)
  case (Cons x xs y ys)
  then show ?case
    using cmp_lex [of "val (big xs)" "rad ^ length xs" "val (big ys)" "unat x" "unat y"]
    by (simp add: val_Cons val_big_less cmp_unat) (metis Cons.hyps val_big_less)
qed (simp add: cmp_def)

lemma val_dropWhile: "val (big (dropWhile (\<lambda>d. d = 0) ds)) = val (big ds)"
  by (induction ds) (simp_all add: val_Cons)

lemma val_big_ge: "ds \<noteq> [] \<Longrightarrow> hd ds \<noteq> 0 \<Longrightarrow> rad ^ (length ds - 1) \<le> val (big ds)"
  using val_msb [of "big ds"] by (simp add: hd_conv_nth)

lemma cmp_length:
  assumes "xs \<noteq> []" "hd xs \<noteq> 0" and "length ys < length xs"
  shows "val (big ys) < val (big xs)"
  using val_big_less [of ys] rad_mono [of "length ys" "length xs - 1"] val_big_ge [OF assms(1,2)] assms(3) by linarith

lemma big_cmp_val: "big_cmp a b = cmp (val a) (val b)"
proof -
  let ?l = "dropWhile (\<lambda>d. d = 0) (digits a)" and ?r = "dropWhile (\<lambda>d. d = 0) (digits b)"
  have v: "val a = val (big ?l)" "val b = val (big ?r)"
    using val_dropWhile [of "digits a"] val_dropWhile [of "digits b"] by simp_all
  have h: "?l \<noteq> [] \<Longrightarrow> hd ?l \<noteq> 0" "?r \<noteq> [] \<Longrightarrow> hd ?r \<noteq> 0"
    using hd_dropWhile [of "\<lambda>d. d = 0"] by blast+
  consider "length ?l < length ?r" | "length ?r < length ?l" | "length ?l = length ?r"
    by linarith
  then show ?thesis
  proof cases
    case 1
    then have "?r \<noteq> []"
      by (cases ?r) simp_all
    with 1 have "val a < val b"
      unfolding v using cmp_length [of ?r ?l] h(2) by blast
    then show ?thesis
      using 1 \<open>?r \<noteq> []\<close> by (auto simp: big_cmp_def Let_def cmp_def simp del: dropWhile_eq_Nil_conv)
  next
    case 2
    then have "?l \<noteq> []"
      by (cases ?l) simp_all
    with 2 have "val b < val a"
      unfolding v using cmp_length [of ?l ?r] h(1) by blast
    then show ?thesis
      using 2 \<open>?l \<noteq> []\<close> by (auto simp: big_cmp_def Let_def cmp_def simp del: dropWhile_eq_Nil_conv)
  next
    case 3
    show ?thesis
    proof (cases "?l = []")
      case True
      then have "?r = []"
        using 3 by (metis length_0_conv)
      with True show ?thesis
        unfolding v by (simp add: big_cmp_def Let_def cmp_def del: dropWhile_eq_Nil_conv)
    next
      case False
      then have "?r \<noteq> []"
        using 3 by (metis length_0_conv)
      with False show ?thesis
        unfolding v using 3 cmp_slice_val [OF 3]
        by (simp add: big_cmp_def Let_def cmp_def [of "length _"] del: dropWhile_eq_Nil_conv)
    qed
  qed
qed

section \<open>The binary greatest common divisor\<close>

lemma and_one_parity: "(a :: u128) AND 1 = 0 \<longleftrightarrow> even (unat a)" "(a :: u128) AND 1 = 1 \<longleftrightarrow> odd (unat a)"
  by (simp_all add: and_one_eq odd_iff_mod_2_eq_one even_iff_mod_2_eq_zero word_eq_iff_unsigned [where ?'a = nat] unat_mod)

lemma gcd_halve: "even x \<Longrightarrow> odd y \<Longrightarrow> gcd (x div 2) y = gcd x (y :: nat)"
proof -
  assume "even x" "odd y"
  then have "coprime 2 y"
    by (simp add: coprime_left_2_iff_odd)
  then have "gcd (2 * (x div 2)) y = gcd (x div 2) y"
    by (simp add: gcd_mult_left_left_cancel coprime_commute)
  then show ?thesis
    using \<open>even x\<close> by simp
qed

lemma gcd_halve_difference: "odd x \<Longrightarrow> odd y \<Longrightarrow> x \<le> y \<Longrightarrow> gcd ((y - x) div 2) x = gcd x (y :: nat)"
proof -
  assume "odd x" "odd y" "x \<le> y"
  then have "gcd ((y - x) div 2) x = gcd (y - x) x"
    by (intro gcd_halve) simp_all
  also have "\<dots> = gcd x y"
    using \<open>x \<le> y\<close> by (metis gcd.commute gcd_diff1_nat)
  finally show ?thesis .
qed

lemma gcd_double_less:
  fixes g :: u128
  assumes "unat g = gcd (unat a div 2) (unat b div 2)" and "even (unat (a :: u128))" and "a \<noteq> 0"
  shows "unat (push_bit 1 g) = 2 * unat g"
proof -
  have "unat g \<le> unat a div 2"
  proof -
    have "unat a div 2 \<noteq> 0"
      using assms(2,3) unat_gt_0 [of a] by (auto elim: evenE)
    then show ?thesis
      unfolding assms(1) by (rule gcd_le1_nat)
  qed
  then have "2 * unat g \<le> unat a"
    by simp
  also have "\<dots> < 2 ^ LENGTH(128)"
    by (rule unsigned_less)
  finally show ?thesis
    unfolding unsigned_push_bit_eq by (simp add: take_bit_nat_eq_self)
qed

lemma gcd_u128_unat: "unat (gcd_u128 a b) = gcd (unat a) (unat b)"
proof (induction a b rule: gcd_u128.induct)
  case (1 a b)
  consider "a = b \<or> a = 0 \<or> b = 0" | "a \<noteq> b" "a \<noteq> 0" "b \<noteq> 0" "even (unat a)" "odd (unat b)"
    | "a \<noteq> b" "a \<noteq> 0" "b \<noteq> 0" "odd (unat a)" "even (unat b)" | "a \<noteq> b" "a \<noteq> 0" "b \<noteq> 0" "even (unat a)" "even (unat b)"
    | "a \<noteq> b" "a \<noteq> 0" "b \<noteq> 0" "odd (unat a)" "odd (unat b)"
    by blast
  then show ?case
  proof cases
    case 1
    then have "gcd_u128 a b = (if a = 0 then b else a)"
      by (auto simp: gcd_u128.simps [of a b] gcd_u128.simps [of b b])
    with 1 show ?thesis
      by auto
  next
    case 2
    then show ?thesis
      using 1(1) by (simp add: gcd_u128.simps [of a b] and_one_parity unat_half gcd_halve)
  next
    case 3
    then show ?thesis
      using 1(2) gcd_halve [of "unat b" "unat a"]
      by (simp add: gcd_u128.simps [of a b] and_one_parity unat_half gcd.commute)
  next
    case 4
    then have g: "unat (gcd_u128 (drop_bit 1 a) (drop_bit 1 b)) = gcd (unat a div 2) (unat b div 2)"
      using 1(3) by (simp add: and_one_parity unat_half)
    have "2 * gcd (unat a div 2) (unat b div 2) = gcd (unat a) (unat b)"
      using 4 gcd_mult_distrib_nat [of 2 "unat a div 2" "unat b div 2"] by simp
    then show ?thesis
      using 4 gcd_double_less [OF g] g by (simp add: gcd_u128.simps [of a b] and_one_parity)
  next
    case 5
    then have "unat (gcd_u128 a b) = gcd (unat (drop_bit (Suc 0) (max a b - min a b))) (unat (min a b))"
      using 1(4) by (simp add: gcd_u128.simps [of a b] and_one_parity Let_def)
    also have "\<dots> = gcd (unat a) (unat b)"
      using 5 gcd_halve_difference [of "unat a" "unat b"] gcd_halve_difference [of "unat b" "unat a"]
      by (auto simp: max_def min_def unat_half unat_sub_nowrap word_le_nat_alt gcd.commute)
    finally show ?thesis .
  qed
qed

end
