(* ===== verification/BigUintDivision.thy ===== *)
theory BigUintDivision
  imports BigUintConversions
begin

text \<open>
  Long division. The estimate of a quotient limb is between the true limb and one more, because the divisor is
  normalised: this bounds the 64-bit products of the test, and makes one add-back enough. The main loop keeps
  \<open>dividend = quotient so far * divisor + what is left\<close>, and undoing the normalisation divides what is left by the
  power of two the operands were multiplied with.
\<close>

unbundle bit_operations_syntax

section \<open>The estimate of one limb\<close>

text \<open>
  \<open>W\<close> is the part of the dividend a quotient limb is for and \<open>V\<close> the divisor; \<open>u0 u1 u2\<close> and \<open>v1 v2\<close> are their leading
  limbs, \<open>P\<close> the weight of the last of them.
\<close>

definition leading :: "nat \<Rightarrow> nat \<Rightarrow> nat \<Rightarrow> nat \<Rightarrow> nat \<Rightarrow> nat \<Rightarrow> nat \<Rightarrow> nat \<Rightarrow> bool" where
  "leading W V P u0 u1 u2 v1 v2 \<longleftrightarrow>
     ((u0 * rad + u1) * rad + u2) * P \<le> W \<and> W < ((u0 * rad + u1) * rad + u2 + 1) * P \<and>
     (v1 * rad + v2) * P \<le> V \<and> V < (v1 * rad + v2 + 1) * P \<and>
     u1 < rad \<and> u2 < rad \<and> v1 < rad \<and> v2 < rad \<and> rad \<le> 2 * v1 \<and> W < V * rad"

lemma leading_pos:
  assumes "leading W V P u0 u1 u2 v1 v2"
  shows "0 < v1" "0 < P" "0 < V" "rad * P \<le> V"
proof -
  note L = assms [unfolded leading_def]
  show v1: "0 < v1"
    using L rad_pos(1) by linarith
  show P: "0 < P"
    using L by (cases P) simp_all
  have "1 * (rad * P) \<le> v1 * (rad * P)"
    using v1 by (intro mult_le_mono1) simp
  also have "\<dots> \<le> V"
    using L by (simp add: algebra_simps)
  finally show le: "rad * P \<le> V"
    by simp
  show "0 < V"
    using le P by (metis gr0I mult_is_0 le_zero_eq rad_pos(2))
qed

lemma leading_q_less: "leading W V P u0 u1 u2 v1 v2 \<Longrightarrow> W div V < rad"
  by (simp add: leading_def less_mult_imp_div_less mult.commute)

lemma round_up: "W < (a * rad + b + 1) * P \<Longrightarrow> b < rad \<Longrightarrow> W < (a + 1) * (rad * P)" for W :: nat
proof -
  assume "W < (a * rad + b + 1) * P" "b < rad"
  note this(1)
  also have "(a * rad + b + 1) * P \<le> ((a + 1) * rad) * P"
    using \<open>b < rad\<close> by (intro mult_le_mono1) simp
  finally show ?thesis
    by (simp only: mult.assoc)
qed

lemma mult_less_mono_cancel: "a * k < b * k \<Longrightarrow> a < b" for a b k :: nat
  by simp

lemma leading_top:
  assumes "leading W V P u0 u1 u2 v1 v2"
  shows "u0 * rad + u1 < (v1 + 1) * rad"
proof -
  note L = assms [unfolded leading_def]
  have "(u0 * rad + u1) * (rad * P) \<le> W"
    using L by (simp add: algebra_simps)
  also have "W < V * rad"
    using L by simp
  also have "V * rad \<le> ((v1 + 1) * (rad * P)) * rad"
    using round_up [of V v1 v2 P] L by (intro mult_le_mono1) simp
  also have "\<dots> = ((v1 + 1) * rad) * (rad * P)"
    by (simp only: ac_simps)
  finally show ?thesis
    by simp
qed

lemma leading_start:
  assumes "leading W V P u0 u1 u2 v1 v2"
  shows "(u0 * rad + u1) div v1 \<le> rad + 1" and "W div V \<le> (u0 * rad + u1) div v1"
proof -
  note L = assms [unfolded leading_def]
  have "u0 * rad + u1 < (rad + 2) * v1"
    using leading_top [OF assms] L by (simp add: algebra_simps)
  then have "(u0 * rad + u1) div v1 < rad + 2"
    by (rule less_mult_imp_div_less)
  then show "(u0 * rad + u1) div v1 \<le> rad + 1"
    by simp
  let ?q = "W div V"
  have "?q * v1 * (rad * P) \<le> ?q * ((v1 * rad + v2) * P)"
    by (simp add: algebra_simps)
  also have "\<dots> \<le> ?q * V"
    using L by (intro mult_le_mono2) simp
  also have "\<dots> \<le> W"
    by simp
  also have "W < (u0 * rad + u1 + 1) * (rad * P)"
    using L by (intro round_up [of W _ u2]) simp_all
  finally have "?q * v1 < u0 * rad + u1 + 1"
    by (rule mult_less_mono_cancel)
  then show "W div V \<le> (u0 * rad + u1) div v1"
    using leading_pos [OF assms] by (simp add: less_eq_div_iff_mult_less_eq)
qed

text \<open>Lowering keeps the estimate above the limb.\<close>

lemma leading_lower:
  assumes "leading W V P u0 u1 u2 v1 v2"
    and "Q * v1 + R = u0 * rad + u1" and "rad \<le> Q \<or> R * rad + u2 < Q * v2"
  shows "W div V \<le> Q - 1"
proof (cases "rad \<le> Q")
  case True
  then show ?thesis
    using leading_q_less [OF assms(1)] by linarith
next
  case False
  note L = assms(1) [unfolded leading_def]
  have "(Q * v1 + R) * rad + u2 < Q * (v1 * rad + v2)"
    using assms(3) False by (simp add: algebra_simps)
  then have "((u0 * rad + u1) * rad + u2 + 1) * P \<le> Q * (v1 * rad + v2) * P"
    unfolding assms(2) by (intro mult_le_mono1) simp
  also have "\<dots> \<le> Q * V"
    unfolding mult.assoc using L by (intro mult_le_mono2) (simp add: mult.assoc)
  finally have "W < Q * V"
    using L by linarith
  then have "W div V < Q"
    by (rule less_mult_imp_div_less)
  then show ?thesis
    by simp
qed

text \<open>When the refinement stops, the estimate is a limb, at most one too big.\<close>

lemma leading_stop:
  assumes "leading W V P u0 u1 u2 v1 v2"
    and "Q * v1 + R = u0 * rad + u1" and "rad \<le> R \<or> Q < rad \<and> Q * v2 \<le> R * rad + u2"
  shows "Q < rad" and "Q \<le> W div V + 1"
proof -
  note L = assms(1) [unfolded leading_def]
  show less: "Q < rad"
  proof (rule ccontr)
    assume n: "\<not> Q < rad"
    then have "Q * v1 + rad < (v1 + 1) * rad"
      using assms(2,3) leading_top [OF assms(1)] by linarith
    then have "Q * v1 < rad * v1"
      by simp
    with n show False
      by simp
  qed
  have "Q * v2 \<le> R * rad + u2"
    using assms(3)
  proof
    assume "rad \<le> R"
    have "Q * v2 \<le> rad * rad"
      using less L by (intro mult_le_mono) simp_all
    also have "\<dots> \<le> R * rad"
      using \<open>rad \<le> R\<close> by simp
    finally show ?thesis by simp
  qed simp
  then have "Q * (v1 * rad + v2) \<le> (u0 * rad + u1) * rad + u2"
    unfolding assms(2) [symmetric] by (simp add: algebra_simps)
  then have "Q * (v1 * rad + v2) * P \<le> ((u0 * rad + u1) * rad + u2) * P"
    by (rule mult_le_mono1)
  then have le: "Q * (v1 * rad + v2) * P \<le> W"
    using L by linarith
  have "Q * V \<le> Q * ((v1 * rad + v2) * P + P)"
    using L by (intro mult_le_mono2) simp
  also have "\<dots> = Q * (v1 * rad + v2) * P + Q * P"
    by (simp add: algebra_simps)
  also have "\<dots> \<le> W + V"
    using le leading_pos(4) [OF assms(1)] mult_le_mono1 [of Q rad P] less by linarith
  finally have "(Q - 1) * V \<le> W"
    by (simp add: diff_mult_distrib)
  then have "Q - 1 \<le> W div V"
    using leading_pos(3) [OF assms(1)] by (simp add: less_eq_div_iff_mult_less_eq)
  then show "Q \<le> W div V + 1"
    by simp
qed

section \<open>The estimate in the code\<close>

text \<open>The window of a number: its \<open>n + 1\<close> limbs from weight \<open>j\<close>.\<close>

definition win :: "BigUint \<Rightarrow> nat \<Rightarrow> nat \<Rightarrow> nat" where
  "win u j n = psum (\<lambda>i. dg u (j + i)) (Suc n)"

text \<open>A divisor of \<open>n \<ge> 2\<close> limbs whose leading bit is set.\<close>

definition normal :: "BigUint \<Rightarrow> nat \<Rightarrow> bool" where
  "normal v n \<longleftrightarrow> 2 \<le> n \<and> big_len v = n \<and> rad \<le> 2 * dg v (n - 1)"

lemma psum_top2: "psum f (Suc (Suc k)) = (f (Suc k) * rad + f k) * rad ^ k + psum f k"
  by (simp add: psum_Suc algebra_simps)

lemma psum_top3: "psum f (Suc (Suc (Suc k))) = ((f (Suc (Suc k)) * rad + f (Suc k)) * rad + f k) * rad ^ k + psum f k"
  by (simp add: psum_Suc algebra_simps)

lemma leading_win:
  assumes "normal v n" and "win u j n < val v * rad"
  shows "leading (win u j n) (val v) (rad ^ (n - 2)) (dg u (j + n)) (dg u (j + n - 1)) (dg u (j + n - 2))
    (dg v (n - 1)) (dg v (n - 2))"
proof -
  obtain k where k: "n = Suc (Suc k)"
    using assms(1) by (metis normal_def add_2_eq_Suc le_Suc_ex)
  have low: "psum (\<lambda>i. dg u (j + i)) k < rad ^ k" "psum (dg v) k < rad ^ k"
    by (simp_all add: psum_less)
  have W: "win u j n = ((dg u (j + n) * rad + dg u (j + n - 1)) * rad + dg u (j + n - 2)) * rad ^ (n - 2) + psum (\<lambda>i. dg u (j + i)) k"
    by (simp add: win_def k psum_top3)
  have "val v = psum (dg v) (Suc (Suc k))"
    using assms(1) k by (simp add: val_def normal_def)
  then have V: "val v = (dg v (n - 1) * rad + dg v (n - 2)) * rad ^ (n - 2) + psum (dg v) k"
    by (simp add: k psum_top2)
  show ?thesis
    unfolding leading_def using assms low W V k by (simp add: normal_def)
qed

lemma qhat_test_ok:
  assumes "n - 2 < big_len v" "n - 1 < big_len v" "j + n - 2 < big_len u" and "unat Q \<le> rad + 1" and "unat R < rad"
  shows "\<exists>t Q' R'. (qhat_test v u n j Q R :: ('e, _) result) = Ok (t, Q', R') \<and>
    (t \<longleftrightarrow> rad \<le> unat Q \<or> unat R * rad + dg u (j + n - 2) < unat Q * dg v (n - 2)) \<and>
    unat Q' = (if t then unat Q - 1 else unat Q) \<and> unat R' = (if t then unat R + dg v (n - 1) else unat R)"
proof -
  obtain v2 v1 u2 where g: "big_get v (n - 2) = (Ok v2 :: ('e, _) result)" "unat v2 = dg v (n - 2)"
      "big_get v (n - 1) = (Ok v1 :: ('e, _) result)" "unat v1 = dg v (n - 1)"
      "big_get u (j + n - 2) = (Ok u2 :: ('e, _) result)" "unat u2 = dg u (j + n - 2)"
    using big_get_Ok [OF assms(1)] big_get_Ok [OF assms(2)] big_get_Ok [OF assms(3)] by metis
  have "unat Q * unat v2 \<le> (rad + 1) * (rad - 1)"
    using assms(4) unat_u32_less [of v2] by (intro mult_le_mono) (simp_all add: rad_def)
  also have "\<dots> < 2 ^ 64"
    by (simp add: rad_def)
  finally have m: "unat (Q * ucast v2) = unat Q * dg v (n - 2)"
    using g(2) by (simp add: word_nat limb_simps)
  have "rad * unat R + unat u2 < rad * Suc (unat R)"
    using unat_u32_less [of u2] by (simp add: rad_def)
  also have "\<dots> \<le> rad * rad"
    using assms(5) by (intro mult_le_mono2) simp
  finally have "rad * unat R + unat u2 < 2 ^ 64"
    unfolding rad_square .
  then have p: "unat (Base * R + ucast u2) = unat R * rad + dg u (j + n - 2)"
    using g(6) by (simp add: word_nat limb_simps mult.commute)
  have a: "unat (R + ucast v1) = unat R + dg v (n - 1)"
    using assms(5) unat_u32_less [of v1] g(4) by (simp add: word_nat limb_simps rad_def)
  have s: "unat (Q - 1) = unat Q - 1" if "0 < unat Q"
    using that by (simp add: word_nat)
  let ?c = "rad \<le> unat Q \<or> unat R * rad + dg u (j + n - 2) < unat Q * dg v (n - 2)"
  have c: "Base \<le> Q \<or> Base * R + ucast u2 < Q * ucast v2 \<longleftrightarrow> ?c"
    by (simp add: word_le_nat_alt word_less_nat_alt m p unat_Base)
  show ?thesis
  proof (cases ?c)
    case True
    then have "0 < unat Q"
      by (cases "unat Q") simp_all
    then show ?thesis
      using g a s c True
      by (intro exI [of _ True] exI [of _ "Q - 1"] exI [of _ "R + ucast v1"]) (simp add: qhat_test_def Let_def)
  next
    case False
    then show ?thesis
      using g c by (intro exI [of _ False] exI [of _ Q] exI [of _ R]) (simp add: qhat_test_def Let_def)
  qed
qed

lemma qhat_loop_ok:
  assumes "leading W V P u0 u1 (dg u (j + n - 2)) (dg v (n - 1)) (dg v (n - 2))"
    and "2 \<le> n" "n \<le> big_len v" "j + n \<le> big_len u"
    and "unat Q \<le> rad + 1" and "unat R < 2 * rad" and "unat Q * dg v (n - 1) + unat R = u0 * rad + u1" and "W div V \<le> unat Q"
  shows "\<exists>Q' R'. (qhat_loop v u n j Q R :: ('e, _) result) = Ok (Q', R') \<and> unat Q' < rad \<and>
    W div V \<le> unat Q' \<and> unat Q' \<le> W div V + 1"
proof -
  have lens: "n - 2 < big_len v" "n - 1 < big_len v" "j + n - 2 < big_len u"
    using assms(2-4) by simp_all
  show ?thesis
    using assms(5-)
  proof (induction "unat Q" arbitrary: Q R rule: less_induct)
    case less
    show ?case
    proof (cases "unat R < rad")
      case False
      then have "\<not> R < Base"
        by (simp add: word_less_nat_alt unat_Base)
      then show ?thesis
        using leading_stop [OF assms(1) less.prems(3)] less.prems(4) False by (subst qhat_loop.simps) simp
    next
      case True
      then have b: "R < Base"
        by (simp add: word_less_nat_alt unat_Base)
      obtain t Q' R' where t: "qhat_test v u n j Q R = (Ok (t, Q', R') :: ('e, _) result)"
          "t \<longleftrightarrow> rad \<le> unat Q \<or> unat R * rad + dg u (j + n - 2) < unat Q * dg v (n - 2)"
          "unat Q' = (if t then unat Q - 1 else unat Q)" "unat R' = (if t then unat R + dg v (n - 1) else unat R)"
        using qhat_test_ok [OF lens less.prems(1) True] by blast
      show ?thesis
      proof (cases t)
        case False
        then show ?thesis
          using leading_stop [OF assms(1) less.prems(3)] less.prems(4) t b by (subst qhat_loop.simps) simp
      next
        case lowered: True
        have "unat Q' < unat Q"
          using qhat_test_decreases [of v u n j Q R Q' R'] t(1) lowered by simp
        moreover have "unat Q' * dg v (n - 1) + unat R' = u0 * rad + u1"
          using less.prems(3) t(3,4) lowered \<open>unat Q' < unat Q\<close> by (cases "unat Q") simp_all
        moreover have "W div V \<le> unat Q'"
          using leading_lower [OF assms(1) less.prems(3)] t lowered by simp
        moreover have "unat R' < 2 * rad"
          using add_strict_mono [OF True dg_less [of v "n - 1"]] t(4) lowered by (simp add: mult_2)
        ultimately show ?thesis
          using less.hyps [of Q' R'] less.prems(1) t(1) lowered b by (subst qhat_loop.simps) simp
      qed
    qed
  qed
qed

lemma div_single_ok:
  assumes "c \<noteq> 0"
  shows "\<exists>q r. div_single (ucast (u0 :: u32) * Base + ucast (u1 :: u32)) c = (Ok (q, r) :: ('e, _) result) \<and>
    unat q = (unat u0 * rad + unat u1) div unat c \<and> unat r = (unat u0 * rad + unat u1) mod unat c"
proof -
  have "unat u0 * rad + unat u1 < 2 ^ 64"
    using unat_u32_less [of u0] unat_u32_less [of u1] by (simp add: rad_def)
  then have s: "unat (ucast u0 * Base + ucast u1) = unat u0 * rad + unat u1"
    by (simp add: word_nat limb_simps)
  have "0 < unat c" "unat c < rad"
    using assms unat_u32_less [of c] by (simp_all add: unat_gt_0 rad_def)
  then have "(unat u0 * rad + unat u1) mod unat c < rad"
    using mod_less_divisor less_trans by blast
  then show ?thesis
    using assms by (simp add: div_single_def unat_div_distrib unat_mod_distrib s limb_simps)
qed

lemma estimate_ok:
  assumes "normal v n" and "win u j n < val v * rad" and "j + n < big_len u"
  shows "\<exists>Q. (estimate v u n j :: ('e, _) result) = Ok Q \<and> unat Q < rad \<and>
    win u j n div val v \<le> unat Q \<and> unat Q \<le> win u j n div val v + 1"
proof -
  note L = leading_win [OF assms(1,2)]
  have n: "2 \<le> n" "n \<le> big_len v" "n - 1 < big_len v" "j + n - 1 < big_len u" "j + n \<le> big_len u"
    using assms(1,3) by (simp_all add: normal_def)
  obtain u0 u1 v1 where g: "big_get u (j + n) = (Ok u0 :: ('e, _) result)" "unat u0 = dg u (j + n)"
      "big_get u (j + n - 1) = (Ok u1 :: ('e, _) result)" "unat u1 = dg u (j + n - 1)"
      "big_get v (n - 1) = (Ok v1 :: ('e, _) result)" "unat v1 = dg v (n - 1)"
    using big_get_Ok [OF assms(3)] big_get_Ok [OF n(4)] big_get_Ok [OF n(3)] by metis
  let ?U = "dg u (j + n) * rad + dg u (j + n - 1)"
  have "v1 \<noteq> 0"
    using leading_pos(1) [OF L] g(6) by (metis less_irrefl unat_0)
  then obtain Q R where d: "div_single (ucast u0 * Base + ucast u1) v1 = (Ok (Q, R) :: ('e, _) result)"
      "unat Q = ?U div dg v (n - 1)" "unat R = ?U mod dg v (n - 1)"
    using div_single_ok [of v1 u0 u1] g by fastforce
  have QR: "unat Q * dg v (n - 1) + unat (ucast R :: u64) = ?U" "unat Q \<le> rad + 1" "win u j n div val v \<le> unat Q"
    unfolding unat_ucast_up d(2,3) using leading_start [OF L] by (simp_all only: div_mult_mod_eq)
  have R: "unat (ucast R :: u64) < rad"
    using unat_u32_less [of R] by (simp add: unat_ucast_up rad_def)
  obtain t Q' R' where t: "qhat_test v u n j Q (ucast R) = (Ok (t, Q', R') :: ('e, _) result)"
      "t \<longleftrightarrow> rad \<le> unat Q \<or> unat (ucast R :: u64) * rad + dg u (j + n - 2) < unat Q * dg v (n - 2)"
      "unat Q' = (if t then unat Q - 1 else unat Q)" "unat R' = (if t then unat (ucast R :: u64) + dg v (n - 1) else unat (ucast R :: u64))"
    using qhat_test_ok [OF _ n(3) _ QR(2) R, of j u] n by fastforce
  have "t \<Longrightarrow> 0 < unat Q"
    using qhat_test_decreases t(1) by fastforce
  then have "unat Q' * dg v (n - 1) + unat R' = ?U"
    using QR(1) t(3,4) by (cases "unat Q") auto
  moreover have "win u j n div val v \<le> unat Q'"
    using leading_lower [OF L QR(1)] t(2,3) QR(3) by simp
  moreover have "unat Q' \<le> rad + 1"
    using QR(2) t(3) by (cases t) simp_all
  moreover have "unat R' < 2 * rad"
    using R t(4) add_strict_mono [OF R dg_less [of v "n - 1"]] by (cases t) (simp_all add: mult_2)
  ultimately show ?thesis
    using qhat_loop_ok [where ?'e = 'e, OF L n(1,2,5), of Q' R'] g d(1) t(1) by (auto simp: estimate_def)
qed

section \<open>One limb of the quotient\<close>

lemma get_limbs_ok:
  "j + l \<le> big_len x \<Longrightarrow> \<exists>ds. (get_limbs x (rev [j..<j + l]) :: ('e, _) result) = Ok ds \<and> length ds = l \<and>
     (\<forall>i<l. dg (big ds) i = dg x (j + i))"
proof (induction l)
  case (Suc l)
  then obtain ds where ds: "(get_limbs x (rev [j..<j + l]) :: ('e, _) result) = Ok ds" "length ds = l"
      "\<forall>i<l. dg (big ds) i = dg x (j + i)"
    by auto
  obtain d where d: "(big_get x (j + l) :: ('e, _) result) = Ok d" "unat d = dg x (j + l)"
    using big_get_Ok [of "j + l" x] Suc.prems by auto
  show ?case
    using ds d by (intro exI [of _ "d # ds"]) (auto simp: dg_Cons less_Suc_eq)
qed simp

lemma get_limbs_win:
  assumes "j + n < big_len x"
  shows "\<exists>ds. (get_limbs x (rev [j..<Suc (j + n)]) :: ('e, _) result) = Ok ds \<and> length ds = Suc n \<and> val (big ds) = win x j n"
proof -
  obtain ds where ds: "(get_limbs x (rev [j..<j + Suc n]) :: ('e, _) result) = Ok ds" "length ds = Suc n"
      "\<forall>i<Suc n. dg (big ds) i = dg x (j + i)"
    using get_limbs_ok [of j "Suc n" x] assms by auto
  moreover have "val (big ds) = win x j n"
    using ds(2,3) unfolding val_def win_def by (auto intro: psum_cong)
  ultimately show ?thesis
    by (metis add_Suc_right)
qed

lemma copy_limbs_ok:
  assumes "\<And>d. d \<in> set ds \<Longrightarrow> d < big_len x \<and> d - j < big_len src"
  shows "\<exists>y. (copy_limbs src j ds x :: ('e, _) result) = Ok y \<and> big_len y = big_len x \<and>
    dg y = (\<lambda>d. if d \<in> set ds then dg src (d - j) else dg x d)"
  using assms
proof (induction ds arbitrary: x)
  case (Cons d ds)
  have l: "d < big_len x" "d - j < big_len src"
    using Cons.prems by simp_all
  obtain v where v: "(big_get src (d - j) :: ('e, _) result) = Ok v" "unat v = dg src (d - j)"
    using big_get_Ok [OF l(2)] by metis
  obtain y where y: "(big_set x d v :: ('e, _) result) = Ok y" "big_len y = big_len x" "dg y = (dg x)(d := unat v)"
    using big_set_Ok [OF l(1)] by metis
  obtain z where "(copy_limbs src j ds y :: ('e, _) result) = Ok z" "big_len z = big_len y"
      "dg z = (\<lambda>d. if d \<in> set ds then dg src (d - j) else dg y d)"
    using Cons.IH [of y] Cons.prems y(2) by auto
  then show ?case
    using v y by (auto simp: fun_eq_iff)
qed simp

lemma val_mod: "val x mod rad ^ k = psum (dg x) k"
proof -
  have "val x = psum (dg x) k + rad ^ k * psum (\<lambda>i. dg x (k + i)) (big_len x)"
    using psum_split [of "dg x" k "big_len x"] val_psum [of x "k + big_len x"] by simp
  then show ?thesis
    using psum_less [of k "dg x"] by simp
qed

text \<open>Writing a number over a window.\<close>

lemma copy_win:
  assumes "j + n < big_len x" and "n < big_len src" and "set ds = {j..<Suc (j + n)}"
  shows "\<exists>y. (copy_limbs src j ds x :: ('e, _) result) = Ok y \<and> big_len y = big_len x \<and>
    (\<forall>d. d < j \<or> j + n < d \<longrightarrow> dg y d = dg x d) \<and> win y j n = val src mod rad ^ Suc n"
proof -
  obtain y where y: "(copy_limbs src j ds x :: ('e, _) result) = Ok y" "big_len y = big_len x"
      "dg y = (\<lambda>d. if d \<in> set ds then dg src (d - j) else dg x d)"
    using copy_limbs_ok [of ds x j src] assms by fastforce
  have "win y j n = val src mod rad ^ Suc n"
    unfolding win_def val_mod by (rule psum_cong) (simp add: y(3) assms(3))
  then show ?thesis
    using y assms(3) by auto
qed

lemma div_mod_exact: "Q * V \<le> W \<Longrightarrow> W div V \<le> Q \<Longrightarrow> 0 < V \<Longrightarrow> Q = W div V \<and> W - Q * V = W mod V" for Q :: nat
proof -
  assume "Q * V \<le> W" "W div V \<le> Q" "0 < V"
  then have "Q \<le> W div V"
    by (simp add: less_eq_div_iff_mult_less_eq)
  then show ?thesis
    using \<open>W div V \<le> Q\<close> by (simp add: minus_div_mult_eq_mod)
qed

text \<open>A negative difference, taken modulo the window, becomes the remainder when the divisor is added back.\<close>

lemma add_back:
  fixes W Q V M N :: nat
  assumes "W < Q * V" and "Q \<le> W div V + 1" and "V < M" and "M dvd N" and "Q * V \<le> N" and "0 < N"
  shows "Q = W div V + 1" and "(V + (W + N - Q * V) mod M) mod M = W mod V"
proof -
  have V: "0 < V"
    using assms(1) by (cases V) simp_all
  have "W div V < Q"
    using assms(1) by (rule less_mult_imp_div_less)
  then show q: "Q = W div V + 1"
    using assms(2) by simp
  then have qv: "Q * V = W div V * V + V"
    by simp
  have "V + (W + N - Q * V) = W mod V + N"
  proof -
    have "W + N - Q * V = (W mod V + N) - V"
      unfolding qv using div_mult_mod_eq [of W V] by linarith
    moreover have "V \<le> W mod V + N"
      using assms(5) qv by linarith
    ultimately show ?thesis
      by simp
  qed
  then have "(V + (W + N - Q * V) mod M) mod M = (W mod V + N) mod M"
    by (simp add: mod_add_right_eq)
  also have "\<dots> = W mod V mod M"
    using assms(4) by auto
  also have "\<dots> = W mod V"
    using mod_less_divisor [OF V, of W] assms(3) by simp
  finally show "(V + (W + N - Q * V) mod M) mod M = W mod V" .
qed

text \<open>The subtraction of step D4: its digits, cut to the window, and whether it borrowed.\<close>

lemma sub_window:
  assumes "length lhs = Suc n" and "val (big lhs) = W" and "big_len rhs = n + 2" and "val rhs = Q * V"
    and "V < rad ^ n" and "0 < V" and "Q < rad" and "W div V \<le> Q" "Q \<le> W div V + 1"
  shows "\<exists>neg t. (case big_sub (big lhs) rhs of Ok t \<Rightarrow> Ok (False, t) | Err t \<Rightarrow> Ok (True, t) | Panic \<Rightarrow> Panic)
      = (Ok (neg, t) :: ('e, _) result) \<and> big_len t = n + 2 \<and>
    (if neg then Q = W div V + 1 \<and> (V + val t mod rad ^ Suc n) mod rad ^ Suc n = W mod V
     else Q = W div V \<and> val t mod rad ^ Suc n = W mod V)"
proof -
  have len: "max (big_len (big lhs)) (big_len rhs) = n + 2"
    using assms(1,3) by simp
  obtain t where t: "big_len t = n + 2" "if Q * V \<le> W then big_sub (big lhs) rhs = Ok t \<and> val t = W - Q * V
      else big_sub (big lhs) rhs = Err t \<and> val t = W + rad ^ (n + 2) - Q * V"
    using big_sub_ok [of "big lhs" rhs] unfolding len assms(2,4) by auto
  have VM: "V < rad ^ Suc n"
    using assms(5) rad_mono [of n "Suc n"] by linarith
  show ?thesis
  proof (cases "Q * V \<le> W")
    case True
    then have "Q = W div V"
      using div_mod_exact [OF True assms(8,6)] by blast
    moreover have "W mod V < rad ^ Suc n"
      using VM mod_less_divisor [OF assms(6), of W] by linarith
    ultimately show ?thesis
      using t True by (intro exI [of _ False] exI [of _ t]) (simp add: minus_div_mult_eq_mod)
  next
    case False
    have "Q * V \<le> rad * rad ^ n"
      using assms(5,7) by (intro mult_le_mono) simp_all
    also have "\<dots> \<le> rad ^ (n + 2)"
      using rad_mono [of "Suc n" "n + 2"] by simp
    finally have "Q * V \<le> rad ^ (n + 2)" .
    moreover have "rad ^ Suc n dvd rad ^ (n + 2)"
      by (rule le_imp_power_dvd) simp
    ultimately show ?thesis
      using add_back [of W Q V "rad ^ Suc n" "rad ^ (n + 2)"] False assms(9) VM t
      by (intro exI [of _ True] exI [of _ t]) simp
  qed
qed

lemma normal_less: "normal v n \<Longrightarrow> val v < rad ^ n" and normal_pos: "normal v n \<Longrightarrow> 0 < val v"
proof -
  assume n: "normal v n"
  then show "val v < rad ^ n"
    using val_less [of v] by (simp add: normal_def)
  have "0 < dg v (n - 1)"
    using n rad_pos(1) unfolding normal_def by linarith
  then show "0 < val v"
    using dg_small [of v 0 "n - 1"] by (cases "val v") simp_all
qed

lemma div_step_ok:
  assumes v: "normal v n" and W: "win u j n < val v * rad" and j: "j + n < big_len u" "j < big_len q"
  shows "\<exists>u' q'. (div_step v n j u q :: ('e, _) result) = Ok (u', q') \<and> big_len u' = big_len u \<and> big_len q' = big_len q \<and>
    (\<forall>d. d < j \<or> j + n < d \<longrightarrow> dg u' d = dg u d) \<and> win u' j n = win u j n mod val v \<and>
    dg q' = (dg q)(j := win u j n div val v)"
proof -
  let ?W = "win u j n" and ?V = "val v"
  obtain Q where Q: "(estimate v u n j :: ('e, _) result) = Ok Q" "unat Q < rad" "?W div ?V \<le> unat Q" "unat Q \<le> ?W div ?V + 1"
    using estimate_ok [OF v W j(1)] by blast
  obtain lhs where lhs: "(get_limbs u (rev [j..<Suc (j + n)]) :: ('e, _) result) = Ok lhs" "length lhs = Suc n" "val (big lhs) = ?W"
    using get_limbs_win [OF j(1)] by blast
  obtain rhs where rhs: "(big_mul v (from_u64 Q) :: ('e, _) result) = Ok rhs" "val rhs = unat Q * ?V" "big_len rhs = n + 2"
    using big_mul_ok [of v "from_u64 Q"] v by (auto simp: normal_def mult.commute)
  obtain neg t where t: "(case big_sub (big lhs) rhs of Ok t \<Rightarrow> Ok (False, t) | Err t \<Rightarrow> Ok (True, t) | Panic \<Rightarrow> Panic)
      = (Ok (neg, t) :: ('e, _) result)" "big_len t = n + 2"
      "if neg then unat Q = ?W div ?V + 1 \<and> (?V + val t mod rad ^ Suc n) mod rad ^ Suc n = ?W mod ?V
       else unat Q = ?W div ?V \<and> val t mod rad ^ Suc n = ?W mod ?V"
    using sub_window [OF lhs(2,3) rhs(3,2) normal_less [OF v] normal_pos [OF v] Q(2-4)] by blast
  obtain u1 where u1: "(copy_limbs t j [j..<Suc (j + n)] u :: ('e, _) result) = Ok u1" "big_len u1 = big_len u"
      "\<forall>d. d < j \<or> j + n < d \<longrightarrow> dg u1 d = dg u d" "win u1 j n = val t mod rad ^ Suc n"
    using copy_win [OF j(1) _ set_upt, of t] t(2) by force
  obtain q1 where q1: "(big_set q j (ucast Q) :: ('e, _) result) = Ok q1" "big_len q1 = big_len q" "dg q1 = (dg q)(j := unat Q)"
    using big_set_Ok [OF j(2), of "ucast Q"] Q(2) by (auto simp: limb_simps)
  note prefix = Q(1) lhs(1) rhs(1) t(1) u1(1) q1(1)
  show ?thesis
  proof (cases neg)
    case False
    then show ?thesis
      using prefix u1 q1 t(3) by (intro exI [of _ u1] exI [of _ q1]) (simp add: div_step_def)
  next
    case True
    obtain w where w: "(get_limbs u1 (rev [j..<Suc (j + n)]) :: ('e, _) result) = Ok w" "length w = Suc n" "val (big w) = win u1 j n"
      using get_limbs_win [of j n u1] j(1) u1(2) by auto
    obtain r where r: "(big_add v (big w) :: ('e, _) result) = Ok r" "val r = ?V + win u1 j n" "n < big_len r"
      using big_add_ok [where ?'e = 'e, of v "big w"] w(2,3) by auto
    obtain u2 where u2: "(copy_limbs r j (rev [j..<Suc (j + n)]) u1 :: ('e, _) result) = Ok u2" "big_len u2 = big_len u"
        "\<forall>d. d < j \<or> j + n < d \<longrightarrow> dg u2 d = dg u1 d" "win u2 j n = val r mod rad ^ Suc n"
      using copy_win [of j n u1 r, OF _ r(3) trans [OF set_rev set_upt]] j(1) u1(2) by force
    obtain qj q2 where q2: "(big_get q1 j :: ('e, _) result) = Ok qj" "unat qj = unat Q"
        "(big_set q1 j (qj - 1) :: ('e, _) result) = Ok q2" "big_len q2 = big_len q" "dg q2 = (dg q1)(j := unat (qj - 1))"
      using big_get_Ok [of j q1] big_set_Ok [of j q1] j(2) q1(2,3) by (metis fun_upd_same)
    have "unat (qj - 1) = ?W div ?V"
      using q2(2) t(3) True by (simp add: word_nat)
    then show ?thesis
      using prefix True u1 u2 w(1) r(1,2) q1 q2 t(3)
      by (intro exI [of _ u2] exI [of _ q2]) (simp add: div_step_def)
  qed
qed

section \<open>The main loop\<close>

lemma val_win:
  assumes "\<And>d. j + n < d \<Longrightarrow> dg u d = 0"
  shows "val u = psum (dg u) j + rad ^ j * win u j n"
proof -
  have "val u = psum (dg u) (max (big_len u) (j + Suc n))"
    by (rule val_psum [symmetric]) simp
  also have "\<dots> = psum (dg u) (j + Suc n)"
    using assms by (intro psum_beyond) simp_all
  finally show ?thesis
    by (simp only: psum_split win_def)
qed

lemma div_loop_step:
  fixes R :: nat
  assumes "Vu = l + R * W" and "Vu' = l + R * (W mod V)" and "l < R" and "0 < V"
  shows "(Vq + W div V * R) * V + Vu' = Vq * V + Vu" and "Vu' < V * R"
proof -
  have "R * W = R * (W div V * V + W mod V)"
    by simp
  also have "\<dots> = W div V * R * V + R * (W mod V)"
    by (simp only: add_mult_distrib2 ac_simps)
  finally have "R * W = W div V * R * V + R * (W mod V)" .
  then show "(Vq + W div V * R) * V + Vu' = Vq * V + Vu"
    using assms(1,2) by (simp add: add_mult_distrib)
  have "Vu' < R * Suc (W mod V)"
    using assms(2,3) by simp
  also have "\<dots> \<le> R * V"
    using mod_less_divisor [OF assms(4), of W] by (intro mult_le_mono2) simp
  finally show "Vu' < V * R"
    by (simp add: mult.commute)
qed

lemma div_loop_ok:
  assumes v: "normal v n" and "n + k \<le> big_len u" "k \<le> big_len q" and "\<And>i. i < k \<Longrightarrow> dg q i = 0"
    and "val u < val v * rad ^ k"
  shows "\<exists>u' q'. (div_loop v n (rev [0..<k]) u q :: ('e, _) result) = Ok (u', q') \<and> big_len u' = big_len u \<and>
    big_len q' = big_len q \<and> val q' * val v + val u' = val q * val v + val u \<and> val u' < val v"
  using assms(2-)
proof (induction k arbitrary: u q)
  case (Suc j)
  let ?W = "win u j n"
  have "val u < rad ^ n * rad ^ Suc j"
    using Suc.prems(4) mult_le_mono1 [OF less_imp_le [OF normal_less [OF v]], of "rad ^ Suc j"] by linarith
  then have "val u < rad ^ (n + Suc j)"
    by (simp only: power_add)
  then have zero: "dg u d = 0" if "j + n < d" for d
    using dg_small [of u "n + Suc j" d] that by simp
  have low: "psum (dg u) j < rad ^ j"
    by (simp add: psum_less)
  have val_u: "val u = psum (dg u) j + rad ^ j * ?W"
    using zero by (rule val_win)
  have "rad ^ j * ?W \<le> val u"
    using val_u by simp
  also have "val u < rad ^ j * (val v * rad)"
    using Suc.prems(4) by (simp only: power_Suc ac_simps)
  finally have "?W < val v * rad"
    by simp
  then obtain u' q' where st: "(div_step v n j u q :: ('e, _) result) = Ok (u', q')" "big_len u' = big_len u" "big_len q' = big_len q"
      "\<forall>d. d < j \<or> j + n < d \<longrightarrow> dg u' d = dg u d" "win u' j n = ?W mod val v" "dg q' = (dg q)(j := ?W div val v)"
    using div_step_ok [OF v, of u j q] Suc.prems(1,2) by auto
  have "psum (dg u') j = psum (dg u) j"
    using st(4) by (intro psum_cong) simp
  then have val_u': "val u' = psum (dg u) j + rad ^ j * (?W mod val v)"
    using val_win [of j n u'] st(4,5) zero by simp
  have "val q' = val q + ?W div val v * rad ^ j"
    using big_set_val [OF _ st(3,6)] Suc.prems(2,3) by simp
  then have "val q' * val v + val u' = val q * val v + val u" "val u' < val v * rad ^ j"
    using div_loop_step(1) [OF val_u val_u' low normal_pos [OF v], of "val q"]
      div_loop_step(2) [OF val_u val_u' low normal_pos [OF v]] by simp_all
  then show ?case
    using Suc.IH [of u' q'] Suc.prems st by auto
qed simp

section \<open>Normalisation\<close>

lemma bit_top: "x < 2 ^ Suc m \<Longrightarrow> bit x m \<longleftrightarrow> 2 ^ m \<le> x" for x :: nat
proof -
  assume "x < 2 ^ Suc m"
  then have "x div 2 ^ m < 2"
    by (simp add: less_mult_imp_div_less)
  moreover have "0 < x div 2 ^ m \<longleftrightarrow> 2 ^ m \<le> x"
    by (simp add: div_greater_zero_iff)
  ultimately have "x div 2 ^ m = (if 2 ^ m \<le> x then 1 else 0)"
    by (cases "2 ^ m \<le> x") simp_all
  then show ?thesis
    by (simp add: bit_iff_odd)
qed

lemma leading_zeros_bounds:
  fixes x :: u32
  defines "lz \<equiv> \<lambda>m. length (takeWhile (\<lambda>i. \<not> bit x i) (rev [0..<m]))"
  assumes "x \<noteq> 0" and "unat x < 2 ^ m"
  shows "lz m < m \<and> 2 ^ m \<le> 2 * (unat x * 2 ^ lz m) \<and> unat x * 2 ^ lz m < 2 ^ m"
  using assms(3)
proof (induction m)
  case 0
  then show ?case
    using assms(2) by (simp add: unat_eq_zero)
next
  case (Suc m)
  have b: "bit x m \<longleftrightarrow> 2 ^ m \<le> unat x"
    using bit_top [OF Suc.prems] by (simp add: bit_unsigned_iff)
  show ?case
  proof (cases "bit x m")
    case True
    then show ?thesis
      using b Suc.prems by (simp add: lz_def)
  next
    case False
    then have "lz (Suc m) = Suc (lz m)" "unat x < 2 ^ m"
      using b by (simp_all add: lz_def)
    then show ?thesis
      using Suc.IH by simp
  qed
qed

lemma normalizer:
  fixes mb :: u32
  assumes "mb \<noteq> 0"
  shows "leading_zeros mb < 32" and "rad \<le> 2 * (unat mb * 2 ^ leading_zeros mb)"
    and "(unat mb + 1) * 2 ^ leading_zeros mb \<le> rad" and "unat (2 ^ leading_zeros mb :: u32) = 2 ^ leading_zeros mb"
proof -
  let ?nb = "leading_zeros mb"
  have b: "?nb < 32 \<and> 2 ^ 32 \<le> 2 * (unat mb * 2 ^ ?nb) \<and> unat mb * 2 ^ ?nb < 2 ^ 32"
    using leading_zeros_bounds [OF assms, of 32] unat_u32_less [of mb] by (simp add: leading_zeros_def)
  then show nb: "?nb < 32" and "rad \<le> 2 * (unat mb * 2 ^ ?nb)"
    by (simp_all add: rad_def)
  show "unat (2 ^ ?nb :: u32) = 2 ^ ?nb"
    using nb by (simp add: unat_power_two)
  have "rad = 2 ^ (32 - ?nb) * 2 ^ ?nb"
    using nb by (simp add: rad_def flip: power_add)
  moreover have "unat mb < 2 ^ (32 - ?nb)"
  proof -
    have "unat mb * 2 ^ ?nb < 2 ^ (32 - ?nb) * 2 ^ ?nb"
      using b nb by (simp flip: power_add)
    then show ?thesis
      by simp
  qed
  ultimately show "(unat mb + 1) * 2 ^ ?nb \<le> rad"
    by (metis Suc_eq_plus1 Suc_leI mult_le_mono1)
qed

lemma val_top: "big_len x = Suc k \<Longrightarrow> val x = psum (dg x) k + dg x k * rad ^ k"
  by (simp add: val_def psum_Suc)

text \<open>The divisor after step D1.\<close>

lemma normalised_divisor:
  assumes b: "2 \<le> big_len b" and mb: "unat mb = dg b (big_len b - 1)" "mb \<noteq> 0"
    and w: "val w = val b * 2 ^ leading_zeros mb" "digits w \<noteq> []"
  shows "normal (lstrip w) (big_len b)"
proof -
  let ?N = "2 ^ leading_zeros mb :: nat"
  obtain k where k: "big_len b = Suc k"
    using b by (cases "big_len b") simp_all
  note nz = normalizer [OF mb(2)]
  have vb: "val b = psum (dg b) k + unat mb * rad ^ k" "psum (dg b) k < rad ^ k"
    using val_top [OF k] mb(1) k by (simp_all add: psum_less)
  have "val w < ((unat mb + 1) * rad ^ k) * ?N"
    unfolding w(1) using vb by (intro mult_strict_right_mono) simp_all
  also have "\<dots> = ((unat mb + 1) * ?N) * rad ^ k"
    by (simp only: ac_simps)
  also have "\<dots> \<le> rad * rad ^ k"
    using nz(3) by (rule mult_le_mono1)
  finally have upper: "val w < rad ^ Suc k"
    by simp
  have "rad * rad ^ k \<le> 2 * (unat mb * ?N) * rad ^ k"
    using nz(2) by (rule mult_le_mono1)
  also have "\<dots> \<le> 2 * val w"
    unfolding w(1) vb(1) by (simp add: algebra_simps)
  finally have lower: "rad * rad ^ k \<le> 2 * val w" .
  have "2 * rad ^ k \<le> rad * rad ^ k"
    by (intro mult_le_mono1) (simp add: rad_def)
  then have "rad ^ k \<le> val (lstrip w)"
    unfolding val_lstrip using lower by linarith
  then have len: "big_len (lstrip w) = Suc k"
    using big_len_lstrip [OF w(2) upper] big_len_ge [of k "lstrip w"] by simp
  have "val w < (dg w k + 1) * rad ^ k"
    using val_top [OF len] psum_less [of k "dg w"] by simp
  then have "rad * rad ^ k < (2 * (dg w k + 1)) * rad ^ k"
    using lower by (simp add: algebra_simps)
  then have "rad < 2 * (dg w k + 1)"
    by (rule mult_less_mono_cancel)
  then have "rad \<le> 2 * dg w k"
    by (simp add: rad_def)
  then show ?thesis
    using b k len by (simp add: normal_def)
qed

section \<open>Undoing the normalisation\<close>

lemma unat_drop: "unat (drop_bit nb (x :: u32)) = unat x div 2 ^ nb"
  unfolding unat_drop_bit_eq by (simp add: drop_bit_eq_div)

lemma shift_pair_unat:
  fixes x y :: u32
  assumes "0 < nb" "nb < 32"
  shows "unat (drop_bit nb x OR push_bit (32 - nb) y) = unat x div 2 ^ nb + unat y mod 2 ^ nb * 2 ^ (32 - nb)"
proof -
  have low: "unat x div 2 ^ nb < 2 ^ (32 - nb)"
    using unat_u32_less [of x] assms by (intro less_mult_imp_div_less) (simp flip: power_add)
  have "unat (push_bit (32 - nb) y) = take_bit 32 (push_bit (32 - nb) (unat y))"
    by (simp add: unsigned_push_bit_eq)
  also have "\<dots> = push_bit (32 - nb) (take_bit nb (unat y))"
    using assms by (simp add: push_bit_take_bit)
  finally have p: "unat (push_bit (32 - nb) y) = unat y mod 2 ^ nb * 2 ^ (32 - nb)"
    by (simp add: push_bit_eq_mult take_bit_eq_mod)
  have d: "drop_bit nb x AND push_bit (32 - nb) y = 0"
  proof (rule bit_word_eqI)
    fix i
    assume "i < LENGTH(32)"
    then show "bit (drop_bit nb x AND push_bit (32 - nb) y) i = bit (0 :: u32) i"
      using bit_imp_le_length [of x "nb + i"] by (auto simp: bit_simps)
  qed
  have "unat (drop_bit nb x OR push_bit (32 - nb) y) = unat (drop_bit nb x) OR unat (push_bit (32 - nb) y)"
    by (simp add: unsigned_or_eq)
  also have "\<dots> = unat (drop_bit nb x) + unat (push_bit (32 - nb) y)"
    using disjunctive_add_eq_or [of "unat (drop_bit nb x)" "unat (push_bit (32 - nb) y)"] d
    by (simp flip: unsigned_and_eq)
  finally show ?thesis
    unfolding p unat_drop .
qed

lemma undo_loop_ok:
  assumes "0 < nb" "nb < 32" and "k < big_len u" "k \<le> big_len r"
  shows "\<exists>r'. (undo_loop u nb [d..<k] r :: ('e, _) result) = Ok r' \<and> big_len r' = big_len r \<and>
    dg r' = (\<lambda>i. if d \<le> i \<and> i < k then dg u i div 2 ^ nb + dg u (Suc i) mod 2 ^ nb * 2 ^ (32 - nb) else dg r i)"
  using assms(3,4)
proof (induction "k - d" arbitrary: d r)
  case 0
  then show ?case by (auto simp: fun_eq_iff)
next
  case (Suc l)
  have d: "d < k" "d < big_len u" "Suc d < big_len u" "d < big_len r" and l: "l = k - Suc d"
    using Suc.hyps(2) Suc.prems by simp_all
  obtain x y where g: "(big_get u d :: ('e, _) result) = Ok x" "unat x = dg u d"
      "(big_get u (Suc d) :: ('e, _) result) = Ok y" "unat y = dg u (Suc d)"
    using big_get_Ok [OF d(2)] big_get_Ok [OF d(3)] by metis
  obtain r1 where r1: "(big_set r d (drop_bit nb x OR push_bit (32 - nb) y) :: ('e, _) result) = Ok r1" "big_len r1 = big_len r"
      "dg r1 = (dg r)(d := dg u d div 2 ^ nb + dg u (Suc d) mod 2 ^ nb * 2 ^ (32 - nb))"
    using big_set_Ok [OF d(4)] shift_pair_unat [OF assms(1,2), of x y] g by metis
  obtain r' where "(undo_loop u nb [Suc d..<k] r1 :: ('e, _) result) = Ok r'" "big_len r' = big_len r1"
      "dg r' = (\<lambda>i. if Suc d \<le> i \<and> i < k then dg u i div 2 ^ nb + dg u (Suc i) mod 2 ^ nb * 2 ^ (32 - nb) else dg r1 i)"
    using Suc.hyps(1) [OF l Suc.prems(1), of r1] Suc.prems(2) r1(2) by auto
  then show ?case
    using g r1 d(1) by (auto simp: upt_conv_Cons SHIFT_def fun_eq_iff)
qed

lemma shift_sum:
  assumes "N * M = rad"
  shows "N * psum (\<lambda>i. f i div N + f (Suc i) mod N * M) k + f 0 mod N = psum f k + f k mod N * rad ^ k"
proof (induction k)
  case (Suc k)
  have "N * (f k div N + f (Suc k) mod N * M) + f k mod N = f k + f (Suc k) mod N * rad"
    using assms mult_div_mod_eq [of N "f k"] by (simp add: add_mult_distrib2 ac_simps)
  then have "N * ((f k div N + f (Suc k) mod N * M) * rad ^ k) + f k mod N * rad ^ k
      = f k * rad ^ k + f (Suc k) mod N * rad ^ Suc k"
    by (metis (no_types) add_mult_distrib mult.assoc power_Suc)
  then show ?case
    using Suc.IH by (simp add: psum_Suc add_mult_distrib2)
qed simp

lemma undo_normalization_ok:
  assumes "0 < n" "n < big_len u" "nb < 32" and r: "big_len r = n" and u: "val u < rad ^ n" "val u = 2 ^ nb * x"
  shows "\<exists>r'. (undo_normalization u nb n r :: ('e, _) result) = Ok r' \<and> val r' = x \<and>
    big_len r' = (if nb = 0 then big_len u else n)"
proof (cases "nb = 0")
  case True
  then show ?thesis
    using u by (simp add: undo_normalization_def)
next
  case False
  then have nb: "0 < nb" by simp
  obtain k where n: "n = Suc k"
    using assms(1) by (cases n) simp_all
  let ?N = "2 ^ nb :: nat" and ?M = "2 ^ (32 - nb) :: nat"
  let ?f = "dg u"
  obtain r1 where r1: "(undo_loop u nb [0..<n - 1] r :: ('e, _) result) = Ok r1" "big_len r1 = n"
      "dg r1 = (\<lambda>i. if i < k then ?f i div ?N + ?f (Suc i) mod ?N * ?M else dg r i)"
    using undo_loop_ok [OF nb assms(3), of k u r 0] assms(2) r n by auto
  obtain y where y: "(big_get u k :: ('e, _) result) = Ok y" "unat y = ?f k"
    using big_get_Ok [of k u] assms(2) n by auto
  obtain r2 where r2: "(big_set r1 k (drop_bit nb y) :: ('e, _) result) = Ok r2" "big_len r2 = n"
      "dg r2 = (dg r1)(k := ?f k div ?N)"
    using big_set_Ok [of k r1 "drop_bit nb y"] r1(2) n y(2) by (auto simp: unat_drop)
  have zero: "?f n = 0"
    using dg_small [OF u(1), of n] by simp
  have "val r2 = psum (\<lambda>i. ?f i div ?N + ?f (Suc i) mod ?N * ?M) n"
    unfolding val_def r2(2) using zero n by (intro psum_cong) (auto simp: r2(3) r1(3) less_Suc_eq)
  moreover have "?N * ?M = rad"
    using assms(3) by (simp add: rad_def flip: power_add)
  moreover have "psum ?f n = val u"
    using dg_small [OF u(1)] val_psum [of u "max n (big_len u)"] psum_beyond [of n "max n (big_len u)" ?f] by simp
  ultimately have eq: "?N * val r2 + ?f 0 mod ?N = ?N * x"
    using shift_sum [of ?N ?M ?f n] zero u(2) by simp
  have "?f 0 mod ?N = (?N * val r2 + ?f 0 mod ?N) mod ?N"
    by simp
  also have "\<dots> = 0"
    unfolding eq by simp
  finally have "val r2 = x"
    using eq by simp
  then show ?thesis
    using r1(1) r2(1,2) y(1) nb n by (auto simp: undo_normalization_def)
qed

section \<open>Division\<close>

text \<open>The conditions under which \<open>div\<close> divides: it returns \<open>None\<close> otherwise.\<close>

definition div_applies :: "BigUint \<Rightarrow> BigUint \<Rightarrow> bool" where
  "div_applies a b \<longleftrightarrow> 2 \<le> big_len b \<and> big_len b < big_len a \<and> digits a ! 0 \<noteq> 0 \<and> digits b ! 0 \<noteq> 0"

lemma msb_Ok: "0 < big_len x \<Longrightarrow> msb x = Ok (digits x ! 0) \<and> unat (digits x ! 0) = dg x (big_len x - 1)"
  by (auto simp: msb_def dg_def big_len_def)

lemma quotient_unique:
  fixes q b N u a :: nat
  assumes "q * (b * N) + u = a * N" and "u < b * N" and "0 < N"
  shows "q = a div b" and "u = N * (a mod b)"
proof -
  have "0 < b * N"
    using assms(2) by linarith
  then have "a * N div (b * N) = q" and "a * N mod (b * N) = u"
    using assms(2) by (simp_all flip: assms(1))
  then show "q = a div b" and "u = N * (a mod b)"
    using assms(3) by (simp_all add: mod_mult_mult2 mult.commute)
qed

lemma div_main_ok:
  assumes "div_applies a b"
  shows "\<exists>q r. (div_main a b (leading_zeros (digits b ! 0)) rem :: ('e, _) result) = Ok (q, r) \<and>
    big_len q = big_len a - big_len b + 1 \<and> val q = val a div val b \<and> (rem \<longrightarrow> val r = val a mod val b \<and> big_len r = (if leading_zeros (digits b ! 0) = 0 then big_len a + 1 else big_len b))"
proof -
  let ?nb = "leading_zeros (digits b ! 0)" and ?n = "big_len b" and ?m = "big_len a - big_len b"
  let ?N = "2 ^ ?nb :: nat"
  have ab: "2 \<le> ?n" "?n + ?m = big_len a" "0 < ?m" "digits b ! 0 \<noteq> 0" "digits b \<noteq> []"
    using assms by (auto simp: div_applies_def big_len_def)
  note nz = normalizer [OF ab(4)]
  obtain u where u: "(big_mul a (from_u32 (2 ^ ?nb)) :: ('e, _) result) = Ok u" "val u = val a * ?N" "big_len u = ?n + ?m + 1"
    using big_mul_ok [where ?'e = 'e, of a "from_u32 (2 ^ ?nb)"] nz(4) ab(2) by auto
  obtain w where w: "(big_mul b (from_u32 (2 ^ ?nb)) :: ('e, _) result) = Ok w" "val w = val b * ?N" "0 < big_len w"
    using big_mul_ok [where ?'e = 'e, of b "from_u32 (2 ^ ?nb)"] nz(4) by auto
  have "unat (digits b ! 0) = dg b (?n - 1)" "digits w \<noteq> []"
    using msb_Ok [of b] ab(5) w(3) by (auto simp: big_len_def)
  then have normal: "normal (lstrip w) ?n"
    using normalised_divisor [OF ab(1) _ ab(4) w(2)] by blast
  have "val a < rad ^ (?n - 1) * rad ^ Suc ?m"
    using val_less [of a] ab(1,2) by (simp flip: power_add power_Suc)
  also have "\<dots> \<le> val b * rad ^ Suc ?m"
    using val_msb [OF ab(5,4)] by (rule mult_le_mono1)
  finally have "val u < val (lstrip w) * rad ^ Suc ?m"
    unfolding u(2) val_lstrip w(2) by (simp add: ac_simps)
  then obtain u' q where l: "(div_loop (lstrip w) ?n (rev [0..<Suc ?m]) (lpad (?n + ?m + 1) u) (with_capacity (?m + 1)) :: ('e, _) result) = Ok (u', q)"
      "big_len u' = ?n + ?m + 1" "big_len q = ?m + 1" "val q * (val b * ?N) + val u' = val a * ?N" "val u' < val b * ?N"
    using div_loop_ok [where ?'e = 'e, OF normal, of "Suc ?m" "lpad (?n + ?m + 1) u" "with_capacity (?m + 1)"] u(2,3) w(2) by auto
  have qr: "val q = val a div val b" "val u' = ?N * (val a mod val b)"
    using quotient_unique [OF l(4,5)] by simp_all
  have "val u' < rad ^ ?n"
    using l(5) normal_less [OF normal] w(2) by simp
  then obtain r where "(undo_normalization u' ?nb ?n (with_capacity ?n) :: ('e, _) result) = Ok r" "val r = val a mod val b"
      "big_len r = (if ?nb = 0 then big_len a + 1 else big_len b)"
    using undo_normalization_ok [where ?'e = 'e, of ?n u' ?nb "with_capacity ?n" "val a mod val b"] ab(1-3) l(2) nz(1) qr(2) by auto
  then show ?thesis
    using u(1) w(1) l(1,3) qr(1) by (simp add: div_main_def Let_def)
qed

lemma big_div_ok:
  assumes "div_applies a b"
  shows "\<exists>q r. (big_div a b rem :: ('e, _) result) = Ok (Some (q, r)) \<and> big_len q = big_len a - big_len b + 1 \<and>
    val q = val a div val b \<and> (rem \<longrightarrow> val r = val a mod val b \<and> big_len r = (if leading_zeros (digits b ! 0) = 0 then big_len a + 1 else big_len b))"
proof -
  have "msb a = (Ok (digits a ! 0) :: ('e, _) result)" "msb b = (Ok (digits b ! 0) :: ('e, _) result)"
    using msb_Ok [of a] msb_Ok [of b] assms by (auto simp: div_applies_def)
  then show ?thesis
    using div_main_ok [where ?'e = 'e, OF assms, of rem] assms by (auto simp: big_div_def div_applies_def)
qed

lemma big_div_None:
  assumes "digits a \<noteq> []" and "\<not> div_applies a b"
  shows "big_div a b rem = Ok None"
  using assms by (auto simp: big_div_def div_applies_def msb_def big_len_def)

end
