(* ===== verification/BigUintProperties.thy ===== *)
theory BigUintProperties
  imports BigUintDivision
begin

text \<open>
  What the big integers and the 128-bit helpers compute, and \<open>multiply_by_rational\<close>, which uses them when the product
  of its arguments does not fit in 128 bits.
\<close>

section \<open>Multiplication by a fraction\<close>

lemma try_from_u128_ok:
  "if val x < 2 ^ 128 then \<exists>r. try_from_u128 x = Ok r \<and> unat r = val x
   else try_from_u128 x = Err ''cannot fit a number into u128''"
  using try_from_number_ok [where ?'w = 128 and k = 4, of x "''u128''"] by (simp add: try_from_u128_def)

lemma to_big_uint_len: "big_len (to_big_uint c) = 1 \<longleftrightarrow> unat c < rad" "big_len (to_big_uint c) \<le> 4"
proof -
  obtain l where l: "to_big_uint c = lstrip l" "digits l \<noteq> []"
    by (fastforce simp: to_big_uint_def from_limbs_def split: prod.splits)
  have "big_len (lstrip l) \<noteq> 0"
    using lstrip_msb [OF l(2)] by (simp add: big_len_def)
  moreover have "val l = unat c"
    using val_to_big_uint [of c] l(1) by simp
  ultimately show "big_len (to_big_uint c) = 1 \<longleftrightarrow> unat c < rad"
    using fit_limbs [of 1 l] l(1) by auto
  have "unat c < 2 ^ LENGTH(128)"
    by (rule unsigned_less)
  then have "val l < rad ^ 4"
    using \<open>val l = unat c\<close> by (simp add: rad_power)
  then show "big_len (to_big_uint c) \<le> 4"
    using fit_limbs [of 4 l] l(1) by auto
qed

text \<open>How far the result is above the whole part: one path rounds, the others cut off.\<close>

definition rounds_up :: "nat \<Rightarrow> nat \<Rightarrow> bool" where
  "rounds_up p c \<longleftrightarrow> 2 ^ 128 \<le> p \<and> 2 ^ 32 \<le> c \<and> c div 2 < p mod c"

lemma big_quotient_ok:
  assumes "digits ab \<noteq> []" and "2 ^ 128 \<le> val ab" and "c \<noteq> 0"
  shows "\<exists>q. big_quotient (lstrip ab) (to_big_uint c) c = Ok q \<and>
    val q = val ab div unat c + (if rounds_up (val ab) (unat c) then 1 else 0)"
proof (cases "unat c < rad")
  case True
  then have "unat (ucast c :: u32) = unat c"
    by (simp add: unsigned_ucast_eq take_bit_nat_eq_self rad_def)
  moreover have "max (unat c) 1 = unat c"
    using assms(3) unat_gt_0 [of c] by simp
  ultimately show ?thesis
    using div_unit_ok [where ?'e = string, of "lstrip ab" "ucast c"] True to_big_uint_len(1) [of c]
    by (auto simp: big_quotient_def rounds_up_def rad_def)
next
  case False
  let ?c = "to_big_uint c"
  have "4 < big_len (lstrip ab)"
    using fit_limbs [of 4 ab] assms(2) by (simp add: rad_power)
  moreover have "0 < big_len ?c" "big_len ?c \<noteq> 1"
    using to_big_uint_shape(1) [of c] to_big_uint_len(1) [of c] False by (simp_all add: big_len_def)
  ultimately have "div_applies (lstrip ab) ?c"
    using lstrip_msb [OF assms(1)] to_big_uint_shape(2) [of c] to_big_uint_len(2) [of c]
    by (auto simp: div_applies_def)
  then obtain q r where d: "big_div (lstrip ab) ?c True = (Ok (Some (q, r)) :: (string, _) result)"
      "val q = val ab div unat c" "val r = val ab mod unat c"
    using big_div_ok [where ?'e = string, of "lstrip ab" ?c True] by auto
  have "val r < unat c"
    using d(3) assms(3) unat_gt_0 [of c] by simp
  also have "\<dots> < 2 ^ LENGTH(128)"
    by (rule unsigned_less)
  finally obtain rw where rw: "try_from_u128 r = Ok rw" "unat rw = val r"
    using try_from_u128_ok [of r] by auto
  have "rw > c div 2 \<longleftrightarrow> rounds_up (val ab) (unat c)"
    using False assms(2) by (simp add: rounds_up_def word_less_nat_alt unat_div_distrib rw(2) d(3) rad_def)
  moreover obtain s where "big_add q (to_big_uint 1) = (Ok s :: (string, _) result)" "val s = val q + 1"
    using big_add_ok [where ?'e = string, of q "to_big_uint 1"] by auto
  ultimately show ?thesis
    using d rw(1) False to_big_uint_len(1) [of c] by (auto simp: big_quotient_def Let_def)
qed

text \<open>Dividing one factor first does not change the fraction.\<close>

lemma cancel_first: "a mod c = 0 \<Longrightarrow> a div c * b = a * b div c \<and> a * b mod c = 0" for a b c :: nat
  by (auto simp: mod_eq_0_iff_dvd div_mult_swap mult.commute)

definition fits_u128 :: "nat \<Rightarrow> (string, u128) result \<Rightarrow> bool" where
  "fits_u128 v res \<longleftrightarrow>
     (if v < 2 ^ 128 then \<exists>r. res = Ok r \<and> unat r = v else res = Err ''result cannot fit in u128'')"

lemma multiply_reduced_ok:
  fixes a b c :: u128
  assumes "c \<noteq> 0"
  defines "v \<equiv> unat a * unat b div unat c + (if rounds_up (unat a * unat b) (unat c) then 1 else 0)"
  shows "fits_u128 v (multiply_reduced a b c)"
proof (cases "unat a * unat b < 2 ^ 128")
  case True
  then have m: "checked_mul_u128 a b = Some (a * b)" "unat (a * b) = unat a * unat b"
    by (simp_all add: checked_mul_u128_def unat_mul_nowrap)
  have "v = unat a * unat b div unat c"
    using True by (simp add: v_def rounds_up_def)
  moreover from this have "v < 2 ^ 128"
    using True div_le_dividend [of "unat a * unat b" "unat c"] by linarith
  ultimately show ?thesis
    using m by (simp add: fits_u128_def multiply_reduced_def unat_div_distrib)
next
  case False
  then have m: "checked_mul_u128 a b = None"
    by (simp add: checked_mul_u128_def)
  obtain ab where ab: "big_mul (to_big_uint a) (to_big_uint b) = (Ok ab :: (string, _) result)" "val ab = unat a * unat b"
      "0 < big_len ab"
    using big_mul_ok [where ?'e = string, of "to_big_uint a" "to_big_uint b"] by auto
  then have "digits ab \<noteq> []"
    by (auto simp: big_len_def)
  then obtain q where q: "big_quotient (lstrip ab) (to_big_uint c) c = Ok q" "val q = v"
    using big_quotient_ok [of ab c] False ab(2) assms(1) by (auto simp: v_def)
  show ?thesis
    using try_from_u128_ok [of "lstrip q"] m ab(1) q
    by (auto simp: fits_u128_def multiply_reduced_def split: if_splits)
qed

lemma multiply_nonzero:
  fixes a b c :: u128
  assumes "a \<noteq> 0" "b \<noteq> 0"
  defines "p \<equiv> unat a * unat b" and "d \<equiv> max (unat c) 1"
  shows "fits_u128 (p div d + (if rounds_up p d then 1 else 0)) (multiply_by_rational a b c)"
proof -
  obtain x y where xy: "(if b > a then (b, a) else (a, b)) = (x, y)" "unat x * unat y = p"
    by (cases "b > a") (simp_all add: p_def mult.commute)
  define e where "e = max c 1"
  have e: "e \<noteq> 0" "unat e = d"
    by (auto simp: e_def d_def max_def word_le_nat_alt unat_eq_zero dest: le_antisym)
  have zero: "z mod e = 0 \<longleftrightarrow> unat z mod d = 0" for z
    by (simp add: e(2) [symmetric] unat_mod [symmetric] unat_eq_zero)
  have m: "multiply_by_rational a b c = (if x mod e = 0 then multiply_reduced (x div e) y 1
      else if y mod e = 0 then multiply_reduced x (y div e) 1 else multiply_reduced x y e)"
    using assms(1,2) xy(1) by (simp add: multiply_by_rational_def Let_def e_def)
  have cancelled: "fits_u128 (p div d + (if rounds_up p d then 1 else 0)) (multiply_reduced x' y' 1)"
    if "unat x' * unat y' = p div d" "p mod d = 0" for x' y'
    using multiply_reduced_ok [of 1 x' y'] that by (simp add: rounds_up_def)
  consider "x mod e = 0" | "x mod e \<noteq> 0" "y mod e = 0" | "x mod e \<noteq> 0" "y mod e \<noteq> 0"
    by blast
  then show ?thesis
  proof cases
    case 1
    then have "unat (x div e) * unat y = p div d" "p mod d = 0"
      using cancel_first [of "unat x" d "unat y"] zero [of x] xy(2) e(2) by (simp_all add: unat_div_distrib)
    then show ?thesis
      unfolding m using 1 cancelled by simp
  next
    case 2
    then have "unat x * unat (y div e) = p div d" "p mod d = 0"
      using cancel_first [of "unat y" d "unat x"] zero [of y] xy(2) e(2) by (simp_all add: unat_div_distrib mult.commute)
    then show ?thesis
      unfolding m using 2 cancelled by simp
  next
    case 3
    then show ?thesis
      using multiply_reduced_ok [OF e(1), of x y] xy(2) e(2) by (simp add: m)
  qed
qed

text \<open>
  C37. \<open>multiply_by_rational a b c\<close> is \<open>a * b / c\<close> for a \<open>c\<close> of at least 1, a zero \<open>c\<close> standing for 1. It returns the
  result exactly when that fits in 128 bits, the error otherwise, and never panics. The fraction is cut off, except
  when the product has more than 128 bits and \<open>c\<close> more than one limb: then it is rounded to the nearest, a tie down.
\<close>

theorem multiply_by_rational_exact:
  fixes a b c :: u128
  defines "p \<equiv> unat a * unat b" and "d \<equiv> max (unat c) 1"
  defines "v \<equiv> p div d + (if 2 ^ 128 \<le> p \<and> 2 ^ 32 \<le> d \<and> d div 2 < p mod d then 1 else 0)"
  shows "if v < 2 ^ 128 then \<exists>r. multiply_by_rational a b c = Ok r \<and> unat r = v
    else multiply_by_rational a b c = Err ''result cannot fit in u128''"
proof (cases "a = 0 \<or> b = 0")
  case True
  then have "p = 0"
    by (auto simp: p_def)
  then show ?thesis
    using True by (simp add: v_def multiply_by_rational_def)
next
  case False
  have v: "v = p div d + (if rounds_up p d then 1 else 0)"
    by (simp add: v_def rounds_up_def)
  have "fits_u128 v (multiply_by_rational a b c)"
    unfolding v p_def d_def by (rule multiply_nonzero) (use False in auto)
  then show ?thesis
    by (simp only: fits_u128_def)
qed

section \<open>Arithmetic\<close>

text \<open>
  C36. Long division divides exactly: under its four conditions it returns the quotient, with one limb more than the
  difference of the lengths, and, if asked, the remainder; otherwise it returns \<open>None\<close>. The remainder has the limbs
  of the divisor, except when the leading bit of the divisor is set: then it has one limb more than the dividend.
\<close>

theorem big_div_exact:
  assumes "digits a \<noteq> []"
  shows "if 2 \<le> big_len b \<and> big_len b < big_len a \<and> digits a ! 0 \<noteq> 0 \<and> digits b ! 0 \<noteq> 0
    then \<exists>q r. big_div a b rem = Ok (Some (q, r)) \<and> val q = val a div val b \<and> big_len q = big_len a - big_len b + 1 \<and>
      (rem \<longrightarrow> val r = val a mod val b \<and>
         big_len r = (if leading_zeros (digits b ! 0) = 0 then big_len a + 1 else big_len b))
    else big_div a b rem = Ok None"
  using big_div_ok [of a b rem] big_div_None [OF assms, of b rem] unfolding div_applies_def [symmetric]
  by (cases "div_applies a b") auto

theorem big_div_exact_witness:
  "\<exists>q r. big_div (big [1, 2, 3]) (big [5, 7]) True = (Ok (Some (q, r)) :: (unit, _) result) \<and>
     val q = val (big [1, 2, 3]) div val (big [5, 7]) \<and> val r = val (big [1, 2, 3]) mod val (big [5, 7])"
  using big_div_exact [where ?'a = unit, of "big [1, 2, 3]" "big [5, 7]" True] by auto

text \<open>
  C38. Addition, multiplication and division by one limb never panic and give the sum, the product and the quotient,
  a zero divisor standing for 1, in one limb more than the longer summand, in as many limbs as the factors have
  together, and in the limbs of the dividend.
\<close>

theorem big_arithmetic_exact:
  "\<exists>s p q. big_add a b = Ok s \<and> val s = val a + val b \<and> big_len s = max (big_len a) (big_len b) + 1 \<and>
     big_mul a b = Ok p \<and> val p = val a * val b \<and> big_len p = max (big_len a + big_len b) 1 \<and>
     div_unit a c = Ok q \<and> val q = val a div max (unat c) 1 \<and> big_len q = max (big_len a) 1"
  using big_add_ok [of a b] big_mul_ok [of a b] div_unit_ok [of a c] by blast

text \<open>
  C39. The order compares the values, leading zeros or not. Subtraction gives the difference if the order does not say
  less; if it does, the error carries the difference plus the power of the base of the longer operand, and so does
  the result of the operator.
\<close>

theorem big_sub_exact:
  "big_cmp a b = cmp (val a) (val b) \<and>
   (\<exists>w. ops_sub a b = Ok w \<and> big_sub a b = (if big_cmp a b = Less then Err w else Ok w) \<and>
      val w = (if big_cmp a b = Less then val a + rad ^ max (big_len a) (big_len b) - val b else val a - val b))"
proof -
  obtain w where "if val b \<le> val a then big_sub a b = Ok w \<and> val w = val a - val b
      else big_sub a b = Err w \<and> val w = val a + rad ^ max (big_len a) (big_len b) - val b"
    using big_sub_ok [of a b] by blast
  then show ?thesis
    by (auto simp: big_cmp_val cmp_def ops_sub_def split: if_splits)
qed

text \<open>
  C40. A \<open>u128\<close> converted to limbs and back is itself; a number of limbs converts to \<open>u128\<close> exactly if it fits, and back
  to the same value, and is refused otherwise.
\<close>

theorem u128_round_trip:
  "try_from_u128 (to_big_uint x) = Ok x \<and>
   (if val y < 2 ^ 128 then \<exists>r. try_from_u128 y = Ok r \<and> val (to_big_uint r) = val y
    else try_from_u128 y = Err ''cannot fit a number into u128'')"
proof -
  have "unat x < 2 ^ LENGTH(128)"
    by (rule unsigned_less)
  then have "\<exists>r. try_from_u128 (to_big_uint x) = Ok r \<and> unat r = unat x"
    using try_from_u128_ok [of "to_big_uint x"] by simp
  then have "try_from_u128 (to_big_uint x) = Ok x"
    using unsigned_word_eqI by blast
  then show ?thesis
    using try_from_u128_ok [of y] by simp
qed

text \<open>
  The binary algorithm on words returns the greatest common divisor, also when the last doubling comes close to
  the width.
\<close>

theorem gcd_u128_exact: "unat (gcd_u128 a b) = gcd (unat a) (unat b)"
  by (rule gcd_u128_unat)

end
