(* ===== verification/StateDbPruning.thy ===== *)
theory StateDbPruning
  imports Prelude
begin

text \<open>
  The pruning window of the state database, \<^verbatim>\<open>client/state-db/src/pruning.rs\<close>, with the change sets and errors of
  \<^verbatim>\<open>client/state-db/src/lib.rs\<close>. For each canonical block in the window there is a row with the trie nodes it made
  obsolete, which are deleted when the block is pruned; a node that is inserted again leaves the row.

  The codec is a crate of its own: its encoders and decoders are the record \<open>codec\<close>. The backing database is the function
  that reads its metadata. Block numbers and counters are natural numbers; hash maps are partial functions and the hash
  set of a row is a list without duplicates, of which the properties only use the set.
\<close>

section \<open>Change sets, errors and the codec\<close>

type_synonym bytes = "u8 list"
type_synonym DBValue = bytes

definition ascii :: "string \<Rightarrow> bytes" where
  "ascii s = map of_char s"

datatype ('e, 'c) StateDbError =
    Db 'e
  | Decoding 'c
  | InvalidBlock
  | InvalidBlockNumber
  | InvalidParent
  | InvalidPruningMode bytes

record 'k ChangeSet =
  cs_inserted :: "('k \<times> DBValue) list"
  cs_deleted :: "'k list"

record 'k CommitSet =
  commit_data :: "'k ChangeSet"
  commit_meta :: "bytes ChangeSet"

definition empty_changes :: "'k ChangeSet" where
  "empty_changes = \<lparr>cs_inserted = [], cs_deleted = []\<rparr>"

definition empty_commit :: "'k CommitSet" where
  "empty_commit = \<lparr>commit_data = empty_changes, commit_meta = empty_changes\<rparr>"

record ('h, 'k) PruningRecord =
  pr_hash :: 'h
  pr_inserted :: "'k list"
  pr_deleted :: "'k list"

record ('h, 'k) NonCanonicalRecord =
  nr_hash :: 'h
  nr_parent_hash :: 'h
  nr_inserted :: "('k \<times> DBValue) list"
  nr_deleted :: "'k list"

record ('h, 'k, 'c) codec =
  enc_unit :: bytes
  enc_u64 :: "nat \<Rightarrow> bytes"
  dec_u64 :: "bytes \<Rightarrow> 'c + nat"
  enc_u64_pair :: "nat \<times> nat \<Rightarrow> bytes"
  enc_block :: "'h \<times> nat \<Rightarrow> bytes"
  dec_block :: "bytes \<Rightarrow> 'c + 'h \<times> nat"
  enc_pruning :: "('h, 'k) PruningRecord \<Rightarrow> bytes"
  dec_pruning :: "bytes \<Rightarrow> 'c + ('h, 'k) PruningRecord"
  enc_noncanonical :: "('h, 'k) NonCanonicalRecord \<Rightarrow> bytes"
  dec_noncanonical :: "bytes \<Rightarrow> 'c + ('h, 'k) NonCanonicalRecord"

definition to_meta_key :: "bytes \<Rightarrow> bytes \<Rightarrow> bytes" where
  "to_meta_key suffix data = data @ suffix"

definition LAST_PRUNED :: bytes where
  "LAST_PRUNED = ascii ''last_pruned''"

definition PRUNING_JOURNAL :: bytes where
  "PRUNING_JOURNAL = ascii ''pruning_journal''"

text \<open>The question mark on a read of the database and on a decoding.\<close>

definition db_read :: "'e + 'a \<Rightarrow> (('e, 'c) StateDbError, 'a) result" where
  "db_read r = (case r of Inl e \<Rightarrow> Err (Db e) | Inr a \<Rightarrow> Ok a)"

definition decoded :: "'c + 'a \<Rightarrow> (('e, 'c) StateDbError, 'a) result" where
  "decoded r = (case r of Inl e \<Rightarrow> Err (Decoding e) | Inr a \<Rightarrow> Ok a)"

section \<open>The window\<close>

record ('h, 'k) DeathRow =
  dr_hash :: 'h
  dr_journal_key :: bytes
  dr_deleted :: "'k list"

record ('h, 'k) RefWindow =
  death_rows :: "('h, 'k) DeathRow list"
  death_index :: "'k \<Rightarrow> nat option"
  pending_number :: nat
  rw_pending_canonicalizations :: nat
  pending_prunings :: nat
  count_insertions :: bool

definition pruning_journal_key :: "('h, 'k, 'c) codec \<Rightarrow> nat \<Rightarrow> bytes" where
  "pruning_journal_key c block = to_meta_key PRUNING_JOURNAL (enc_u64 c block)"

fun remove_reinserted :: "'k list \<Rightarrow> ('h, 'k) RefWindow \<Rightarrow> ('x, ('h, 'k) RefWindow) result" where
  "remove_reinserted [] w = Ok w"
| "remove_reinserted (k # ks) w =
     (case death_index w k of
        None \<Rightarrow> remove_reinserted ks w
      | Some block \<Rightarrow>
          if block < pending_number w \<or> length (death_rows w) \<le> block - pending_number w then Panic
          else let i = block - pending_number w; row = death_rows w ! i
               in remove_reinserted ks
                    (w\<lparr>death_index := (death_index w)(k := None),
                       death_rows := (death_rows w)[i := row\<lparr>dr_deleted := filter (\<lambda>d. d \<noteq> k) (dr_deleted row)\<rparr>]\<rparr>))"

definition rw_import ::
    "'h \<Rightarrow> bytes \<Rightarrow> 'k list \<Rightarrow> 'k list \<Rightarrow> ('h, 'k) RefWindow \<Rightarrow> ('x, ('h, 'k) RefWindow) result" where
  "rw_import hash journal_key ins del w =
     and_then
       (if count_insertions w then
          and_then (remove_reinserted ins w) (\<lambda>w1.
            let imported_block = pending_number w1 + length (death_rows w1)
            in Ok (w1\<lparr>death_index := foldl (\<lambda>m k. m(k \<mapsto> imported_block)) (death_index w1) del\<rparr>))
        else Ok w)
       (\<lambda>w2. Ok (w2\<lparr>death_rows := death_rows w2 @ [\<lparr>dr_hash = hash, dr_journal_key = journal_key, dr_deleted = remdups del\<rparr>]\<rparr>))"

text \<open>
  Reading the journal at start: the loop runs until a block number has no record. \<open>None\<close> stands for a loop that does
  not end.
\<close>

partial_function (option) read_pruning_journal ::
    "('h, 'k, 'c) codec \<Rightarrow> (bytes \<Rightarrow> 'e + DBValue option) \<Rightarrow> nat \<Rightarrow> ('h, 'k) RefWindow \<Rightarrow>
     (('e, 'c) StateDbError, ('h, 'k) RefWindow) result option" where
  "read_pruning_journal c db block w =
     (case db_read (db (pruning_journal_key c block)) of
        Ok None \<Rightarrow> Some (Ok w)
      | Ok (Some buffer) \<Rightarrow>
          (case and_then (decoded (dec_pruning c buffer))
                  (\<lambda>r. rw_import (pr_hash r) (pruning_journal_key c block) (pr_inserted r) (pr_deleted r) w) of
             Ok w' \<Rightarrow> read_pruning_journal c db (block + 1) w'
           | Err e \<Rightarrow> Some (Err e)
           | Panic \<Rightarrow> Some Panic)
      | Err e \<Rightarrow> Some (Err e)
      | Panic \<Rightarrow> Some Panic)"

definition rw_new ::
    "('h, 'k, 'c) codec \<Rightarrow> (bytes \<Rightarrow> 'e + DBValue option) \<Rightarrow> bool \<Rightarrow>
     (('e, 'c) StateDbError, ('h, 'k) RefWindow) result option" where
  "rw_new c db counting =
     (case and_then (db_read (db (to_meta_key LAST_PRUNED (enc_unit c)))) (\<lambda>last_pruned.
             case last_pruned of
               Some buffer \<Rightarrow> and_then (decoded (dec_u64 c buffer)) (\<lambda>n. Ok (n + 1))
             | None \<Rightarrow> Ok 0) of
        Ok n \<Rightarrow>
          read_pruning_journal c db n
            \<lparr>death_rows = [], death_index = (\<lambda>_. None), pending_number = n, rw_pending_canonicalizations = 0,
             pending_prunings = 0, count_insertions = counting\<rparr>
      | Err e \<Rightarrow> Some (Err e)
      | Panic \<Rightarrow> Some Panic)"

definition window_size :: "('h, 'k) RefWindow \<Rightarrow> nat" where
  "window_size w = length (death_rows w) - pending_prunings w"

definition next_hash :: "('h, 'k) RefWindow \<Rightarrow> 'h option" where
  "next_hash w =
     (if pending_prunings w < length (death_rows w) then Some (dr_hash (death_rows w ! pending_prunings w)) else None)"

definition mem_used :: "('h, 'k) RefWindow \<Rightarrow> nat" where
  "mem_used w = 0"

definition rw_pending :: "('h, 'k) RefWindow \<Rightarrow> nat" where
  "rw_pending w = pending_number w + pending_prunings w"

definition rw_have_block :: "'h \<Rightarrow> ('h, 'k) RefWindow \<Rightarrow> bool" where
  "rw_have_block hash w \<longleftrightarrow> list_ex (\<lambda>r. dr_hash r = hash) (drop (pending_prunings w) (death_rows w))"

definition prune_one ::
    "('h, 'k, 'c) codec \<Rightarrow> 'k CommitSet \<Rightarrow> ('h, 'k) RefWindow \<Rightarrow> 'k CommitSet \<times> ('h, 'k) RefWindow" where
  "prune_one c commit w =
     (if pending_prunings w < length (death_rows w) then
        let pruned = death_rows w ! pending_prunings w;
            index = pending_number w + pending_prunings w;
            d = commit_data commit; m = commit_meta commit
        in (\<lparr>commit_data = d\<lparr>cs_deleted := cs_deleted d @ dr_deleted pruned\<rparr>,
             commit_meta = m\<lparr>cs_inserted := cs_inserted m @ [(to_meta_key LAST_PRUNED (enc_unit c), enc_u64 c index)],
                             cs_deleted := cs_deleted m @ [dr_journal_key pruned]\<rparr>\<rparr>,
            w\<lparr>pending_prunings := pending_prunings w + 1\<rparr>)
      else (commit, w))"

definition note_canonical ::
    "('h, 'k, 'c) codec \<Rightarrow> 'h \<Rightarrow> 'k CommitSet \<Rightarrow> ('h, 'k) RefWindow \<Rightarrow>
     ('x, 'k CommitSet \<times> ('h, 'k) RefWindow) result" where
  "note_canonical c hash commit w =
     (let d = commit_data commit; m = commit_meta commit;
          ins = (if count_insertions w then map fst (cs_inserted d) else []);
          del = cs_deleted d;
          block = pending_number w + length (death_rows w);
          journal_key = pruning_journal_key c block;
          journal_record = \<lparr>pr_hash = hash, pr_inserted = ins, pr_deleted = del\<rparr>
      in and_then (rw_import hash journal_key ins del w) (\<lambda>w'.
           Ok (\<lparr>commit_data = d\<lparr>cs_deleted := []\<rparr>,
                commit_meta = m\<lparr>cs_inserted := cs_inserted m @ [(journal_key, enc_pruning c journal_record)]\<rparr>\<rparr>,
               w'\<lparr>rw_pending_canonicalizations := rw_pending_canonicalizations w' + 1\<rparr>)))"

fun pop_rows :: "nat \<Rightarrow> ('h, 'k) RefWindow \<Rightarrow> ('x, ('h, 'k) RefWindow) result" where
  "pop_rows 0 w = Ok w"
| "pop_rows (Suc n) w =
     (case death_rows w of
        [] \<Rightarrow> Panic
      | pruned # rows \<Rightarrow>
          pop_rows n
            (w\<lparr>death_rows := rows,
               death_index := (if count_insertions w then foldl (\<lambda>m k. m(k := None)) (death_index w) (dr_deleted pruned)
                               else death_index w),
               pending_number := pending_number w + 1\<rparr>))"

definition rw_apply_pending :: "('h, 'k) RefWindow \<Rightarrow> ('x, ('h, 'k) RefWindow) result" where
  "rw_apply_pending w =
     and_then (pop_rows (pending_prunings w) (w\<lparr>rw_pending_canonicalizations := 0\<rparr>))
       (\<lambda>w'. Ok (w'\<lparr>pending_prunings := 0\<rparr>))"

definition rw_revert_pending :: "('h, 'k) RefWindow \<Rightarrow> ('h, 'k) RefWindow" where
  "rw_revert_pending w =
     (let rows = take (length (death_rows w) - rw_pending_canonicalizations w) (death_rows w);
          new_max_block = length rows + pending_number w
      in w\<lparr>death_rows := rows,
           death_index := (if count_insertions w
                           then (\<lambda>k. case death_index w k of
                                        Some block \<Rightarrow> if block < new_max_block then Some block else None
                                      | None \<Rightarrow> None)
                           else death_index w),
           rw_pending_canonicalizations := 0, pending_prunings := 0\<rparr>)"

end
