(* ===== verification/StateDbOverlay.thy ===== *)
theory StateDbOverlay
  imports StateDbPruning
begin

text \<open>
  The window of blocks that are not canonical yet, \<^verbatim>\<open>client/state-db/src/noncanonical.rs\<close>: levels of block overlays,
  the parent of every block, and the values the blocks inserted with the number of blocks that did. Assertions of a debug
  build are left out, as in a release build.
\<close>

section \<open>State\<close>

record ('h, 'k) BlockOverlay =
  bo_hash :: 'h
  bo_journal_key :: bytes
  bo_inserted :: "'k list"
  bo_deleted :: "'k list"

record ('h, 'k) NonCanonicalOverlay =
  last_canonicalized :: "('h \<times> nat) option"
  levels :: "('h, 'k) BlockOverlay list list"
  parents :: "'h \<Rightarrow> 'h option"
  nc_pending_canonicalizations :: "'h list"
  pending_insertions :: "'h list"
  overlay_values :: "'k \<Rightarrow> (nat \<times> DBValue) option"
  nc_pinned :: "'h \<Rightarrow> nat option"
  pinned_insertions :: "'h \<Rightarrow> ('k list \<times> nat) option"

definition NON_CANONICAL_JOURNAL :: bytes where
  "NON_CANONICAL_JOURNAL = ascii ''noncanonical_journal''"

definition LAST_CANONICAL :: bytes where
  "LAST_CANONICAL = ascii ''last_canonical''"

definition noncanonical_journal_key :: "('h, 'k, 'c) codec \<Rightarrow> nat \<Rightarrow> nat \<Rightarrow> bytes" where
  "noncanonical_journal_key c block index = to_meta_key NON_CANONICAL_JOURNAL (enc_u64_pair c (block, index))"

text \<open>\<open>-= 1\<close> on a \<open>u32\<close> counter.\<close>

definition dec_u32 :: "nat \<Rightarrow> nat" where
  "dec_u32 n = (if n = 0 then 2 ^ 32 - 1 else n - 1)"

fun insert_values ::
    "('k \<times> DBValue) list \<Rightarrow> ('k \<Rightarrow> (nat \<times> DBValue) option) \<Rightarrow> ('k \<Rightarrow> (nat \<times> DBValue) option)" where
  "insert_values [] vals = vals"
| "insert_values ((k, v) # ins) vals =
     insert_values ins (case vals k of
        Some (counter, v') \<Rightarrow> vals(k \<mapsto> (counter + 1, v'))
      | None \<Rightarrow> vals(k \<mapsto> (1, v)))"

fun discard_values ::
    "'k list \<Rightarrow> ('k \<Rightarrow> (nat \<times> DBValue) option) \<Rightarrow> ('k \<Rightarrow> (nat \<times> DBValue) option)" where
  "discard_values [] vals = vals"
| "discard_values (k # ks) vals =
     discard_values ks (case vals k of
        Some (counter, v) \<Rightarrow> if dec_u32 counter = 0 then vals(k := None) else vals(k \<mapsto> (dec_u32 counter, v))
      | None \<Rightarrow> vals)"

section \<open>Discarding a subtree\<close>

text \<open>What \<open>discard_descendants\<close> changes besides the levels.\<close>

record ('h, 'k) discard_state =
  ds_values :: "'k \<Rightarrow> (nat \<times> DBValue) option"
  ds_parents :: "'h \<Rightarrow> 'h option"
  ds_pins :: "'h \<Rightarrow> ('k list \<times> nat) option"

text \<open>A block that leaves the window: kept for the pinned blocks in its subtree, or discarded with its values.\<close>

definition drop_block :: "('h, 'k) BlockOverlay \<Rightarrow> nat \<Rightarrow> ('h, 'k) discard_state \<Rightarrow> ('h, 'k) discard_state" where
  "drop_block ov num_pinned ds =
     (if num_pinned \<noteq> 0
      then ds\<lparr>ds_pins := (ds_pins ds)(bo_hash ov \<mapsto> (bo_inserted ov, num_pinned))\<rparr>
      else ds\<lparr>ds_parents := (ds_parents ds)(bo_hash ov := None), ds_values := discard_values (bo_inserted ov) (ds_values ds)\<rparr>)"

text \<open>The \<open>filter_map\<close> over one level; \<open>rec\<close> is the recursive call on the levels below.\<close>

fun discard_level ::
    "('h \<Rightarrow> ('h, 'k) BlockOverlay list list \<Rightarrow> ('h, 'k) discard_state \<Rightarrow>
        ('x, ('h, 'k) BlockOverlay list list \<times> ('h, 'k) discard_state \<times> nat) result) \<Rightarrow>
     ('h \<Rightarrow> nat option) \<Rightarrow> 'h \<Rightarrow> ('h, 'k) BlockOverlay list \<Rightarrow> ('h, 'k) BlockOverlay list list \<Rightarrow> ('h, 'k) discard_state \<Rightarrow>
     ('x, ('h, 'k) BlockOverlay list \<times> ('h, 'k) BlockOverlay list list \<times> ('h, 'k) discard_state \<times> nat) result" where
  "discard_level rec pinned hash [] remainder ds = Ok ([], remainder, ds, 0)"
| "discard_level rec pinned hash (ov # ovs) remainder ds =
     (case ds_parents ds (bo_hash ov) of
        None \<Rightarrow> Panic
      | Some parent \<Rightarrow>
          if parent = hash then
            and_then (rec (bo_hash ov) remainder ds) (\<lambda>(remainder', ds', below).
              let num_pinned = (if pinned (bo_hash ov) \<noteq> None then below + 1 else below)
              in and_then (discard_level rec pinned hash ovs remainder' (drop_block ov num_pinned ds'))
                   (\<lambda>(kept, remainder'', ds'', n). Ok (kept, remainder'', ds'', num_pinned + n)))
          else
            and_then (discard_level rec pinned hash ovs remainder ds)
              (\<lambda>(kept, remainder'', ds'', n). Ok (ov # kept, remainder'', ds'', n)))"

text \<open>Every call uses up one level, so the number of levels is enough for the recursion.\<close>

primrec discard_depth ::
    "nat \<Rightarrow> ('h \<Rightarrow> nat option) \<Rightarrow> 'h \<Rightarrow> ('h, 'k) BlockOverlay list list \<Rightarrow> ('h, 'k) discard_state \<Rightarrow>
     ('x, ('h, 'k) BlockOverlay list list \<times> ('h, 'k) discard_state \<times> nat) result" where
  "discard_depth 0 pinned hash lvls ds = Ok (lvls, ds, 0)"
| "discard_depth (Suc d) pinned hash lvls ds =
     (case lvls of
        [] \<Rightarrow> Ok ([], ds, 0)
      | level # remainder \<Rightarrow>
          and_then (discard_level (discard_depth d pinned) pinned hash level remainder ds)
            (\<lambda>(kept, remainder', ds', n). Ok (kept # remainder', ds', n)))"

definition discard_descendants ::
    "('h \<Rightarrow> nat option) \<Rightarrow> 'h \<Rightarrow> ('h, 'k) BlockOverlay list list \<Rightarrow> ('h, 'k) discard_state \<Rightarrow>
     ('x, ('h, 'k) BlockOverlay list list \<times> ('h, 'k) discard_state \<times> nat) result" where
  "discard_descendants pinned hash lvls = discard_depth (length lvls) pinned hash lvls"

section \<open>Reading the journal\<close>

definition front_block_number :: "('h, 'k) NonCanonicalOverlay \<Rightarrow> nat" where
  "front_block_number nc = (case last_canonicalized nc of Some (_, n) \<Rightarrow> n + 1 | None \<Rightarrow> 0)"

text \<open>One level: the records of a block number, from index 0 up to the first that is missing.\<close>

partial_function (option) read_level ::
    "('h, 'k, 'c) codec \<Rightarrow> (bytes \<Rightarrow> 'e + DBValue option) \<Rightarrow> nat \<Rightarrow> nat \<Rightarrow> ('h, 'k) BlockOverlay list \<Rightarrow>
     ('h, 'k) NonCanonicalOverlay \<Rightarrow>
     (('e, 'c) StateDbError, ('h, 'k) BlockOverlay list \<times> ('h, 'k) NonCanonicalOverlay) result option" where
  "read_level c db block index level nc =
     (let journal_key = noncanonical_journal_key c block index
      in case db_read (db journal_key) of
           Ok None \<Rightarrow> Some (Ok (level, nc))
         | Ok (Some buffer) \<Rightarrow>
             (case decoded (dec_noncanonical c buffer) of
                Ok r \<Rightarrow>
                  read_level c db block (index + 1)
                    (level @ [\<lparr>bo_hash = nr_hash r, bo_journal_key = journal_key, bo_inserted = map fst (nr_inserted r),
                               bo_deleted = nr_deleted r\<rparr>])
                    (nc\<lparr>overlay_values := insert_values (nr_inserted r) (overlay_values nc),
                        parents := (parents nc)(nr_hash r \<mapsto> nr_parent_hash r)\<rparr>)
              | Err e \<Rightarrow> Some (Err e)
              | Panic \<Rightarrow> Some Panic)
         | Err e \<Rightarrow> Some (Err e)
         | Panic \<Rightarrow> Some Panic)"

partial_function (option) read_levels ::
    "('h, 'k, 'c) codec \<Rightarrow> (bytes \<Rightarrow> 'e + DBValue option) \<Rightarrow> nat \<Rightarrow> ('h, 'k) NonCanonicalOverlay \<Rightarrow>
     (('e, 'c) StateDbError, ('h, 'k) NonCanonicalOverlay) result option" where
  "read_levels c db block nc =
     (case read_level c db block 0 [] nc of
        None \<Rightarrow> None
      | Some (Ok (level, nc')) \<Rightarrow>
          if level = [] then Some (Ok nc')
          else read_levels c db (block + 1) (nc'\<lparr>levels := levels nc' @ [level]\<rparr>)
      | Some (Err e) \<Rightarrow> Some (Err e)
      | Some Panic \<Rightarrow> Some Panic)"

definition empty_overlay :: "('h \<times> nat) option \<Rightarrow> ('h, 'k) NonCanonicalOverlay" where
  "empty_overlay canon =
     \<lparr>last_canonicalized = canon, levels = [], parents = (\<lambda>_. None), nc_pending_canonicalizations = [],
      pending_insertions = [], overlay_values = (\<lambda>_. None), nc_pinned = (\<lambda>_. None), pinned_insertions = (\<lambda>_. None)\<rparr>"

definition nc_new ::
    "('h, 'k, 'c) codec \<Rightarrow> (bytes \<Rightarrow> 'e + DBValue option) \<Rightarrow>
     (('e, 'c) StateDbError, ('h, 'k) NonCanonicalOverlay) result option" where
  "nc_new c db =
     (case and_then (db_read (db (to_meta_key LAST_CANONICAL (enc_unit c)))) (\<lambda>canon.
             case canon of
               Some buffer \<Rightarrow> and_then (decoded (dec_block c buffer)) (\<lambda>b. Ok (Some b))
             | None \<Rightarrow> Ok None) of
        Ok None \<Rightarrow> Some (Ok (empty_overlay None))
      | Ok (Some (hash, block)) \<Rightarrow> read_levels c db (block + 1) (empty_overlay (Some (hash, block)))
      | Err e \<Rightarrow> Some (Err e)
      | Panic \<Rightarrow> Some Panic)"

section \<open>Inserting a block\<close>

definition meta_insert :: "bytes \<times> DBValue \<Rightarrow> 'k CommitSet \<Rightarrow> 'k CommitSet" where
  "meta_insert kv commit =
     commit\<lparr>commit_meta := (commit_meta commit)\<lparr>cs_inserted := cs_inserted (commit_meta commit) @ [kv]\<rparr>\<rparr>"

text \<open>The checks and the assumption about the first block; the result is the commit and the overlay to go on with.\<close>

definition check_insert ::
    "('h, 'k, 'c) codec \<Rightarrow> nat \<Rightarrow> 'h \<Rightarrow> ('h, 'k) NonCanonicalOverlay \<Rightarrow>
     (('e, 'c) StateDbError, 'k CommitSet \<times> ('h, 'k) NonCanonicalOverlay) result" where
  "check_insert c number parent_hash nc =
     (if levels nc = [] \<and> last_canonicalized nc = None \<and> number > 0 then
        let canon = (parent_hash, number - 1)
        in Ok (meta_insert (to_meta_key LAST_CANONICAL (enc_unit c), enc_block c canon) empty_commit,
               nc\<lparr>last_canonicalized := Some canon\<rparr>)
      else if last_canonicalized nc \<noteq> None then
        if number < front_block_number nc \<or> number \<ge> front_block_number nc + length (levels nc) + 1
        then Err InvalidBlockNumber
        else if number = front_block_number nc then
          if last_canonicalized nc = Some (parent_hash, number - 1) then Ok (empty_commit, nc) else Err InvalidParent
        else if parents nc parent_hash = None then Err InvalidParent
        else Ok (empty_commit, nc)
      else Ok (empty_commit, nc))"

text \<open>\<open>front\<close> is read before the checks, which may set the last canonical block.\<close>

definition nc_insert ::
    "('h, 'k, 'c) codec \<Rightarrow> 'h \<Rightarrow> nat \<Rightarrow> 'h \<Rightarrow> 'k ChangeSet \<Rightarrow> ('h, 'k) NonCanonicalOverlay \<Rightarrow>
     (('e, 'c) StateDbError, 'k CommitSet \<times> ('h, 'k) NonCanonicalOverlay) result" where
  "nc_insert c hash number parent_hash changes nc =
     (let front = front_block_number nc
      in and_then (check_insert c number parent_hash nc) (\<lambda>(commit, nc1).
           let new_level = (levels nc1 = [] \<or> number = front + length (levels nc1));
               lvls = (if new_level then levels nc1 @ [[]] else levels nc1);
               at = (if new_level then length (levels nc1) else number - front)
           in if length lvls \<le> at then Panic
              else
                let journal_key = noncanonical_journal_key c number (length (lvls ! at));
                    ov = \<lparr>bo_hash = hash, bo_journal_key = journal_key, bo_inserted = map fst (cs_inserted changes),
                          bo_deleted = cs_deleted changes\<rparr>;
                    journal_record = \<lparr>nr_hash = hash, nr_parent_hash = parent_hash, nr_inserted = cs_inserted changes,
                                      nr_deleted = cs_deleted changes\<rparr>
                in Ok (meta_insert (journal_key, enc_noncanonical c journal_record) commit,
                       nc1\<lparr>levels := lvls[at := lvls ! at @ [ov]],
                           parents := (parents nc1)(hash \<mapsto> parent_hash),
                           overlay_values := insert_values (cs_inserted changes) (overlay_values nc1),
                           pending_insertions := pending_insertions nc1 @ [hash]\<rparr>)))"

section \<open>Canonicalizing a block\<close>

text \<open>The journal keys of the descendants of a block, in the order they are pushed; \<open>rec\<close> is the recursive call.\<close>

fun journals_level ::
    "('h \<Rightarrow> ('x, bytes list) result) \<Rightarrow> ('h \<Rightarrow> 'h option) \<Rightarrow> 'h \<Rightarrow> ('h, 'k) BlockOverlay list \<Rightarrow> ('x, bytes list) result" where
  "journals_level rec ps hash [] = Ok []"
| "journals_level rec ps hash (ov # ovs) =
     (case ps (bo_hash ov) of
        None \<Rightarrow> Panic
      | Some parent \<Rightarrow>
          and_then (if parent = hash then and_then (rec (bo_hash ov)) (\<lambda>js. Ok (bo_journal_key ov # js)) else Ok [])
            (\<lambda>js. and_then (journals_level rec ps hash ovs) (\<lambda>js'. Ok (js @ js'))))"

primrec discard_journals ::
    "('h \<Rightarrow> 'h option) \<Rightarrow> ('h, 'k) BlockOverlay list list \<Rightarrow> 'h \<Rightarrow> ('x, bytes list) result" where
  "discard_journals ps [] = (\<lambda>hash. Ok [])"
| "discard_journals ps (level # lvls) = (\<lambda>hash. journals_level (discard_journals ps lvls) ps hash level)"

text \<open>The loop over the level of the block: \<open>i\<close> counts the overlays, \<open>index\<close> is the one to keep.\<close>

fun level_journals ::
    "('h \<Rightarrow> ('x, bytes list) result) \<Rightarrow> nat \<Rightarrow> nat \<Rightarrow> ('h, 'k) BlockOverlay list \<Rightarrow> ('x, bytes list) result" where
  "level_journals rec index i [] = Ok []"
| "level_journals rec index i (ov # ovs) =
     and_then (if i \<noteq> index then rec (bo_hash ov) else Ok []) (\<lambda>js.
     and_then (level_journals rec index (Suc i) ovs) (\<lambda>js'. Ok (js @ [bo_journal_key ov] @ js')))"

fun get_values :: "('k \<Rightarrow> (nat \<times> DBValue) option) \<Rightarrow> 'k list \<Rightarrow> ('x, ('k \<times> DBValue) list) result" where
  "get_values vals [] = Ok []"
| "get_values vals (k # ks) =
     (case vals k of
        None \<Rightarrow> Panic
      | Some (_, v) \<Rightarrow> and_then (get_values vals ks) (\<lambda>kvs. Ok ((k, v) # kvs)))"

fun find_position :: "('a \<Rightarrow> bool) \<Rightarrow> 'a list \<Rightarrow> nat option" where
  "find_position P [] = None"
| "find_position P (x # xs) = (if P x then Some 0 else map_option Suc (find_position P xs))"

definition nc_canonicalize ::
    "('h, 'k, 'c) codec \<Rightarrow> 'h \<Rightarrow> 'k CommitSet \<Rightarrow> ('h, 'k) NonCanonicalOverlay \<Rightarrow>
     (('e, 'c) StateDbError, 'k CommitSet \<times> ('h, 'k) NonCanonicalOverlay) result" where
  "nc_canonicalize c hash commit nc =
     (let p = length (nc_pending_canonicalizations nc)
      in if length (levels nc) \<le> p then Err InvalidBlock
         else case find_position (\<lambda>ov. bo_hash ov = hash) (levels nc ! p) of
           None \<Rightarrow> Err InvalidBlock
         | Some index \<Rightarrow>
             and_then (level_journals (discard_journals (parents nc) (drop (p + 1) (levels nc))) index 0 (levels nc ! p)) (\<lambda>journals.
             let ov = levels nc ! p ! index; d = commit_data commit; m = commit_meta commit
             in and_then (get_values (overlay_values nc) (bo_inserted ov)) (\<lambda>kvs.
                  Ok (meta_insert (to_meta_key LAST_CANONICAL (enc_unit c), enc_block c (hash, front_block_number nc + p))
                        \<lparr>commit_data = d\<lparr>cs_inserted := cs_inserted d @ kvs, cs_deleted := cs_deleted d @ bo_deleted ov\<rparr>,
                         commit_meta = m\<lparr>cs_deleted := cs_deleted m @ journals\<rparr>\<rparr>,
                      nc\<lparr>nc_pending_canonicalizations := nc_pending_canonicalizations nc @ [hash]\<rparr>))))"

text \<open>The loop over the level of a canonical block when it is applied.\<close>

fun discard_siblings ::
    "('h \<Rightarrow> nat option) \<Rightarrow> nat \<Rightarrow> nat \<Rightarrow> ('h, 'k) BlockOverlay list \<Rightarrow> ('h, 'k) BlockOverlay list list \<Rightarrow>
     ('h, 'k) discard_state \<Rightarrow> ('x, ('h, 'k) BlockOverlay list list \<times> ('h, 'k) discard_state) result" where
  "discard_siblings pinned index i [] lvls ds = Ok (lvls, ds)"
| "discard_siblings pinned index i (ov # ovs) lvls ds =
     and_then (if i \<noteq> index then discard_descendants pinned (bo_hash ov) lvls ds else Ok (lvls, ds, 0))
       (\<lambda>(lvls', ds', below).
          discard_siblings pinned index (Suc i) ovs lvls'
            (drop_block ov (if pinned (bo_hash ov) \<noteq> None then below + 1 else below) ds'))"

fun apply_hashes ::
    "('h \<Rightarrow> nat option) \<Rightarrow> 'h list \<Rightarrow> ('h, 'k) BlockOverlay list list \<Rightarrow> ('h, 'k) discard_state \<Rightarrow>
     ('x, ('h, 'k) BlockOverlay list list \<times> ('h, 'k) discard_state) result" where
  "apply_hashes pinned [] lvls ds = Ok (lvls, ds)"
| "apply_hashes pinned (hash # hashes) lvls ds =
     (case lvls of
        [] \<Rightarrow> Panic
      | level # rest \<Rightarrow>
          (case find_position (\<lambda>ov. bo_hash ov = hash) level of
             None \<Rightarrow> Panic
           | Some index \<Rightarrow>
               and_then (discard_siblings pinned index 0 level rest ds)
                 (\<lambda>(lvls', ds'). apply_hashes pinned hashes lvls' ds')))"

definition apply_canonicalizations :: "('h, 'k) NonCanonicalOverlay \<Rightarrow> ('x, ('h, 'k) NonCanonicalOverlay) result" where
  "apply_canonicalizations nc =
     (let pend = nc_pending_canonicalizations nc; count = length pend
      in and_then
           (apply_hashes (nc_pinned nc) pend (levels nc)
              \<lparr>ds_values = overlay_values nc, ds_parents = parents nc, ds_pins = pinned_insertions nc\<rparr>)
           (\<lambda>(lvls, ds).
              Ok (nc\<lparr>levels := lvls, overlay_values := ds_values ds, parents := ds_parents ds,
                     pinned_insertions := ds_pins ds, nc_pending_canonicalizations := [],
                     last_canonicalized :=
                       (if pend = [] then last_canonicalized nc
                        else Some (last pend,
                                   case last_canonicalized nc of Some (_, n) \<Rightarrow> n + count | None \<Rightarrow> count - 1))\<rparr>)))"

section \<open>Reading, reverting and pinning\<close>

definition last_canonicalized_block_number :: "('h, 'k) NonCanonicalOverlay \<Rightarrow> nat option" where
  "last_canonicalized_block_number nc =
     (case last_canonicalized nc of
        Some (_, n) \<Rightarrow> Some (n + length (nc_pending_canonicalizations nc))
      | None \<Rightarrow>
          if nc_pending_canonicalizations nc \<noteq> [] then Some (length (nc_pending_canonicalizations nc)) else None)"

definition last_canonicalized_hash :: "('h, 'k) NonCanonicalOverlay \<Rightarrow> 'h option" where
  "last_canonicalized_hash nc = map_option fst (last_canonicalized nc)"

definition top_level :: "('h, 'k) NonCanonicalOverlay \<Rightarrow> ('h \<times> nat) list" where
  "top_level nc =
     (let start = (case last_canonicalized_block_number nc of Some n \<Rightarrow> n | None \<Rightarrow> 0);
          p = length (nc_pending_canonicalizations nc)
      in if p < length (levels nc) then map (\<lambda>r. (bo_hash r, start)) (levels nc ! p) else [])"

definition nc_get :: "'k \<Rightarrow> ('h, 'k) NonCanonicalOverlay \<Rightarrow> DBValue option" where
  "nc_get k nc = map_option snd (overlay_values nc k)"

definition nc_have_block :: "'h \<Rightarrow> ('h, 'k) NonCanonicalOverlay \<Rightarrow> bool" where
  "nc_have_block hash nc \<longleftrightarrow>
     (parents nc hash \<noteq> None \<or> hash \<in> set (pending_insertions nc)) \<and> hash \<notin> set (nc_pending_canonicalizations nc)"

fun drop_level ::
    "('h, 'k) BlockOverlay list \<Rightarrow> 'k CommitSet \<times> ('h, 'k) NonCanonicalOverlay \<Rightarrow> 'k CommitSet \<times> ('h, 'k) NonCanonicalOverlay" where
  "drop_level [] (commit, nc) = (commit, nc)"
| "drop_level (ov # ovs) (commit, nc) =
     drop_level ovs
       (commit\<lparr>commit_meta := (commit_meta commit)\<lparr>cs_deleted := cs_deleted (commit_meta commit) @ [bo_journal_key ov]\<rparr>\<rparr>,
        nc\<lparr>parents := (parents nc)(bo_hash ov := None), overlay_values := discard_values (bo_inserted ov) (overlay_values nc)\<rparr>)"

definition nc_revert_one :: "('h, 'k) NonCanonicalOverlay \<Rightarrow> 'k CommitSet option \<times> ('h, 'k) NonCanonicalOverlay" where
  "nc_revert_one nc =
     (if levels nc = [] then (None, nc)
      else let (commit, nc') = drop_level (last (levels nc)) (empty_commit, nc\<lparr>levels := butlast (levels nc)\<rparr>)
           in (Some commit, nc'))"

text \<open>The search for the level that ends with a block; an empty level before it is a panic.\<close>

fun level_of_last :: "'h \<Rightarrow> ('h, 'k) BlockOverlay list list \<Rightarrow> ('x, nat) result" where
  "level_of_last hash [] = Panic"
| "level_of_last hash (level # lvls) =
     (if level = [] then Panic
      else if bo_hash (last level) = hash then Ok 0
      else and_then (level_of_last hash lvls) (\<lambda>i. Ok (Suc i)))"

fun revert_hashes :: "'h list \<Rightarrow> ('h, 'k) NonCanonicalOverlay \<Rightarrow> ('x, ('h, 'k) NonCanonicalOverlay) result" where
  "revert_hashes [] nc = Ok nc"
| "revert_hashes (hash # hashes) nc =
     and_then (level_of_last hash (levels nc)) (\<lambda>i.
       let level = levels nc ! i;
           lvls = (levels nc)[i := butlast level];
           lvls' = (if butlast level = [] then butlast lvls else lvls)
       in revert_hashes hashes
            (nc\<lparr>parents := (parents nc)(hash := None), levels := lvls',
                overlay_values := discard_values (bo_inserted (last level)) (overlay_values nc)\<rparr>))"

definition revert_insertions :: "('h, 'k) NonCanonicalOverlay \<Rightarrow> ('x, ('h, 'k) NonCanonicalOverlay) result" where
  "revert_insertions nc =
     and_then (revert_hashes (rev (pending_insertions nc)) nc) (\<lambda>nc'. Ok (nc'\<lparr>pending_insertions := []\<rparr>))"

definition nc_apply_pending :: "('h, 'k) NonCanonicalOverlay \<Rightarrow> ('x, ('h, 'k) NonCanonicalOverlay) result" where
  "nc_apply_pending nc = and_then (apply_canonicalizations nc) (\<lambda>nc'. Ok (nc'\<lparr>pending_insertions := []\<rparr>))"

definition nc_revert_pending :: "('h, 'k) NonCanonicalOverlay \<Rightarrow> ('x, ('h, 'k) NonCanonicalOverlay) result" where
  "nc_revert_pending nc = revert_insertions (nc\<lparr>nc_pending_canonicalizations := []\<rparr>)"

definition nc_pin :: "'h \<Rightarrow> ('h, 'k) NonCanonicalOverlay \<Rightarrow> ('h, 'k) NonCanonicalOverlay" where
  "nc_pin hash nc =
     (if hash \<in> set (pending_insertions nc) then nc
      else nc\<lparr>nc_pinned := (nc_pinned nc)(hash \<mapsto> (case nc_pinned nc hash of Some refs \<Rightarrow> refs + 1 | None \<Rightarrow> 1))\<rparr>)"

text \<open>
  The walk from an unpinned block towards the root while there are pinned insertions. The map of parents is not known to
  be free of cycles here, so \<open>None\<close> stands for a walk that does not end.
\<close>

partial_function (option) release_ancestors :: "'h \<Rightarrow> ('h, 'k) NonCanonicalOverlay \<Rightarrow> ('h, 'k) NonCanonicalOverlay option" where
  "release_ancestors hash nc =
     (case pinned_insertions nc hash of
        None \<Rightarrow> Some nc
      | Some (ins, refs) \<Rightarrow>
          let nc' = (if dec_u32 refs = 0
                     then nc\<lparr>pinned_insertions := (pinned_insertions nc)(hash := None),
                             overlay_values := discard_values ins (overlay_values nc),
                             parents := (parents nc)(hash := None)\<rparr>
                     else nc\<lparr>pinned_insertions := (pinned_insertions nc)(hash \<mapsto> (ins, dec_u32 refs))\<rparr>)
          in case parents nc hash of
               None \<Rightarrow> Some nc'
             | Some parent \<Rightarrow> release_ancestors parent nc')"

definition nc_unpin :: "'h \<Rightarrow> ('h, 'k) NonCanonicalOverlay \<Rightarrow> ('h, 'k) NonCanonicalOverlay option" where
  "nc_unpin hash nc =
     (case nc_pinned nc hash of
        None \<Rightarrow> Some nc
      | Some refs \<Rightarrow>
          if dec_u32 refs = 0 then release_ancestors hash (nc\<lparr>nc_pinned := (nc_pinned nc)(hash := None)\<rparr>)
          else Some (nc\<lparr>nc_pinned := (nc_pinned nc)(hash \<mapsto> dec_u32 refs)\<rparr>))"

end
