(* ===== verification/StateDb.thy ===== *)
theory StateDb
  imports StateDbOverlay
begin

text \<open>
  The state database, \<^verbatim>\<open>client/state-db/src/lib.rs\<close>: the overlay of non-canonical blocks and the pruning window under
  one roof, with the pruning mode and the pinned blocks, and the writing of a commit to the backing database,
  \<open>apply_state_commit\<close> of \<^verbatim>\<open>client/db/src/lib.rs\<close>. The lock around it and the memory statistics are left out.
\<close>

record Constraints =
  max_blocks :: "nat option"
  max_mem :: "nat option"

datatype PruningMode = Constrained Constraints | ArchiveAll | ArchiveCanonical

datatype PinError = PinInvalidBlock

definition keep_blocks :: "nat \<Rightarrow> PruningMode" where
  "keep_blocks n = Constrained \<lparr>max_blocks = Some n, max_mem = None\<rparr>"

definition is_archive :: "PruningMode \<Rightarrow> bool" where
  "is_archive mode = (case mode of ArchiveAll \<Rightarrow> True | ArchiveCanonical \<Rightarrow> True | Constrained _ \<Rightarrow> False)"

definition mode_id :: "PruningMode \<Rightarrow> bytes" where
  "mode_id mode =
     (case mode of
        ArchiveAll \<Rightarrow> ascii ''archive''
      | ArchiveCanonical \<Rightarrow> ascii ''archive_canonical''
      | Constrained _ \<Rightarrow> ascii ''constrained'')"

definition default_mode :: PruningMode where
  "default_mode = keep_blocks 256"

definition PRUNING_MODE :: bytes where
  "PRUNING_MODE = ascii ''mode''"

record ('h, 'k) StateDbSync =
  sdb_mode :: PruningMode
  non_canonical :: "('h, 'k) NonCanonicalOverlay"
  sdb_pruning :: "('h, 'k) RefWindow option"
  sdb_pinned :: "'h \<Rightarrow> nat option"

definition check_meta :: "('h, 'k, 'c) codec \<Rightarrow> PruningMode \<Rightarrow> (bytes \<Rightarrow> 'e + DBValue option) \<Rightarrow> (('e, 'c) StateDbError, unit) result" where
  "check_meta c mode db =
     and_then (db_read (db (to_meta_key PRUNING_MODE (enc_unit c)))) (\<lambda>db_mode.
       case db_mode of
         Some v \<Rightarrow> if v = mode_id mode then Ok () else Err (InvalidPruningMode v)
       | None \<Rightarrow> Ok ())"

definition sdb_new ::
    "('h, 'k, 'c) codec \<Rightarrow> PruningMode \<Rightarrow> bool \<Rightarrow> (bytes \<Rightarrow> 'e + DBValue option) \<Rightarrow>
     (('e, 'c) StateDbError, ('h, 'k) StateDbSync) result option" where
  "sdb_new c mode ref_counting db =
     (case check_meta c mode db of
        Err e \<Rightarrow> Some (Err e)
      | Panic \<Rightarrow> Some Panic
      | Ok _ \<Rightarrow>
          (case nc_new c db of
             None \<Rightarrow> None
           | Some (Err e) \<Rightarrow> Some (Err e)
           | Some Panic \<Rightarrow> Some Panic
           | Some (Ok nc) \<Rightarrow>
               let finish = (\<lambda>p. \<lparr>sdb_mode = mode, non_canonical = nc, sdb_pruning = p, sdb_pinned = (\<lambda>_. None)\<rparr>)
               in case mode of
                    Constrained cs \<Rightarrow>
                      if max_mem cs \<noteq> None then Some Panic
                      else map_option (\<lambda>r. and_then r (\<lambda>w. Ok (finish (Some w)))) (rw_new c db ref_counting)
                  | _ \<Rightarrow> Some (Ok (finish None))))"

definition insert_block ::
    "('h, 'k, 'c) codec \<Rightarrow> 'h \<Rightarrow> nat \<Rightarrow> 'h \<Rightarrow> 'k ChangeSet \<Rightarrow> ('h, 'k) StateDbSync \<Rightarrow>
     (('e, 'c) StateDbError, 'k CommitSet \<times> ('h, 'k) StateDbSync) result" where
  "insert_block c hash number parent_hash changes s =
     (let m = (if number = 0 then [(to_meta_key PRUNING_MODE (enc_unit c), mode_id (sdb_mode s))] else [])
      in case sdb_mode s of
           ArchiveAll \<Rightarrow>
             Ok (\<lparr>commit_data = changes\<lparr>cs_deleted := []\<rparr>, commit_meta = empty_changes\<lparr>cs_inserted := m\<rparr>\<rparr>, s)
         | _ \<Rightarrow>
             and_then (nc_insert c hash number parent_hash changes (non_canonical s)) (\<lambda>(commit, nc).
               Ok (foldl (\<lambda>cm kv. meta_insert kv cm) commit m, s\<lparr>non_canonical := nc\<rparr>)))"

text \<open>The loop that prunes until the window is within the constraints or its first block is pinned.\<close>

lemma prune_shrinks: "n < window_size w \<Longrightarrow> window_size (snd (prune_one c commit w)) < window_size w"
  by (simp add: prune_one_def window_size_def Let_def) linarith

function prune_loop ::
    "('h, 'k, 'c) codec \<Rightarrow> Constraints \<Rightarrow> ('h \<Rightarrow> nat option) \<Rightarrow> 'k CommitSet \<Rightarrow> ('h, 'k) RefWindow \<Rightarrow> 'k CommitSet \<times> ('h, 'k) RefWindow" where
  "prune_loop c cs pinned commit w =
     (if window_size w \<le> (case max_blocks cs of Some n \<Rightarrow> n | None \<Rightarrow> 0) then (commit, w)
      else if (case max_mem cs of Some m \<Rightarrow> mem_used w > m | None \<Rightarrow> False) then (commit, w)
      else if (case next_hash w of Some h \<Rightarrow> pinned h \<noteq> None | None \<Rightarrow> False) then (commit, w)
      else prune_loop c cs pinned (fst (prune_one c commit w)) (snd (prune_one c commit w)))"
  by pat_completeness auto
termination
  by (relation "measure (\<lambda>x. window_size (snd (snd (snd (snd x)))))") (auto simp: not_le intro: prune_shrinks)

declare prune_loop.simps [simp del]

definition sdb_prune ::
    "('h, 'k, 'c) codec \<Rightarrow> 'k CommitSet \<Rightarrow> ('h, 'k) StateDbSync \<Rightarrow> 'k CommitSet \<times> ('h, 'k) StateDbSync" where
  "sdb_prune c commit s =
     (case (sdb_pruning s, sdb_mode s) of
        (Some w, Constrained cs) \<Rightarrow>
          let (commit', w') = prune_loop c cs (sdb_pinned s) commit w in (commit', s\<lparr>sdb_pruning := Some w'\<rparr>)
      | _ \<Rightarrow> (commit, s))"

definition canonicalize_block ::
    "('h, 'k, 'c) codec \<Rightarrow> 'h \<Rightarrow> ('h, 'k) StateDbSync \<Rightarrow>
     (('e, 'c) StateDbError, 'k CommitSet \<times> ('h, 'k) StateDbSync) result" where
  "canonicalize_block c hash s =
     (if sdb_mode s = ArchiveAll then Ok (empty_commit, s)
      else
        and_then (nc_canonicalize c hash empty_commit (non_canonical s)) (\<lambda>(commit, nc).
          let commit1 = (if sdb_mode s = ArchiveCanonical
                         then commit\<lparr>commit_data := (commit_data commit)\<lparr>cs_deleted := []\<rparr>\<rparr> else commit);
              s1 = s\<lparr>non_canonical := nc\<rparr>
          in and_then
               (case sdb_pruning s1 of
                  Some w \<Rightarrow> and_then (note_canonical c hash commit1 w) (\<lambda>(commit2, w'). Ok (commit2, s1\<lparr>sdb_pruning := Some w'\<rparr>))
                | None \<Rightarrow> Ok (commit1, s1))
               (\<lambda>(commit2, s2). Ok (sdb_prune c commit2 s2))))"

definition best_canonical :: "('h, 'k) StateDbSync \<Rightarrow> nat option" where
  "best_canonical s = last_canonicalized_block_number (non_canonical s)"

definition is_pruned :: "'h \<Rightarrow> nat \<Rightarrow> ('h, 'k) StateDbSync \<Rightarrow> bool" where
  "is_pruned hash number s =
     (case sdb_mode s of
        ArchiveAll \<Rightarrow> False
      | _ \<Rightarrow>
          if (case best_canonical s of Some n \<Rightarrow> number > n | None \<Rightarrow> True)
          then \<not> nc_have_block hash (non_canonical s)
          else (case sdb_pruning s of
                  Some w \<Rightarrow> number < rw_pending w \<or> \<not> rw_have_block hash w
                | None \<Rightarrow> False))"

definition sdb_revert_one :: "('h, 'k) StateDbSync \<Rightarrow> 'k CommitSet option \<times> ('h, 'k) StateDbSync" where
  "sdb_revert_one s =
     (case sdb_mode s of
        ArchiveAll \<Rightarrow> (Some empty_commit, s)
      | _ \<Rightarrow> let (commit, nc) = nc_revert_one (non_canonical s) in (commit, s\<lparr>non_canonical := nc\<rparr>))"

definition sdb_pin :: "'h \<Rightarrow> ('h, 'k) StateDbSync \<Rightarrow> (PinError, ('h, 'k) StateDbSync) result" where
  "sdb_pin hash s =
     (case sdb_mode s of
        ArchiveAll \<Rightarrow> Ok s
      | _ \<Rightarrow>
          if nc_have_block hash (non_canonical s) \<or> (case sdb_pruning s of Some w \<Rightarrow> rw_have_block hash w | None \<Rightarrow> False)
          then Ok (case sdb_pinned s hash of
                     Some refs \<Rightarrow>
                       s\<lparr>sdb_pinned := (sdb_pinned s)(hash \<mapsto> refs + 1),
                         non_canonical := (if refs = 0 then nc_pin hash (non_canonical s) else non_canonical s)\<rparr>
                   | None \<Rightarrow> s\<lparr>sdb_pinned := (sdb_pinned s)(hash \<mapsto> 1), non_canonical := nc_pin hash (non_canonical s)\<rparr>)
          else Err PinInvalidBlock)"

definition sdb_unpin :: "'h \<Rightarrow> ('h, 'k) StateDbSync \<Rightarrow> ('h, 'k) StateDbSync option" where
  "sdb_unpin hash s =
     (case sdb_pinned s hash of
        None \<Rightarrow> Some s
      | Some refs \<Rightarrow>
          if dec_u32 refs = 0 then
            map_option (\<lambda>nc. s\<lparr>sdb_pinned := (sdb_pinned s)(hash := None), non_canonical := nc\<rparr>)
              (nc_unpin hash (non_canonical s))
          else Some (s\<lparr>sdb_pinned := (sdb_pinned s)(hash \<mapsto> dec_u32 refs)\<rparr>))"

definition sdb_get :: "'k \<Rightarrow> ('k \<Rightarrow> 'e + DBValue option) \<Rightarrow> ('h, 'k) StateDbSync \<Rightarrow> (('e, 'c) StateDbError, DBValue option) result" where
  "sdb_get k db s = (case nc_get k (non_canonical s) of Some v \<Rightarrow> Ok (Some v) | None \<Rightarrow> db_read (db k))"

definition sdb_apply_pending :: "('h, 'k) StateDbSync \<Rightarrow> ('x, ('h, 'k) StateDbSync) result" where
  "sdb_apply_pending s =
     and_then (nc_apply_pending (non_canonical s)) (\<lambda>nc.
       case sdb_pruning s of
         Some w \<Rightarrow> and_then (rw_apply_pending w) (\<lambda>w'. Ok (s\<lparr>non_canonical := nc, sdb_pruning := Some w'\<rparr>))
       | None \<Rightarrow> Ok (s\<lparr>non_canonical := nc\<rparr>))"

definition sdb_revert_pending :: "('h, 'k) StateDbSync \<Rightarrow> ('x, ('h, 'k) StateDbSync) result" where
  "sdb_revert_pending s =
     and_then (nc_revert_pending (non_canonical s)) (\<lambda>nc.
       Ok (s\<lparr>non_canonical := nc, sdb_pruning := map_option rw_revert_pending (sdb_pruning s)\<rparr>))"

section \<open>The backing database\<close>

text \<open>The two columns a commit is written to: the trie nodes and the metadata.\<close>

record 'k database =
  state_column :: "'k \<Rightarrow> DBValue option"
  meta_column :: "bytes \<Rightarrow> DBValue option"

definition write_changes :: "'k ChangeSet \<Rightarrow> ('k \<Rightarrow> DBValue option) \<Rightarrow> ('k \<Rightarrow> DBValue option)" where
  "write_changes cs col =
     foldl (\<lambda>m k. m(k := None)) (foldl (\<lambda>m (k, v). m(k \<mapsto> v)) col (cs_inserted cs)) (cs_deleted cs)"

definition apply_state_commit :: "'k CommitSet \<Rightarrow> 'k database \<Rightarrow> 'k database" where
  "apply_state_commit commit db =
     \<lparr>state_column = write_changes (commit_data commit) (state_column db),
      meta_column = write_changes (commit_meta commit) (meta_column db)\<rparr>"

end
