(* ===== verification/StateDbPruningSafety.thy ===== *)
theory StateDbPruningSafety
  imports StateDb
begin

text \<open>
  What the pruning window promises. \<open>Ss\<close> is the sequence of the states of the canonical chain, each a set of trie
  nodes: \<open>Ss ! n\<close> is the state before the block that the window numbers \<open>n\<close>. A row holds nodes that no later state
  has; the index finds the row of a node. From this, writing the commits keeps every state from the first block that is
  not pruned on.
\<close>

section \<open>Rows and their index\<close>

definition row_keys :: "('h, 'k) RefWindow \<Rightarrow> nat \<Rightarrow> 'k set" where
  "row_keys w i = set (dr_deleted (death_rows w ! i))"

definition index_ok :: "('h, 'k) RefWindow \<Rightarrow> bool" where
  "index_ok w \<longleftrightarrow>
     (\<forall>k b. death_index w k = Some b \<longleftrightarrow> (\<exists>i < length (death_rows w). b = pending_number w + i \<and> k \<in> row_keys w i))"

definition forget :: "'k list \<Rightarrow> ('h, 'k) DeathRow \<Rightarrow> ('h, 'k) DeathRow" where
  "forget ks row = row\<lparr>dr_deleted := filter (\<lambda>d. d \<notin> set ks) (dr_deleted row)\<rparr>"

lemma forget_sel [simp]: "dr_hash (forget ks row) = dr_hash row" "dr_journal_key (forget ks row) = dr_journal_key row"
  "set (dr_deleted (forget ks row)) = set (dr_deleted row) - set ks"
  by (auto simp: forget_def)

lemma forget_Cons: "forget (k # ks) row = forget ks (forget [k] row)"
  by (simp add: forget_def)

lemma forget_absent: "k \<notin> set (dr_deleted row) \<Longrightarrow> forget [k] row = row"
  by (cases row) (auto simp: forget_def filter_id_conv)

lemma index_iff: "index_ok w \<Longrightarrow>
    death_index w k = Some b \<longleftrightarrow> (\<exists>i < length (death_rows w). b = pending_number w + i \<and> k \<in> row_keys w i)"
  by (simp add: index_ok_def)

lemma index_Some:
  assumes "index_ok w" "death_index w k = Some b"
  obtains i where "i < length (death_rows w)" "b = pending_number w + i" "k \<in> row_keys w i"
  using assms unfolding index_ok_def by blast

lemma index_None: "index_ok w \<Longrightarrow> death_index w k = None \<Longrightarrow> i < length (death_rows w) \<Longrightarrow> k \<notin> row_keys w i"
  unfolding index_ok_def by (metis option.distinct(1))

lemma index_unique:
  assumes "index_ok w" "i < length (death_rows w)" "k \<in> row_keys w i" "j < length (death_rows w)" "k \<in> row_keys w j"
  shows "i = j"
proof -
  have "death_index w k = Some (pending_number w + i)" "death_index w k = Some (pending_number w + j)"
    using assms unfolding index_ok_def by blast+
  then show ?thesis by simp
qed

lemma forget_only:
  assumes "index_ok w" "i < length (death_rows w)" "k \<in> row_keys w i"
  shows "(death_rows w)[i := forget [k] (death_rows w ! i)] = map (forget [k]) (death_rows w)"
proof (rule nth_equalityI)
  fix j
  assume j: "j < length ((death_rows w)[i := forget [k] (death_rows w ! i)])"
  show "(death_rows w)[i := forget [k] (death_rows w ! i)] ! j = map (forget [k]) (death_rows w) ! j"
  proof (cases "j = i")
    case False
    then have "k \<notin> row_keys w j"
      using index_unique [OF assms] j by auto
    then show ?thesis
      using j False by (simp add: row_keys_def forget_absent)
  qed (use j in simp)
qed simp

lemma remove_reinserted_ok:
  assumes "index_ok w"
  shows "(remove_reinserted ks w :: ('x, _) result) =
    Ok (w\<lparr>death_rows := map (forget ks) (death_rows w), death_index := (\<lambda>k. if k \<in> set ks then None else death_index w k)\<rparr>)"
  using assms
proof (induction ks arbitrary: w)
  case Nil
  then show ?case
    by (simp add: forget_def)
next
  case (Cons k ks)
  show ?case
  proof (cases "death_index w k")
    case None
    then have "map (forget [k]) (death_rows w) = death_rows w"
      using index_None [OF Cons.prems None] by (auto intro!: nth_equalityI forget_absent simp: row_keys_def)
    then have "map (forget (k # ks)) (death_rows w) = map (forget ks) (death_rows w)"
      using map_map [of "forget ks" "forget [k]" "death_rows w"] by (simp add: forget_Cons [of k ks] comp_def)
    moreover have "(\<lambda>x. if x \<in> set (k # ks) then None else death_index w x) = (\<lambda>x. if x \<in> set ks then None else death_index w x)"
      using None by auto
    ultimately show ?thesis
      using Cons None by simp
  next
    case (Some b)
    obtain i where i: "i < length (death_rows w)" "b = pending_number w + i" "k \<in> row_keys w i"
      by (rule index_Some [OF Cons.prems Some])
    let ?w = "w\<lparr>death_index := (death_index w)(k := None), death_rows := map (forget [k]) (death_rows w)\<rparr>"
    have "index_ok ?w"
      unfolding index_ok_def
    proof (intro allI)
      fix x b
      show "death_index ?w x = Some b \<longleftrightarrow> (\<exists>i < length (death_rows ?w). b = pending_number ?w + i \<and> x \<in> row_keys ?w i)"
        using index_iff [OF Cons.prems, of x b] by (auto simp: row_keys_def)
    qed
    then have "(remove_reinserted ks ?w :: ('x, _) result) = Ok (?w\<lparr>death_rows := map (forget ks) (death_rows ?w),
        death_index := (\<lambda>x. if x \<in> set ks then None else death_index ?w x)\<rparr>)"
      by (rule Cons.IH)
    moreover have "map (forget ks) (death_rows ?w) = map (forget (k # ks)) (death_rows w)"
      by (simp add: forget_Cons [of k ks])
    moreover have "(\<lambda>x. if x \<in> set ks then None else death_index ?w x) = (\<lambda>x. if x \<in> set (k # ks) then None else death_index w x)"
      by auto
    moreover have "remove_reinserted (k # ks) w = (remove_reinserted ks ?w :: ('x, _) result)"
      using Some i forget_only [OF Cons.prems i(1,3)] by (simp add: Let_def forget_def)
    ultimately show ?thesis
      by simp
  qed
qed

lemma foldl_mapsto: "foldl (\<lambda>m k. m(k \<mapsto> v)) m ks = (\<lambda>k. if k \<in> set ks then Some v else m k)"
  by (induction ks arbitrary: m) auto

lemma foldl_remove: "foldl (\<lambda>m k. m(k := None)) m ks = (\<lambda>k. if k \<in> set ks then None else m k)"
  by (induction ks arbitrary: m) auto

text \<open>A block enters the window: its insertions leave the rows, its deletions are the new row.\<close>

definition imported :: "'h \<Rightarrow> bytes \<Rightarrow> 'k list \<Rightarrow> 'k list \<Rightarrow> ('h, 'k) RefWindow \<Rightarrow> ('h, 'k) RefWindow" where
  "imported hash key ins del w =
     w\<lparr>death_rows := map (forget ins) (death_rows w) @ [\<lparr>dr_hash = hash, dr_journal_key = key, dr_deleted = remdups del\<rparr>],
       death_index := (\<lambda>k. if k \<in> set del then Some (pending_number w + length (death_rows w))
                           else if k \<in> set ins then None else death_index w k)\<rparr>"

lemma rw_import_ok:
  assumes "index_ok w" "count_insertions w"
  shows "(rw_import hash key ins del w :: ('x, _) result) = Ok (imported hash key ins del w)"
  using assms by (cases w) (simp add: rw_import_def remove_reinserted_ok Let_def foldl_mapsto imported_def cong: if_cong)

lemma row_keys_imported:
  "i < length (death_rows w) \<Longrightarrow> row_keys (imported hash key ins del w) i = row_keys w i - set ins"
  "row_keys (imported hash key ins del w) (length (death_rows w)) = set del"
  by (auto simp: row_keys_def imported_def nth_append)

lemma imported_sel [simp]: "length (death_rows (imported hash key ins del w)) = Suc (length (death_rows w))"
  "pending_number (imported hash key ins del w) = pending_number w"
  "pending_prunings (imported hash key ins del w) = pending_prunings w"
  "rw_pending_canonicalizations (imported hash key ins del w) = rw_pending_canonicalizations w"
  "count_insertions (imported hash key ins del w) = count_insertions w"
  by (simp_all add: imported_def)

lemma index_ok_imported:
  assumes "index_ok w" and "\<And>i k. i < length (death_rows w) \<Longrightarrow> k \<in> row_keys w i \<Longrightarrow> k \<in> set del \<Longrightarrow> k \<in> set ins"
  shows "index_ok (imported hash key ins del w)"
  unfolding index_ok_def
proof (intro allI)
  fix k b
  let ?w = "imported hash key ins del w" and ?n = "length (death_rows w)"
  have "(\<exists>i < length (death_rows ?w). b = pending_number ?w + i \<and> k \<in> row_keys ?w i) \<longleftrightarrow>
      (\<exists>i < ?n. b = pending_number w + i \<and> k \<in> row_keys w i - set ins) \<or> b = pending_number w + ?n \<and> k \<in> set del"
    by (auto simp: row_keys_imported less_Suc_eq)
  moreover have "(\<exists>i < ?n. b = pending_number w + i \<and> k \<in> row_keys w i - set ins) \<longleftrightarrow>
      k \<notin> set del \<and> k \<notin> set ins \<and> death_index w k = Some b"
    unfolding index_iff [OF assms(1)] using assms(2) by blast
  ultimately show "death_index ?w k = Some b \<longleftrightarrow> (\<exists>i < length (death_rows ?w). b = pending_number ?w + i \<and> k \<in> row_keys ?w i)"
    by (auto simp: imported_def)
qed

section \<open>Rows and states\<close>

text \<open>
  No row has a node of a later state. The last clause of \<open>window_ok\<close> is about the row numbers only: the window has been
  fed one block for every state but the first.
\<close>

definition window_ok :: "('h, 'k) RefWindow \<Rightarrow> 'k set list \<Rightarrow> bool" where
  "window_ok w Ss \<longleftrightarrow> count_insertions w \<and> index_ok w \<and>
     (\<forall>i < length (death_rows w). \<forall>j. pending_number w + i < j \<and> j < length Ss \<longrightarrow> row_keys w i \<inter> Ss ! j = {}) \<and>
     pending_prunings w \<le> length (death_rows w) \<and> rw_pending_canonicalizations w \<le> length (death_rows w) \<and>
     length Ss = pending_number w + length (death_rows w) + 1"

text \<open>Every node that only an early state has is in the row of the block that deleted it.\<close>

definition window_exact :: "('h, 'k) RefWindow \<Rightarrow> 'k set list \<Rightarrow> bool" where
  "window_exact w Ss \<longleftrightarrow>
     (\<forall>i < length (death_rows w). \<forall>k \<in> Ss ! (pending_number w + i).
        (\<forall>j. pending_number w + i < j \<and> j < length Ss \<longrightarrow> k \<notin> Ss ! j) \<longrightarrow> k \<in> row_keys w i)"

text \<open>The change set of a block leads from one state to the next and deletes nothing that is not there.\<close>

definition leads :: "'k set \<Rightarrow> 'k set \<Rightarrow> 'k set \<Rightarrow> 'k set \<Rightarrow> bool" where
  "leads S ins del T \<longleftrightarrow> T = (S \<union> ins) - del \<and> del \<subseteq> S \<union> ins"

lemma window_rows: "window_ok w Ss \<Longrightarrow> i < length (death_rows w) \<Longrightarrow> pending_number w + i < j \<Longrightarrow> j < length Ss \<Longrightarrow>
    k \<in> row_keys w i \<Longrightarrow> k \<notin> Ss ! j"
  unfolding window_ok_def by blast

lemma last_state: "window_ok w Ss \<Longrightarrow> last Ss = Ss ! (pending_number w + length (death_rows w)) \<and> Ss \<noteq> []"
  using last_conv_nth [of Ss] by (cases "Ss = []") (simp_all add: window_ok_def)

lemma window_imported:
  assumes w: "window_ok w Ss" and l: "leads (last Ss) (set ins) (set del) T"
  shows "window_ok (imported hash key ins del w) (Ss @ [T])"
proof -
  let ?w = "imported hash key ins del w" and ?n = "length (death_rows w)"
  have len: "length Ss = pending_number w + ?n + 1"
    using w by (simp add: window_ok_def)
  have gone: "k \<notin> last Ss" if "i < ?n" "k \<in> row_keys w i" for i k
    using window_rows [OF w that(1) _ _ that(2), of "pending_number w + ?n"] last_state [OF w] that(1) len by simp
  have "index_ok ?w"
    using w gone l by (intro index_ok_imported) (auto simp: window_ok_def leads_def)
  moreover have "row_keys ?w i \<inter> (Ss @ [T]) ! j = {}" if i: "i < Suc ?n" and j: "pending_number w + i < j" "j < Suc (length Ss)" for i j
  proof (cases "i = ?n")
    case True
    then have "j = length Ss"
      using j len by simp
    then show ?thesis
      using True l by (auto simp: row_keys_imported leads_def)
  next
    case False
    then have "i < ?n"
      using i by simp
    then show ?thesis
      using window_rows [OF w \<open>i < ?n\<close> j(1)] gone j(2) l
      by (cases "j = length Ss") (auto simp: row_keys_imported nth_append leads_def)
  qed
  ultimately show ?thesis
    using w by (simp add: window_ok_def)
qed

lemma window_exact_imported:
  assumes w: "window_ok w Ss" and e: "window_exact w Ss" and l: "leads (last Ss) (set ins) (set del) T" and d: "set ins \<inter> set del = {}"
  shows "window_exact (imported hash key ins del w) (Ss @ [T])"
  unfolding window_exact_def
proof (intro allI ballI impI)
  let ?w = "imported hash key ins del w" and ?n = "length (death_rows w)"
  fix i k
  assume i: "i < length (death_rows ?w)" and k: "k \<in> (Ss @ [T]) ! (pending_number ?w + i)"
    and later: "\<forall>j. pending_number ?w + i < j \<and> j < length (Ss @ [T]) \<longrightarrow> k \<notin> (Ss @ [T]) ! j"
  have len: "length Ss = pending_number w + ?n + 1"
    using w by (simp add: window_ok_def)
  have T: "k \<notin> T"
    using spec [OF later, of "length Ss"] i len by (simp add: nth_append)
  show "k \<in> row_keys ?w i"
  proof (cases "i = ?n")
    case True
    then have "k \<in> last Ss"
      using k last_state [OF w] len by (simp add: nth_append)
    then show ?thesis
      using True T l by (auto simp: row_keys_imported leads_def)
  next
    case False
    then have "i < ?n"
      using i by simp
    moreover have "k \<in> row_keys w i"
      using e \<open>i < ?n\<close> k later len unfolding window_exact_def by (force simp: nth_append)
    moreover have "k \<notin> set ins"
      using T l d by (auto simp: leads_def)
    ultimately show ?thesis
      by (simp add: row_keys_imported)
  qed
qed

section \<open>The database\<close>

definition keeps_states :: "'k set \<Rightarrow> ('h, 'k) RefWindow \<Rightarrow> 'k set list \<Rightarrow> bool" where
  "keeps_states V w Ss \<longleftrightarrow> (\<forall>j. rw_pending w \<le> j \<and> j < length Ss \<longrightarrow> Ss ! j \<subseteq> V)"

text \<open>The database has no node but those of the states from the first block that is not pruned on.\<close>

definition no_garbage :: "'k set \<Rightarrow> ('h, 'k) RefWindow \<Rightarrow> 'k set list \<Rightarrow> bool" where
  "no_garbage V w Ss \<longleftrightarrow> (\<forall>k \<in> V. \<exists>j. rw_pending w \<le> j \<and> j < length Ss \<and> k \<in> Ss ! j)"

lemma keeps_imported:
  assumes "window_ok w Ss" and "leads (last Ss) (set ins) del T" and "keeps_states V w Ss"
  shows "keeps_states (V \<union> set ins) (imported hash key ins' del' w) (Ss @ [T])"
proof -
  have "last Ss \<subseteq> V"
    using assms(3) last_state [OF assms(1)] assms(1) by (simp add: keeps_states_def window_ok_def rw_pending_def)
  then have "T \<subseteq> V \<union> set ins"
    using assms(2) by (auto simp: leads_def)
  then show ?thesis
    using assms(3) unfolding keeps_states_def rw_pending_def by (auto simp: nth_append less_Suc_eq)
qed

lemma no_garbage_imported:
  assumes "window_ok w Ss" and "leads (last Ss) (set ins) (set del) T" "set ins \<inter> set del = {}" and "no_garbage V w Ss"
  shows "no_garbage (V \<union> set ins) (imported hash key ins' del' w) (Ss @ [T])"
  unfolding no_garbage_def
proof
  fix k
  assume "k \<in> V \<union> set ins"
  then show "\<exists>j. rw_pending (imported hash key ins' del' w) \<le> j \<and> j < length (Ss @ [T]) \<and> k \<in> (Ss @ [T]) ! j"
  proof
    assume "k \<in> V"
    then obtain j where "rw_pending w \<le> j" "j < length Ss" "k \<in> Ss ! j"
      using assms(4) unfolding no_garbage_def by blast
    then show ?thesis
      by (intro exI [of _ j]) (simp add: rw_pending_def nth_append)
  next
    assume "k \<in> set ins"
    then have "k \<in> T"
      using assms(2,3) by (auto simp: leads_def)
    then show ?thesis
      using assms(1) by (intro exI [of _ "length Ss"]) (simp add: rw_pending_def window_ok_def nth_append)
  qed
qed

subsection \<open>Pruning, applying, reverting\<close>

lemma index_ok_cong: "death_rows v = death_rows w \<Longrightarrow> death_index v = death_index w \<Longrightarrow> pending_number v = pending_number w \<Longrightarrow>
    index_ok v = index_ok w"
  by (simp add: index_ok_def row_keys_def)

lemma prune_one_sel:
  "pending_prunings w < length (death_rows w) \<Longrightarrow> snd (prune_one c commit w) = w\<lparr>pending_prunings := Suc (pending_prunings w)\<rparr>"
  by (simp add: prune_one_def Let_def)

lemma row_keys_update [simp]: "row_keys (w\<lparr>pending_prunings := n\<rparr>) = row_keys w" "row_keys (w\<lparr>rw_pending_canonicalizations := n\<rparr>) = row_keys w"
  "index_ok (w\<lparr>pending_prunings := n\<rparr>) = index_ok w" "index_ok (w\<lparr>rw_pending_canonicalizations := n\<rparr>) = index_ok w"
  by (simp_all add: row_keys_def [abs_def] index_ok_def)

lemma prune_one_ok:
  assumes "window_ok w Ss" "pending_prunings w < length (death_rows w)"
  shows "window_ok (snd (prune_one c commit w)) Ss" "window_exact (snd (prune_one c commit w)) Ss \<longleftrightarrow> window_exact w Ss"
    "rw_pending (snd (prune_one c commit w)) = Suc (rw_pending w)"
  using assms unfolding prune_one_sel [OF assms(2)] by (simp_all add: window_ok_def rw_pending_def window_exact_def)

lemma keeps_pruned:
  assumes "window_ok w Ss" "pending_prunings w < length (death_rows w)" "keeps_states V w Ss"
  shows "keeps_states (V - row_keys w (pending_prunings w)) (snd (prune_one c commit w)) Ss"
  unfolding keeps_states_def prune_one_ok(3) [OF assms(1,2)]
proof (intro allI impI subsetI)
  fix j k
  assume j: "Suc (rw_pending w) \<le> j \<and> j < length Ss" and "k \<in> Ss ! j"
  then have "k \<in> V"
    using assms(3) unfolding keeps_states_def by (meson Suc_leD subsetD)
  moreover have "k \<notin> row_keys w (pending_prunings w)"
    using window_rows [OF assms(1,2), of j k] j \<open>k \<in> Ss ! j\<close> by (auto simp: rw_pending_def)
  ultimately show "k \<in> V - row_keys w (pending_prunings w)"
    by simp
qed

lemma no_garbage_pruned:
  assumes "window_ok w Ss" "window_exact w Ss" "pending_prunings w < length (death_rows w)" "no_garbage V w Ss"
  shows "no_garbage (V - row_keys w (pending_prunings w)) (snd (prune_one c commit w)) Ss"
  unfolding no_garbage_def prune_one_ok(3) [OF assms(1,3)]
proof
  fix k
  assume k: "k \<in> V - row_keys w (pending_prunings w)"
  then obtain j where j: "rw_pending w \<le> j" "j < length Ss" "k \<in> Ss ! j"
    using assms(4) unfolding no_garbage_def by blast
  show "\<exists>j. Suc (rw_pending w) \<le> j \<and> j < length Ss \<and> k \<in> Ss ! j"
  proof (cases "j = rw_pending w")
    case True
    then show ?thesis
      using assms(2,3) j k unfolding window_exact_def rw_pending_def by (auto simp: Suc_le_eq)
  next
    case False
    then have "Suc (rw_pending w) \<le> j"
      using j(1) by simp
    then show ?thesis
      using j(2,3) by blast
  qed
qed

lemma pop_rows_ok:
  assumes "index_ok w" "count_insertions w" "n \<le> length (death_rows w)"
  shows "\<exists>w'. (pop_rows n w :: ('x, _) result) = Ok w' \<and> index_ok w' \<and> count_insertions w' \<and> death_rows w' = drop n (death_rows w) \<and>
    pending_number w' = pending_number w + n \<and> rw_pending_canonicalizations w' = rw_pending_canonicalizations w \<and>
    pending_prunings w' = pending_prunings w"
  using assms
proof (induction n arbitrary: w)
  case (Suc n)
  then obtain row rows where r: "death_rows w = row # rows"
    by (cases "death_rows w") auto
  let ?w = "w\<lparr>death_rows := rows,
      death_index := (\<lambda>k. if k \<in> set (dr_deleted row) then None else death_index w k),
      pending_number := pending_number w + 1\<rparr>"
  have "index_ok ?w"
    unfolding index_ok_def
  proof (intro allI)
    fix k b
    have "death_index w k = Some b \<longleftrightarrow> (b = pending_number w \<and> k \<in> set (dr_deleted row)) \<or>
        (\<exists>i < length rows. b = Suc (pending_number w + i) \<and> k \<in> set (dr_deleted (rows ! i)))"
      using index_iff [OF Suc.prems(1), of k b] r by (auto simp: row_keys_def less_Suc_eq_0_disj)
    moreover have "i < length rows \<Longrightarrow> k \<in> set (dr_deleted (rows ! i)) \<Longrightarrow> k \<notin> set (dr_deleted row)" for i
      using index_unique [OF Suc.prems(1), of 0 k "Suc i"] r by (auto simp: row_keys_def)
    ultimately show "death_index ?w k = Some b \<longleftrightarrow> (\<exists>i < length (death_rows ?w). b = pending_number ?w + i \<and> k \<in> row_keys ?w i)"
      by (auto simp: row_keys_def)
  qed
  then have "\<exists>w'. (pop_rows n ?w :: ('x, _) result) = Ok w' \<and> index_ok w' \<and> count_insertions w' \<and> death_rows w' = drop n (death_rows ?w) \<and>
      pending_number w' = pending_number ?w + n \<and> rw_pending_canonicalizations w' = rw_pending_canonicalizations ?w \<and>
      pending_prunings w' = pending_prunings ?w"
    using Suc.prems r by (intro Suc.IH) simp_all
  moreover have "pop_rows (Suc n) w = (pop_rows n ?w :: ('x, _) result)"
    using r Suc.prems(2) by (simp add: foldl_remove)
  ultimately show ?case
    using r by simp
qed simp

lemma rw_apply_ok:
  assumes "window_ok w Ss"
  shows "\<exists>w'. (rw_apply_pending w :: ('x, _) result) = Ok w' \<and> window_ok w' Ss \<and> (window_exact w Ss \<longrightarrow> window_exact w' Ss) \<and>
    rw_pending w' = rw_pending w \<and> pending_prunings w' = 0 \<and> rw_pending_canonicalizations w' = 0 \<and>
    death_rows w' = drop (pending_prunings w) (death_rows w) \<and> pending_number w' = rw_pending w"
proof -
  let ?w = "w\<lparr>rw_pending_canonicalizations := 0\<rparr>"
  have w: "index_ok ?w" "count_insertions ?w" "pending_prunings w \<le> length (death_rows ?w)"
    using assms by (simp_all add: window_ok_def)
  obtain w' where w': "(pop_rows (pending_prunings w) ?w :: ('x, _) result) = Ok w'" "index_ok w'" "count_insertions w'"
      "death_rows w' = drop (pending_prunings w) (death_rows w)" "pending_number w' = pending_number w + pending_prunings w"
      "rw_pending_canonicalizations w' = 0"
    using pop_rows_ok [OF w] by auto
  let ?v = "w'\<lparr>pending_prunings := 0\<rparr>"
  have rows: "row_keys ?v i = row_keys w (pending_prunings w + i)" if "i < length (death_rows ?v)" for i
    using that w'(4) by (simp add: row_keys_def)
  have "row_keys ?v i \<inter> Ss ! j = {}" if "i < length (death_rows ?v)" "pending_number ?v + i < j" "j < length Ss" for i j
    using window_rows [OF assms, of "pending_prunings w + i" j] rows [OF that(1)] that w'(4,5) by (auto simp: add.assoc)
  then have "window_ok ?v Ss"
    using assms w' by (auto simp: window_ok_def)
  moreover have "window_exact ?v Ss" if "window_exact w Ss"
    using that w' rows unfolding window_exact_def by (simp add: add.assoc)
  ultimately show ?thesis
    using w' by (simp add: rw_apply_pending_def rw_pending_def)
qed

lemma rw_revert_ok:
  assumes "window_ok w Ss"
  shows "window_ok (rw_revert_pending w) (take (length Ss - rw_pending_canonicalizations w) Ss)"
    "rw_pending (rw_revert_pending w) = pending_number w" "pending_prunings (rw_revert_pending w) = 0"
    "rw_pending_canonicalizations (rw_revert_pending w) = 0" "pending_number (rw_revert_pending w) = pending_number w"
proof -
  show "rw_pending (rw_revert_pending w) = pending_number w" "pending_prunings (rw_revert_pending w) = 0"
    "rw_pending_canonicalizations (rw_revert_pending w) = 0" "pending_number (rw_revert_pending w) = pending_number w"
    by (simp_all add: rw_revert_pending_def rw_pending_def Let_def)
  let ?w = "rw_revert_pending w" and ?m = "length (death_rows w) - rw_pending_canonicalizations w"
  have r: "death_rows ?w = take ?m (death_rows w)" "length (death_rows ?w) = ?m"
    by (simp_all add: rw_revert_pending_def Let_def)
  have rows: "row_keys ?w i = row_keys w i" if "i < ?m" for i
    using that r by (simp add: row_keys_def)
  have "index_ok ?w"
    unfolding index_ok_def
  proof (intro allI)
    fix k b
    have "death_index ?w k = Some b \<longleftrightarrow> death_index w k = Some b \<and> b < ?m + pending_number w"
      using assms by (auto simp: rw_revert_pending_def window_ok_def Let_def split: option.splits)
    also have "\<dots> \<longleftrightarrow> (\<exists>i < ?m. b = pending_number w + i \<and> k \<in> row_keys w i)"
      using assms index_iff [of w k b] by (auto simp: window_ok_def)
    finally show "death_index ?w k = Some b \<longleftrightarrow> (\<exists>i < length (death_rows ?w). b = pending_number ?w + i \<and> k \<in> row_keys ?w i)"
      using rows r by (auto simp: rw_revert_pending_def Let_def)
  qed
  moreover have "row_keys ?w i \<inter> take (length Ss - rw_pending_canonicalizations w) Ss ! j = {}"
    if "i < length (death_rows ?w)" "pending_number ?w + i < j" "j < length Ss - rw_pending_canonicalizations w" for i j
    using window_rows [OF assms, of i j] rows [of i] that r(2) \<open>pending_number ?w = pending_number w\<close> by auto
  moreover have "count_insertions ?w"
    using assms by (simp add: window_ok_def rw_revert_pending_def Let_def)
  ultimately show "window_ok ?w (take (length Ss - rw_pending_canonicalizations w) Ss)"
    using assms r(2) \<open>pending_number ?w = pending_number w\<close> \<open>pending_prunings ?w = 0\<close> \<open>rw_pending_canonicalizations ?w = 0\<close>
    unfolding window_ok_def by auto
qed

end
