(* ===== verification/StateDbOverlaySafety.thy ===== *)
theory StateDbOverlaySafety
  imports StateDbPruningSafety "HOL-Library.Multiset"
begin

text \<open>
  The books of the overlay: the counter of a value is the number of times it was inserted by the blocks in the levels
  and by the discarded blocks that pins still need, and a block has a parent entry exactly as long as it is one of these.
  Discarding a subtree keeps the books and removes exactly the descendants.
\<close>

section \<open>Counters\<close>

fun entry_ok :: "nat \<Rightarrow> (nat \<times> DBValue) option \<Rightarrow> bool" where
  "entry_ok c None \<longleftrightarrow> c = 0"
| "entry_ok c (Some (n, v)) \<longleftrightarrow> n = c \<and> 0 < n"

definition vals_ok :: "'k multiset \<Rightarrow> ('k \<Rightarrow> (nat \<times> DBValue) option) \<Rightarrow> bool" where
  "vals_ok M vals \<longleftrightarrow> (\<forall>k. entry_ok (count M k) (vals k))"

lemma vals_okD: "vals_ok M vals \<Longrightarrow> entry_ok (count M k) (vals k)"
  by (simp add: vals_ok_def)

lemma vals_ok_update:
  "vals_ok M vals \<Longrightarrow> (\<And>x. x \<noteq> k \<Longrightarrow> count M' x = count M x) \<Longrightarrow> entry_ok (count M' k) e \<Longrightarrow> vals_ok M' (vals(k := e))"
  by (simp add: vals_ok_def)

lemma vals_ok_dom: "vals_ok M vals \<Longrightarrow> vals k \<noteq> None \<longleftrightarrow> k \<in># M"
  using vals_okD [of M vals k] by (cases "vals k") (auto simp: not_in_iff simp flip: count_greater_zero_iff)

lemma insert_values_ok: "vals_ok M vals \<Longrightarrow> vals_ok (M + mset (map fst ins)) (insert_values ins vals)"
proof (induction ins arbitrary: M vals)
  case (Cons kv ins)
  obtain k v where kv: "kv = (k, v)" by (cases kv)
  let ?vals = "case vals k of Some (counter, v') \<Rightarrow> vals(k \<mapsto> (counter + 1, v')) | None \<Rightarrow> vals(k \<mapsto> (1, v))"
  have "vals_ok (add_mset k M) ?vals"
    using vals_okD [OF Cons.prems, of k] by (auto split: option.split intro!: vals_ok_update [OF Cons.prems])
  then show ?case
    using Cons.IH [of "add_mset k M" ?vals] unfolding kv by simp
qed simp

lemma discard_values_ok: "vals_ok (M + mset ks) vals \<Longrightarrow> vals_ok M (discard_values ks vals)"
proof (induction ks arbitrary: vals)
  case (Cons k ks)
  let ?vals = "case vals k of
      Some (counter, v) \<Rightarrow> if dec_u32 counter = 0 then vals(k := None) else vals(k \<mapsto> (dec_u32 counter, v))
    | None \<Rightarrow> vals"
  have e: "entry_ok (Suc (count (M + mset ks) k)) (vals k)"
    using vals_okD [OF Cons.prems, of k] by simp
  have "vals_ok (M + mset ks) ?vals"
  proof (cases "vals k")
    case (Some cv)
    then show ?thesis
      using e by (cases cv) (auto simp: dec_u32_def intro!: vals_ok_update [OF Cons.prems])
  qed (use e in simp)
  then show ?case
    using Cons.IH [of ?vals] by simp
qed simp

text \<open>The values themselves: a node key determines its value.\<close>

definition content_ok :: "('k \<Rightarrow> DBValue) \<Rightarrow> ('k \<Rightarrow> (nat \<times> DBValue) option) \<Rightarrow> bool" where
  "content_ok content vals \<longleftrightarrow> (\<forall>k n v. vals k = Some (n, v) \<longrightarrow> v = content k)"

lemma insert_values_content:
  "content_ok content vals \<Longrightarrow> \<forall>(k, v) \<in> set ins. v = content k \<Longrightarrow> content_ok content (insert_values ins vals)"
proof (induction ins arbitrary: vals)
  case (Cons kv ins)
  obtain k v where kv: "kv = (k, v)" by (cases kv)
  have "content_ok content (case vals k of Some (counter, v') \<Rightarrow> vals(k \<mapsto> (counter + 1, v')) | None \<Rightarrow> vals(k \<mapsto> (1, v)))"
    using Cons.prems unfolding kv content_ok_def by (auto split: option.splits)
  then show ?case
    using Cons.IH [of "case vals k of Some (counter, v') \<Rightarrow> vals(k \<mapsto> (counter + 1, v')) | None \<Rightarrow> vals(k \<mapsto> (1, v))"]
      Cons.prems(2) unfolding kv by auto
qed simp

lemma discard_values_le: "discard_values ks vals k = Some (n, v) \<Longrightarrow> \<exists>n'. vals k = Some (n', v)"
proof (induction ks arbitrary: vals n)
  case (Cons x ks)
  from Cons.IH [OF Cons.prems [simplified]] show ?case
    by (auto split: option.splits if_splits)
qed simp

lemma discard_values_content: "content_ok content vals \<Longrightarrow> content_ok content (discard_values ks vals)"
  unfolding content_ok_def using discard_values_le by fastforce

section \<open>The books\<close>

definition level_keys :: "('h, 'k) BlockOverlay list \<Rightarrow> 'k multiset" where
  "level_keys l = (\<Sum>ov \<leftarrow> l. mset (bo_inserted ov))"

definition levels_keys :: "('h, 'k) BlockOverlay list list \<Rightarrow> 'k multiset" where
  "levels_keys ls = (\<Sum>l \<leftarrow> ls. level_keys l)"

definition pin_keys :: "('h \<Rightarrow> ('k list \<times> nat) option) \<Rightarrow> 'k multiset" where
  "pin_keys pins = (\<Sum>h \<in> dom pins. mset (fst (the (pins h))))"

definition block_hashes :: "('h, 'k) BlockOverlay list list \<Rightarrow> 'h list" where
  "block_hashes ls = map bo_hash (concat ls)"

lemma level_keys_simps [simp]: "level_keys [] = {#}" "level_keys (ov # l) = mset (bo_inserted ov) + level_keys l"
  "level_keys (l @ l') = level_keys l + level_keys l'"
  by (simp_all add: level_keys_def)

lemma levels_keys_simps [simp]: "levels_keys [] = {#}" "levels_keys (l # ls) = level_keys l + levels_keys ls"
  "levels_keys (ls @ ls') = levels_keys ls + levels_keys ls'"
  by (simp_all add: levels_keys_def)

lemma block_hashes_simps [simp]: "block_hashes [] = []" "block_hashes (l # ls) = map bo_hash l @ block_hashes ls" "block_hashes (ls @ ls') = block_hashes ls @ block_hashes ls'"
  by (simp_all add: block_hashes_def)

lemma pin_keys_insert: "finite (dom pins) \<Longrightarrow> pins h = None \<Longrightarrow> pin_keys (pins(h \<mapsto> (ins, n))) = mset ins + pin_keys pins"
proof -
  assume f: "finite (dom pins)" "pins h = None"
  have "(\<Sum>x \<in> dom pins. mset (fst (the ((pins(h \<mapsto> (ins, n))) x)))) = pin_keys pins"
    unfolding pin_keys_def by (rule sum.cong) (use f(2) in auto)
  then show ?thesis
    using f by (simp add: pin_keys_def domIff)
qed

lemma pin_keys_remove: "finite (dom pins) \<Longrightarrow> pins h = Some (ins, n) \<Longrightarrow> pin_keys pins = mset ins + pin_keys (pins(h := None))"
proof -
  assume f: "finite (dom pins)" "pins h = Some (ins, n)"
  have "(\<Sum>x \<in> dom pins - {h}. mset (fst (the ((pins(h := None)) x)))) = (\<Sum>x \<in> dom pins - {h}. mset (fst (the (pins x))))"
    by (rule sum.cong) auto
  then show ?thesis
    using f sum.remove [of "dom pins" h "\<lambda>x. mset (fst (the (pins x)))"] by (simp add: pin_keys_def domI)
qed

lemma pin_keys_counter: "pins h = Some (ins, n) \<Longrightarrow> pin_keys (pins(h \<mapsto> (ins, m))) = pin_keys pins"
  unfolding pin_keys_def by (rule sum.cong) (auto simp: insert_absorb domI)

text \<open>
  \<open>F\<close> and \<open>FH\<close> are the insertions and the blocks of the part of the overlay that an operation on the levels \<open>ls\<close> does
  not touch.
\<close>

definition balanced :: "'k multiset \<Rightarrow> 'h set \<Rightarrow> ('h, 'k) BlockOverlay list list \<Rightarrow> ('h, 'k) discard_state \<Rightarrow> bool" where
  "balanced F FH ls ds \<longleftrightarrow>
     vals_ok (F + levels_keys ls + pin_keys (ds_pins ds)) (ds_values ds) \<and>
     finite (dom (ds_pins ds)) \<and> (\<forall>h ins n. ds_pins ds h = Some (ins, n) \<longrightarrow> 0 < n) \<and>
     distinct (block_hashes ls) \<and> set (block_hashes ls) \<inter> dom (ds_pins ds) = {} \<and>
     FH \<inter> (set (block_hashes ls) \<union> dom (ds_pins ds)) = {} \<and>
     dom (ds_parents ds) = FH \<union> set (block_hashes ls) \<union> dom (ds_pins ds)"

text \<open>A block may be seen as part of the levels or of the rest.\<close>

lemma balanced_frame:
  "balanced F FH ((ov # l) # ls) ds \<longleftrightarrow>
     balanced (F + mset (bo_inserted ov)) (insert (bo_hash ov) FH) (l # ls) ds \<and> bo_hash ov \<notin> FH"
  unfolding balanced_def by (auto simp: ac_simps)

lemma balanced_frame_level:
  "balanced F FH (l # ls) ds \<longleftrightarrow>
     balanced (F + level_keys l) (set (map bo_hash l) \<union> FH) ls ds \<and> distinct (map bo_hash l) \<and> set (map bo_hash l) \<inter> FH = {}"
proof (induction l arbitrary: F FH)
  case Nil
  then show ?case
    by (simp add: balanced_def)
next
  case (Cons ov l)
  show ?case
    unfolding balanced_frame Cons.IH by (auto simp: ac_simps)
qed

text \<open>Discarding forgets parents and values but changes none.\<close>

definition shrinks :: "('h, 'k) discard_state \<Rightarrow> ('h, 'k) discard_state \<Rightarrow> bool" where
  "shrinks ds' ds \<longleftrightarrow> ds_parents ds' \<subseteq>\<^sub>m ds_parents ds \<and>
     (\<forall>k n v. ds_values ds' k = Some (n, v) \<longrightarrow> (\<exists>n'. ds_values ds k = Some (n', v)))"

lemma shrinks_refl [simp]: "shrinks ds ds"
  by (simp add: shrinks_def)

lemma shrinks_trans: "shrinks ds2 ds1 \<Longrightarrow> shrinks ds1 ds \<Longrightarrow> shrinks ds2 ds"
  unfolding shrinks_def by (meson map_le_trans)

lemma drop_block_ok:
  assumes "balanced (F + mset (bo_inserted ov)) (insert (bo_hash ov) FH) ls ds" "bo_hash ov \<notin> FH"
  shows "balanced F FH ls (drop_block ov n ds)" "shrinks (drop_block ov n ds) ds"
proof -
  note b = assms(1) [unfolded balanced_def]
  have h: "ds_pins ds (bo_hash ov) = None" "bo_hash ov \<notin> set (block_hashes ls)" "finite (dom (ds_pins ds))"
    using b by auto
  show "shrinks (drop_block ov n ds) ds"
    by (auto simp: drop_block_def shrinks_def map_le_def dest: discard_values_le)
  show "balanced F FH ls (drop_block ov n ds)"
  proof (cases "n = 0")
    case True
    then have v: "vals_ok (F + levels_keys ls + pin_keys (ds_pins ds)) (discard_values (bo_inserted ov) (ds_values ds))"
      using b by (intro discard_values_ok) (simp add: ac_simps)
    have "dom ((ds_parents ds)(bo_hash ov := None)) = FH \<union> set (block_hashes ls) \<union> dom (ds_pins ds)"
      using b h assms(2) by auto
    then show ?thesis
      using True b v by (simp add: drop_block_def balanced_def)
  next
    case False
    then have "vals_ok (F + levels_keys ls + pin_keys ((ds_pins ds)(bo_hash ov \<mapsto> (bo_inserted ov, n)))) (ds_values ds)"
      using b h by (simp add: pin_keys_insert ac_simps)
    moreover have "dom (ds_parents ds) = FH \<union> set (block_hashes ls) \<union> insert (bo_hash ov) (dom (ds_pins ds))"
      using b by auto
    ultimately show ?thesis
      using False b h assms(2) by (auto simp: drop_block_def balanced_def)
  qed
qed

section \<open>Discarding a subtree\<close>

text \<open>
  What should remain when all descendants of the blocks \<open>H\<close> leave the levels: level by level, the blocks whose parent
  is not one of those that left.
\<close>

definition is_child :: "('h \<Rightarrow> 'h option) \<Rightarrow> 'h set \<Rightarrow> ('h, 'k) BlockOverlay \<Rightarrow> bool" where
  "is_child P H ov \<longleftrightarrow> (\<exists>p \<in> H. P (bo_hash ov) = Some p)"

fun without_descendants :: "('h \<Rightarrow> 'h option) \<Rightarrow> 'h set \<Rightarrow> ('h, 'k) BlockOverlay list list \<Rightarrow> ('h, 'k) BlockOverlay list list" where
  "without_descendants P H [] = []"
| "without_descendants P H (l # ls) =
     filter (\<lambda>ov. \<not> is_child P H ov) l # without_descendants P (bo_hash ` {ov \<in> set l. is_child P H ov}) ls"

lemma is_child_simps [simp]: "\<not> is_child P {} ov" "is_child P (H \<union> H') ov \<longleftrightarrow> is_child P H ov \<or> is_child P H' ov"
  by (auto simp: is_child_def)

lemma without_descendants_empty [simp]: "without_descendants P {} ls = ls"
  by (induction ls) auto

lemma length_without_descendants [simp]: "length (without_descendants P H ls) = length ls"
  by (induction ls arbitrary: H) auto

lemma without_descendants_Un:
  "without_descendants P H' (without_descendants P H ls) = without_descendants P (H \<union> H') ls"
proof (induction ls arbitrary: H H')
  case (Cons l ls)
  have "bo_hash ` {ov \<in> set l. is_child P H ov} \<union> bo_hash ` {ov \<in> set (filter (\<lambda>ov. \<not> is_child P H ov) l). is_child P H' ov}
      = bo_hash ` {ov \<in> set l. is_child P (H \<union> H') ov}"
    by auto
  then show ?case
    using Cons.IH by (simp add: conj_commute)
qed simp

lemma without_descendants_cong:
  "(\<And>h. h \<in> set (block_hashes ls) \<Longrightarrow> P h = P' h) \<Longrightarrow> without_descendants P H ls = without_descendants P' H ls"
proof (induction ls arbitrary: H)
  case (Cons l ls)
  have "is_child P H ov = is_child P' H ov" if "ov \<in> set l" for ov
    using Cons.prems [of "bo_hash ov"] that by (simp add: is_child_def)
  then have "filter (\<lambda>ov. \<not> is_child P H ov) l = filter (\<lambda>ov. \<not> is_child P' H ov) l"
    "{ov \<in> set l. is_child P H ov} = {ov \<in> set l. is_child P' H ov}"
    by (auto cong: filter_cong)
  then show ?case
    using Cons by simp
qed simp

lemma hashes_without_descendants: "set (block_hashes (without_descendants P H ls)) \<subseteq> set (block_hashes ls)"
proof (induction ls arbitrary: H)
  case (Cons l ls)
  then show ?case
    by fastforce
qed simp

text \<open>
  The specification of \<open>discard_descendants\<close>: on balanced books it does not panic, keeps them balanced, and leaves the
  levels without the descendants of the block.
\<close>

definition discards ::
    "('h \<Rightarrow> ('h, 'k) BlockOverlay list list \<Rightarrow> ('h, 'k) discard_state \<Rightarrow>
        ('x, ('h, 'k) BlockOverlay list list \<times> ('h, 'k) discard_state \<times> nat) result) \<Rightarrow>
     ('h, 'k) BlockOverlay list list \<Rightarrow> bool" where
  "discards rec ls \<longleftrightarrow> (\<forall>F FH h ls' ds. length ls' = length ls \<longrightarrow> balanced F FH ls' ds \<longrightarrow>
     (\<exists>ds' n. rec h ls' ds = Ok (without_descendants (ds_parents ds) {h} ls', ds', n) \<and>
        balanced F FH (without_descendants (ds_parents ds) {h} ls') ds' \<and> shrinks ds' ds))"

lemma discardsE:
  assumes "discards rec ls" "length ls' = length ls" "balanced F FH ls' ds"
  obtains ds' n where "rec h ls' ds = Ok (without_descendants (ds_parents ds) {h} ls', ds', n)"
    "balanced F FH (without_descendants (ds_parents ds) {h} ls') ds'" "shrinks ds' ds"
  using assms unfolding discards_def by blast

lemma balanced_parent: "balanced F FH ls ds \<Longrightarrow> h \<in> set (block_hashes ls) \<union> FH \<Longrightarrow> \<exists>p. ds_parents ds h = Some p"
  unfolding balanced_def by blast

lemma balanced_agree:
  "balanced F FH ls ds' \<Longrightarrow> shrinks ds' ds \<Longrightarrow> h \<in> set (block_hashes ls) \<union> FH \<Longrightarrow> ds_parents ds' h = ds_parents ds h"
  using balanced_parent [of F FH ls ds' h] by (auto simp: shrinks_def map_le_def)

lemma discard_level_ok:
  assumes "discards rec ls"
  shows "balanced F FH (ovs # ls') ds \<Longrightarrow> length ls' = length ls \<Longrightarrow>
    \<exists>ds' n. discard_level rec pinned h ovs ls' ds =
        Ok (filter (\<lambda>ov. \<not> is_child (ds_parents ds) {h} ov) ovs,
            without_descendants (ds_parents ds) (bo_hash ` {ov \<in> set ovs. is_child (ds_parents ds) {h} ov}) ls', ds', n) \<and>
      balanced F FH (without_descendants (ds_parents ds) {h} (ovs # ls')) ds' \<and> shrinks ds' ds"
proof (induction ovs arbitrary: F FH ls' ds)
  case Nil
  then show ?case
    by simp
next
  case (Cons ov ovs)
  obtain p where p: "ds_parents ds (bo_hash ov) = Some p"
    using balanced_parent [OF Cons.prems(1)] by force
  note fr = Cons.prems(1) [unfolded balanced_frame]
  let ?P = "ds_parents ds" and ?H = "bo_hash ` {ov \<in> set ovs. is_child (ds_parents ds) {h} ov}"
  show ?case
  proof (cases "p = h")
    case False
    then have nc: "\<not> is_child ?P {h} ov"
      using p by (simp add: is_child_def)
    have "{o' \<in> set (ov # ovs). is_child ?P {h} o'} = {o' \<in> set ovs. is_child ?P {h} o'}"
      using nc by auto
    then show ?thesis
      using Cons.IH [OF conjunct1 [OF fr] Cons.prems(2)] False p nc fr by (auto simp: balanced_frame)
  next
    case True
    then have c: "is_child ?P {h} ov"
      using p by (simp add: is_child_def)
    have "{o' \<in> set (ov # ovs). is_child ?P {h} o'} = insert ov {o' \<in> set ovs. is_child ?P {h} o'}"
      using c by auto
    then have H: "bo_hash ` {o' \<in> set (ov # ovs). is_child ?P {h} o'} = {bo_hash ov} \<union> ?H"
      by simp
    note fr2 = conjunct1 [OF fr, unfolded balanced_frame_level]
    obtain ds1 n1 where r: "rec (bo_hash ov) ls' ds = Ok (without_descendants ?P {bo_hash ov} ls', ds1, n1)"
      and b1: "balanced (F + mset (bo_inserted ov) + level_keys ovs) (set (map bo_hash ovs) \<union> insert (bo_hash ov) FH)
                 (without_descendants ?P {bo_hash ov} ls') ds1"
      and m1: "shrinks ds1 ds"
      by (rule discardsE [OF assms Cons.prems(2) conjunct1 [OF fr2]])
    let ?ls1 = "without_descendants ?P {bo_hash ov} ls'"
    let ?n = "if pinned (bo_hash ov) \<noteq> None then n1 + 1 else n1"
    have b2: "balanced (F + mset (bo_inserted ov)) (insert (bo_hash ov) FH) (ovs # ?ls1) ds1"
      unfolding balanced_frame_level using b1 fr2 by blast
    let ?ds2 = "drop_block ov ?n ds1"
    have b3: "balanced F FH (ovs # ?ls1) ?ds2" and m2: "shrinks ?ds2 ds"
      using drop_block_ok [OF b2, of ?n] fr m1 by (auto intro: shrinks_trans)
    have agree: "ds_parents ?ds2 x = ?P x" if "x \<in> set (block_hashes (ovs # ?ls1))" for x
      using balanced_agree [OF b3 m2] that by blast
    have ch: "is_child (ds_parents ?ds2) {h} o' = is_child ?P {h} o'" if "o' \<in> set ovs" for o'
      using agree [of "bo_hash o'"] that by (simp add: is_child_def)
    have f: "filter (\<lambda>ov. \<not> is_child (ds_parents ?ds2) {h} ov) ovs = filter (\<lambda>ov. \<not> is_child ?P {h} ov) ovs"
      "{ov \<in> set ovs. is_child (ds_parents ?ds2) {h} ov} = {ov \<in> set ovs. is_child ?P {h} ov}"
      using ch by (auto cong: filter_cong)
    have w: "without_descendants (ds_parents ?ds2) ?H ?ls1 = without_descendants ?P ({bo_hash ov} \<union> ?H) ls'"
      using without_descendants_cong [of ?ls1 "ds_parents ?ds2" ?P ?H] agree by (simp add: without_descendants_Un)
    obtain ds3 n3 where "discard_level rec pinned h ovs ?ls1 ?ds2 =
          Ok (filter (\<lambda>ov. \<not> is_child ?P {h} ov) ovs, without_descendants ?P ({bo_hash ov} \<union> ?H) ls', ds3, n3)"
      "balanced F FH (filter (\<lambda>ov. \<not> is_child ?P {h} ov) ovs # without_descendants ?P ({bo_hash ov} \<union> ?H) ls') ds3"
      "shrinks ds3 ?ds2"
      using Cons.IH [OF b3] Cons.prems(2) unfolding f without_descendants.simps w by auto
    then show ?thesis
      unfolding without_descendants.simps H using p True r c m2 by (auto simp: Let_def intro: shrinks_trans)
  qed
qed

lemma discard_depth_ok: "length ls \<le> d \<Longrightarrow> discards (discard_depth d pinned :: _ \<Rightarrow> _ \<Rightarrow> _ \<Rightarrow> ('x, _) result) ls"
proof (induction d arbitrary: ls)
  case 0
  then show ?case
    by (simp add: discards_def)
next
  case (Suc d)
  show ?case
  proof (cases ls)
    case Nil
    then show ?thesis
      by (simp add: discards_def)
  next
    case (Cons l ls1)
    then have r: "discards (discard_depth d pinned :: _ \<Rightarrow> _ \<Rightarrow> _ \<Rightarrow> ('x, _) result) ls1"
      using Suc by simp
    show ?thesis
      unfolding discards_def
    proof (intro allI impI)
      fix F FH h ls' and ds :: "('a, 'b) discard_state"
      assume "length ls' = length ls" "balanced F FH ls' ds"
      then obtain l' ls'' where l: "ls' = l' # ls''" "length ls'' = length ls1" "balanced F FH (l' # ls'') ds"
        unfolding Cons by (cases ls') auto
      show "\<exists>ds' n. (discard_depth (Suc d) pinned h ls' ds :: ('x, _) result) = Ok (without_descendants (ds_parents ds) {h} ls', ds', n) \<and>
        balanced F FH (without_descendants (ds_parents ds) {h} ls') ds' \<and> shrinks ds' ds"
        using discard_level_ok [OF r l(3) l(2), where pinned = pinned and h = h] unfolding l(1) by auto
    qed
  qed
qed

lemma discard_descendants_ok:
  assumes "balanced F FH ls ds"
  obtains ds' n where "(discard_descendants pinned h ls ds :: ('x, _) result) = Ok (without_descendants (ds_parents ds) {h} ls, ds', n)"
    "balanced F FH (without_descendants (ds_parents ds) {h} ls) ds'" "shrinks ds' ds"
  unfolding discard_descendants_def by (rule discardsE [OF discard_depth_ok [OF order.refl] refl assms])

section \<open>Canonicalizing\<close>

text \<open>Every block of a level has its parent in the level before, and those of the first level in \<open>B\<close>.\<close>

fun linked :: "('h \<Rightarrow> 'h option) \<Rightarrow> 'h set \<Rightarrow> ('h, 'k) BlockOverlay list list \<Rightarrow> bool" where
  "linked P B [] \<longleftrightarrow> True"
| "linked P B (l # ls) \<longleftrightarrow> (\<forall>ov \<in> set l. is_child P B ov) \<and> linked P (bo_hash ` set l) ls"

lemma is_child_mono: "B \<subseteq> B' \<Longrightarrow> is_child P B ov \<Longrightarrow> is_child P B' ov"
  by (auto simp: is_child_def)

lemma linked_mono: "B \<subseteq> B' \<Longrightarrow> linked P B ls \<Longrightarrow> linked P B' ls"
  by (cases ls) (auto intro: is_child_mono)

lemma linked_cong: "(\<And>h. h \<in> set (block_hashes ls) \<Longrightarrow> P h = P' h) \<Longrightarrow> linked P B ls = linked P' B ls"
proof (induction ls arbitrary: B)
  case (Cons l ls)
  have "is_child P B ov = is_child P' B ov" if "ov \<in> set l" for ov
    using Cons.prems [of "bo_hash ov"] that by (simp add: is_child_def)
  then show ?case
    using Cons by simp
qed simp

lemma linked_append: "linked P B (ls @ ls') \<Longrightarrow> linked P B ls"
  by (induction ls arbitrary: B) auto

lemma linked_without: "linked P B ls \<Longrightarrow> linked P (B - H) (without_descendants P H ls)"
proof (induction ls arbitrary: B H)
  case (Cons l ls)
  let ?H = "bo_hash ` {ov \<in> set l. is_child P H ov}"
  have "is_child P (B - H) ov" if "ov \<in> set l" "\<not> is_child P H ov" for ov
    using Cons.prems that unfolding linked.simps is_child_def by blast
  moreover have "linked P (bo_hash ` set (filter (\<lambda>ov. \<not> is_child P H ov) l)) (without_descendants P ?H ls)"
    by (rule linked_mono [OF _ Cons.IH [of "bo_hash ` set l" ?H]]) (use Cons.prems in auto)
  ultimately show ?case
    by simp
qed simp

text \<open>The blocks that are pending canonicalization, one of each level, each the parent of the next.\<close>

fun path_ok :: "('h \<Rightarrow> 'h option) \<Rightarrow> 'h \<Rightarrow> ('h, 'k) BlockOverlay list list \<Rightarrow> 'h list \<Rightarrow> bool" where
  "path_ok P b ls [] \<longleftrightarrow> True"
| "path_ok P b [] (h # hs) \<longleftrightarrow> False"
| "path_ok P b (l # ls) (h # hs) \<longleftrightarrow> h \<in> bo_hash ` set l \<and> P h = Some b \<and> path_ok P h ls hs"

lemma path_ok_length: "path_ok P b ls hs \<Longrightarrow> length hs \<le> length ls"
  by (induction P b ls hs rule: path_ok.induct) auto

lemma path_ok_cong: "(\<And>h. h \<in> set (block_hashes ls) \<Longrightarrow> P h = P' h) \<Longrightarrow> path_ok P b ls hs = path_ok P' b ls hs"
proof (induction P b ls hs rule: path_ok.induct)
  case (3 P b l ls h hs)
  have "h \<in> bo_hash ` set l \<Longrightarrow> P h = P' h"
    using 3(2) by auto
  then show ?case
    using 3 by auto
qed auto

lemma path_ok_without: "path_ok P b ls hs \<Longrightarrow> b \<notin> H \<Longrightarrow> path_ok P b (without_descendants P H ls) hs"
proof (induction P b ls hs arbitrary: H rule: path_ok.induct)
  case (3 P b l ls h hs)
  then obtain ov where ov: "ov \<in> set l" "h = bo_hash ov" "P h = Some b" "path_ok P h ls hs"
    by auto
  have "\<not> is_child P H ov" "h \<notin> bo_hash ` {ov \<in> set l. is_child P H ov}"
    using ov 3(3) by (auto simp: is_child_def)
  then show ?case
    using 3(1) ov by auto
qed auto

lemma path_ok_snoc:
  "path_ok P b ls (hs @ [h]) \<longleftrightarrow>
     path_ok P b ls hs \<and> length hs < length ls \<and> h \<in> bo_hash ` set (ls ! length hs) \<and> P h = Some (last (b # hs))"
proof (induction P b ls hs rule: path_ok.induct)
  case (1 P b ls)
  show ?case
    by (cases ls) auto
qed auto

text \<open>The \<open>n\<close>-th ancestor of a block.\<close>

fun ancestor :: "('h \<Rightarrow> 'h option) \<Rightarrow> nat \<Rightarrow> 'h \<Rightarrow> 'h option" where
  "ancestor P 0 x = Some x"
| "ancestor P (Suc n) x = Option.bind (ancestor P n x) P"

lemma ancestor_above:
  "linked P B ls \<Longrightarrow> i < length ls \<Longrightarrow> ov \<in> set (ls ! i) \<Longrightarrow> \<exists>b \<in> B. ancestor P (Suc i) (bo_hash ov) = Some b"
proof (induction ls arbitrary: B i)
  case (Cons l ls)
  show ?case
  proof (cases i)
    case 0
    then show ?thesis
      using Cons.prems by (auto simp: is_child_def)
  next
    case (Suc j)
    then obtain q where "q \<in> bo_hash ` set l" "ancestor P (Suc j) (bo_hash ov) = Some q"
      using Cons.IH [of "bo_hash ` set l" j] Cons.prems by auto
    then show ?thesis
      using Cons.prems Suc by (auto simp: is_child_def)
  qed
qed simp

lemma without_descendants_nth:
  "linked P B ls \<Longrightarrow> i < length ls \<Longrightarrow>
     without_descendants P H ls ! i = filter (\<lambda>ov. ancestor P (Suc i) (bo_hash ov) \<notin> Some ` H) (ls ! i)"
proof (induction ls arbitrary: B H i)
  case (Cons l ls)
  show ?case
  proof (cases i)
    case 0
    then show ?thesis
      by (auto simp: is_child_def intro!: filter_cong)
  next
    case (Suc j)
    let ?H = "bo_hash ` {ov \<in> set l. is_child P H ov}"
    have "ancestor P (Suc j) (bo_hash ov) \<in> Some ` ?H \<longleftrightarrow> ancestor P (Suc i) (bo_hash ov) \<in> Some ` H" if ov: "ov \<in> set (ls ! j)" for ov
    proof -
      obtain o' where "o' \<in> set l" "ancestor P (Suc j) (bo_hash ov) = Some (bo_hash o')"
        using ancestor_above [of P "bo_hash ` set l" ls j ov] Cons.prems ov Suc by auto
      then show ?thesis
        using Suc by (auto simp: is_child_def)
    qed
    then have "filter (\<lambda>ov. ancestor P (Suc j) (bo_hash ov) \<notin> Some ` ?H) (ls ! j) =
        filter (\<lambda>ov. ancestor P (Suc i) (bo_hash ov) \<notin> Some ` H) (ls ! j)"
      by (intro filter_cong) auto
    then show ?thesis
      using Cons.IH [of "bo_hash ` set l" j ?H] Cons.prems Suc by simp
  qed
qed simp

fun siblings :: "nat \<Rightarrow> nat \<Rightarrow> ('h, 'k) BlockOverlay list \<Rightarrow> 'h set" where
  "siblings index i [] = {}"
| "siblings index i (ov # ovs) = (if i \<noteq> index then {bo_hash ov} else {}) \<union> siblings index (Suc i) ovs"

lemma siblings_all: "index < i \<Longrightarrow> siblings index i ovs = bo_hash ` set ovs"
  by (induction ovs arbitrary: i) auto

lemma siblings_position:
  "find_position (\<lambda>ov. bo_hash ov = h) ovs = Some p \<Longrightarrow> distinct (map bo_hash ovs) \<Longrightarrow>
     siblings (i + p) i ovs = bo_hash ` set ovs - {h}"
proof (induction ovs arbitrary: i p)
  case (Cons ov ovs)
  show ?case
  proof (cases "bo_hash ov = h")
    case True
    then show ?thesis
      using Cons.prems by (auto simp: siblings_all)
  next
    case False
    then obtain q where "find_position (\<lambda>ov. bo_hash ov = h) ovs = Some q" "p = Suc q"
      using Cons.prems by auto
    then show ?thesis
      using Cons.IH [of q "Suc i"] Cons.prems False by auto
  qed
qed simp

lemma find_position_None: "find_position P xs = None \<longleftrightarrow> (\<forall>x \<in> set xs. \<not> P x)"
  by (induction xs) auto

lemma find_position_Some: "find_position P xs = Some i \<Longrightarrow> i < length xs \<and> P (xs ! i)"
  by (induction xs arbitrary: i) (auto split: if_splits)

lemma discard_siblings_ok:
  "balanced F FH (ovs # ls) ds \<Longrightarrow>
     \<exists>ds'. (discard_siblings pinned index i ovs ls ds :: ('x, _) result) =
             Ok (without_descendants (ds_parents ds) (siblings index i ovs) ls, ds') \<and>
           balanced F FH (without_descendants (ds_parents ds) (siblings index i ovs) ls) ds' \<and>
           shrinks ds' ds"
proof (induction ovs arbitrary: ls ds i)
  case Nil
  then show ?case
    by (simp add: balanced_def)
next
  case (Cons ov ovs)
  note fr = Cons.prems [unfolded balanced_frame]
  note fr2 = conjunct1 [OF fr, unfolded balanced_frame_level]
  let ?P = "ds_parents ds" and ?H = "if i \<noteq> index then {bo_hash ov} else {}"
  let ?ls1 = "without_descendants ?P ?H ls"
  obtain dsa na where a: "(discard_descendants pinned (bo_hash ov) ls ds :: ('x, _) result) =
        Ok (without_descendants ?P {bo_hash ov} ls, dsa, na)"
    "balanced (F + mset (bo_inserted ov) + level_keys ovs) (set (map bo_hash ovs) \<union> insert (bo_hash ov) FH)
       (without_descendants ?P {bo_hash ov} ls) dsa"
    "shrinks dsa ds"
    by (rule discard_descendants_ok [OF conjunct1 [OF fr2]])
  obtain ds1 n1 where r: "(if i \<noteq> index then discard_descendants pinned (bo_hash ov) ls ds else Ok (ls, ds, 0) :: ('x, _) result)
        = Ok (?ls1, ds1, n1)"
    and b1: "balanced (F + mset (bo_inserted ov) + level_keys ovs) (set (map bo_hash ovs) \<union> insert (bo_hash ov) FH) ?ls1 ds1"
    and m1: "shrinks ds1 ds"
    using conjunct1 [OF fr2] a by (cases "i = index") auto
  let ?n = "if pinned (bo_hash ov) \<noteq> None then n1 + 1 else n1"
  let ?ds2 = "drop_block ov ?n ds1"
  have b2: "balanced (F + mset (bo_inserted ov)) (insert (bo_hash ov) FH) (ovs # ?ls1) ds1"
    unfolding balanced_frame_level using b1 fr2 by blast
  have b3: "balanced F FH (ovs # ?ls1) ?ds2" and m2: "shrinks ?ds2 ds"
    using drop_block_ok [OF b2, of ?n] fr m1 by (auto intro: shrinks_trans)
  have "ds_parents ?ds2 x = ?P x" if "x \<in> set (block_hashes ?ls1)" for x
    using balanced_agree [OF b3 m2] that by simp
  then have w: "without_descendants (ds_parents ?ds2) (siblings index (Suc i) ovs) ?ls1 =
      without_descendants ?P (siblings index i (ov # ovs)) ls"
    using without_descendants_cong [of ?ls1 "ds_parents ?ds2" ?P] by (simp add: without_descendants_Un)
  show ?case
    using Cons.IH [OF b3, of "Suc i"] r m2 unfolding w discard_siblings.simps by (auto intro: shrinks_trans)
qed

end
