(* ===== verification/StateDbOverlayInvariant.thy ===== *)
theory StateDbOverlayInvariant
  imports StateDbOverlaySafety
begin

text \<open>
  The invariant of the overlay and that every operation keeps it: the books are balanced, every block has its parent in
  the level before, the values are those of the node keys, the blocks pending canonicalization form a path, and the
  pending insertions can be taken back.
\<close>

section \<open>Applying canonicalizations\<close>

fun below :: "('h \<Rightarrow> 'h option) \<Rightarrow> ('h, 'k) BlockOverlay list list \<Rightarrow> 'h list \<Rightarrow> ('h, 'k) BlockOverlay list list" where
  "below P ls [] = ls"
| "below P [] (h # hs) = []"
| "below P (l # ls) (h # hs) = below P (without_descendants P (bo_hash ` set l - {h}) ls) hs"

lemma below_cong: "(\<And>h. h \<in> set (block_hashes ls) \<Longrightarrow> P h = P' h) \<Longrightarrow> below P ls hs = below P' ls hs"
proof (induction P ls hs rule: below.induct)
  case (3 P l ls h hs)
  have "without_descendants P (bo_hash ` set l - {h}) ls = without_descendants P' (bo_hash ` set l - {h}) ls"
    by (rule without_descendants_cong) (simp add: 3(2))
  moreover have "P x = P' x" if "x \<in> set (block_hashes (without_descendants P (bo_hash ` set l - {h}) ls))" for x
    using hashes_without_descendants [of P _ ls] that 3(2) by auto
  ultimately show ?case
    using 3(1) by simp
qed auto

lemma length_below [simp]: "length (below P ls hs) = length ls - length hs"
  by (induction P ls hs rule: below.induct) auto

lemma apply_hashes_ok:
  "balanced F FH ls ds \<Longrightarrow> linked (ds_parents ds) {b} ls \<Longrightarrow> path_ok (ds_parents ds) b ls hs \<Longrightarrow>
     \<exists>ds'. (apply_hashes pinned hs ls ds :: ('x, _) result) = Ok (below (ds_parents ds) ls hs, ds') \<and>
       balanced F FH (below (ds_parents ds) ls hs) ds' \<and> linked (ds_parents ds') {last (b # hs)} (below (ds_parents ds) ls hs) \<and>
       shrinks ds' ds"
proof (induction hs arbitrary: b ls ds)
  case (Cons h hs)
  let ?P = "ds_parents ds"
  obtain l rest where ls: "ls = l # rest" "h \<in> bo_hash ` set l" "path_ok ?P h rest hs"
    using Cons.prems(3) by (cases ls) auto
  then obtain i where i: "find_position (\<lambda>ov. bo_hash ov = h) l = Some i"
    using find_position_None [of "\<lambda>ov. bo_hash ov = h" l] by auto
  have d: "distinct (map bo_hash l)"
    using Cons.prems(1) by (auto simp: ls balanced_def)
  let ?H = "bo_hash ` set l - {h}"
  let ?ls = "without_descendants ?P ?H rest"
  obtain ds1 where r: "(discard_siblings pinned i 0 l rest ds :: ('x, _) result) = Ok (?ls, ds1)"
    and b1: "balanced F FH ?ls ds1" and m1: "shrinks ds1 ds"
    using discard_siblings_ok [OF Cons.prems(1) [unfolded ls], of pinned i 0, where ?'x = 'x] siblings_position [OF i d, of 0]
    by auto
  have agree: "ds_parents ds1 x = ?P x" if "x \<in> set (block_hashes ?ls)" for x
    using balanced_agree [OF b1 m1] that by simp
  have "linked ?P (bo_hash ` set l - ?H) ?ls"
    using Cons.prems(2) by (intro linked_without) (simp add: ls)
  then have lk: "linked (ds_parents ds1) {h} ?ls"
    using linked_mono [of "bo_hash ` set l - ?H" "{h}"] linked_cong [of ?ls "ds_parents ds1" ?P] agree by auto
  have pk: "path_ok (ds_parents ds1) h ?ls hs"
    using path_ok_without [OF ls(3), of ?H] path_ok_cong [of ?ls "ds_parents ds1" ?P] agree by auto
  have w: "below (ds_parents ds1) ?ls hs = below ?P (l # rest) (h # hs)"
    using below_cong [of ?ls "ds_parents ds1" ?P] agree by simp
  show ?case
    using Cons.IH [OF b1 lk pk] i r m1 unfolding w ls(1) by (auto intro: shrinks_trans)
qed simp

lemma ancestor_add: "ancestor P (m + n) x = Option.bind (ancestor P n x) (ancestor P m)"
  by (induction m) (auto simp: Option.bind_assoc intro!: Option.bind_cong)

lemma ancestor_path: "path_ok P b ls hs \<Longrightarrow> ancestor P (length hs) (last (b # hs)) = Some b"
proof (induction P b ls hs rule: path_ok.induct)
  case (3 P b l ls h hs)
  then have "ancestor P (length hs) (last (h # hs)) = Some h" "P h = Some b"
    by auto
  then show ?case
    by simp
qed auto

text \<open>Exactly the blocks that descend from the last canonical block remain, generation by generation.\<close>

lemma below_nth:
  "linked P {b} ls \<Longrightarrow> path_ok P b ls hs \<Longrightarrow> hs \<noteq> [] \<Longrightarrow> length hs + i < length ls \<Longrightarrow>
     below P ls hs ! i = filter (\<lambda>ov. ancestor P (Suc i) (bo_hash ov) = Some (last hs)) (ls ! (length hs + i))"
proof (induction hs arbitrary: b ls)
  case (Cons h hs)
  obtain l rest where ls: "ls = l # rest" "h \<in> bo_hash ` set l" "path_ok P h rest hs" "linked P (bo_hash ` set l) rest"
    using Cons.prems(1,2) by (cases ls) auto
  let ?H = "bo_hash ` set l - {h}"
  let ?ls = "without_descendants P ?H rest"
  have nth: "?ls ! j = filter (\<lambda>ov. ancestor P (Suc j) (bo_hash ov) = Some h) (rest ! j)" if j: "j < length rest" for j
  proof -
    have "ancestor P (Suc j) (bo_hash ov) \<notin> Some ` ?H \<longleftrightarrow> ancestor P (Suc j) (bo_hash ov) = Some h" if "ov \<in> set (rest ! j)" for ov
      using ancestor_above [OF ls(4) j that] ls(2) by auto
    then show ?thesis
      unfolding without_descendants_nth [OF ls(4) j] by (intro filter_cong) auto
  qed
  show ?case
  proof (cases "hs = []")
    case True
    then show ?thesis
      using nth [of i] Cons.prems(4) by (simp add: ls(1))
  next
    case False
    have lk: "linked P {h} ?ls"
      using linked_mono [OF _ linked_without [OF ls(4), of ?H], of "{h}"] by auto
    have pk: "path_ok P h ?ls hs"
      by (rule path_ok_without [OF ls(3)]) simp
    have len: "length hs + i < length rest"
      using Cons.prems(4) by (simp add: ls(1))
    have sub: "ancestor P (Suc (length hs + i)) (bo_hash ov) = Some h"
      if "ov \<in> set (rest ! (length hs + i))" "ancestor P (Suc i) (bo_hash ov) = Some (last hs)" for ov
      using that(2) ancestor_path [OF ls(3)] False ancestor_add [of P "length hs" "Suc i" "bo_hash ov"] by simp
    show ?thesis
      using Cons.IH [OF lk pk False] len nth [OF len] False sub unfolding ls(1) by (auto intro!: filter_cong)
  qed
qed simp

section \<open>Pushing a block and taking it back\<close>

fun push :: "nat \<Rightarrow> ('h, 'k) BlockOverlay \<Rightarrow> ('h, 'k) BlockOverlay list list \<Rightarrow> ('h, 'k) BlockOverlay list list" where
  "push i ov [] = [[ov]]"
| "push 0 ov (l # ls) = (l @ [ov]) # ls"
| "push (Suc i) ov (l # ls) = l # push i ov ls"

lemma push_nth_update: "i < length ls \<Longrightarrow> push i ov ls = ls[i := ls ! i @ [ov]]"
  by (induction i ov ls rule: push.induct) auto

lemma push_end: "push (length ls) ov ls = ls @ [[ov]]"
  by (induction ls) auto

lemma levels_keys_push: "levels_keys (push i ov ls) = levels_keys ls + mset (bo_inserted ov)"
  by (induction i ov ls rule: push.induct) (auto simp: ac_simps)

lemma hashes_push: "mset (block_hashes (push i ov ls)) = add_mset (bo_hash ov) (mset (block_hashes ls))"
  by (induction i ov ls rule: push.induct) auto

lemma set_hashes_push [simp]: "set (block_hashes (push i ov ls)) = insert (bo_hash ov) (set (block_hashes ls))"
  using arg_cong [OF hashes_push [of i ov ls], of set_mset] by simp

lemma distinct_hashes_push: "distinct (block_hashes (push i ov ls)) \<longleftrightarrow> bo_hash ov \<notin> set (block_hashes ls) \<and> distinct (block_hashes ls)"
proof -
  have "mset (block_hashes (push i ov ls)) = mset (bo_hash ov # block_hashes ls)"
    by (simp add: hashes_push)
  then have "distinct (block_hashes (push i ov ls)) = distinct (bo_hash ov # block_hashes ls)"
    by (rule mset_eq_imp_distinct_iff)
  then show ?thesis
    by simp
qed

lemma balanced_push:
  "balanced F FH (push i ov ls) ds \<longleftrightarrow>
     balanced (F + mset (bo_inserted ov)) (insert (bo_hash ov) FH) ls ds \<and> bo_hash ov \<notin> FH"
  unfolding balanced_def by (auto simp: levels_keys_push distinct_hashes_push ac_simps)

lemma set_concat_push: "set (concat (push i ov ls)) = insert ov (set (concat ls))"
  by (induction i ov ls rule: push.induct) auto

text \<open>The parents that a block of level \<open>i\<close> may have.\<close>

definition above :: "'h set \<Rightarrow> ('h, 'k) BlockOverlay list list \<Rightarrow> nat \<Rightarrow> 'h set" where
  "above B ls i = (case i of 0 \<Rightarrow> B | Suc j \<Rightarrow> bo_hash ` set (ls ! j))"

lemma linked_push:
  "linked P B ls \<Longrightarrow> i \<le> length ls \<Longrightarrow> is_child P (above B ls i) ov \<Longrightarrow> linked P B (push i ov ls)"
proof (induction i ov ls arbitrary: B rule: push.induct)
  case (2 ov l ls)
  have "linked P (bo_hash ` set (l @ [ov])) ls"
    by (rule linked_mono [of "bo_hash ` set l"]) (use 2(1) in auto)
  then show ?case
    using 2 by (simp add: above_def)
next
  case (3 i ov l ls)
  have "above (bo_hash ` set l) ls i = above B (l # ls) (Suc i)"
    by (simp add: above_def split: nat.split)
  then show ?case
    using 3 by simp
qed (auto simp: above_def)

text \<open>Empty levels come last.\<close>

definition packed :: "('h, 'k) BlockOverlay list list \<Rightarrow> bool" where
  "packed ls \<longleftrightarrow> (\<forall>i j. i < j \<longrightarrow> j < length ls \<longrightarrow> ls ! j \<noteq> [] \<longrightarrow> ls ! i \<noteq> [])"

lemma packedD: "packed ls \<Longrightarrow> i < j \<Longrightarrow> j < length ls \<Longrightarrow> ls ! j \<noteq> [] \<Longrightarrow> ls ! i \<noteq> []"
  unfolding packed_def by blast

lemma linked_empty: "linked P {} ls \<Longrightarrow> i < length ls \<Longrightarrow> ls ! i = []"
proof (induction ls arbitrary: i)
  case (Cons l ls)
  have "l = []"
    using Cons.prems(1) by (cases l) auto
  then show ?case
    using Cons by (cases i) auto
qed simp

lemma linked_packed: "linked P B ls \<Longrightarrow> packed ls"
proof (induction ls arbitrary: B)
  case (Cons l ls)
  then have p: "packed ls" and l: "l = [] \<Longrightarrow> linked P {} ls"
    by auto
  show ?case
    unfolding packed_def
  proof (intro allI impI)
    fix i j
    assume ij: "i < j" "j < length (l # ls)" "(l # ls) ! j \<noteq> []"
    then obtain j' where j: "j = Suc j'"
      by (cases j) auto
    show "(l # ls) ! i \<noteq> []"
      using ij j l linked_empty [of P ls j'] p by (cases i) (auto simp: packed_def)
  qed
qed (simp add: packed_def)

definition trims :: "('h, 'k) BlockOverlay list list \<Rightarrow> ('h, 'k) BlockOverlay list list \<Rightarrow> bool" where
  "trims ls ls' \<longleftrightarrow> (\<exists>n. ls' = ls @ replicate n [])"

lemma level_of_last_ok:
  "i < length ls \<Longrightarrow> (\<And>j. j \<le> i \<Longrightarrow> ls ! j \<noteq> []) \<Longrightarrow> bo_hash (last (ls ! i)) = h \<Longrightarrow>
     (\<And>j. j < i \<Longrightarrow> bo_hash (last (ls ! j)) \<noteq> h) \<Longrightarrow> (level_of_last h ls :: ('x, nat) result) = Ok i"
proof (induction ls arbitrary: i)
  case (Cons l ls)
  show ?case
  proof (cases i)
    case 0
    then show ?thesis
      using Cons.prems(2) [of 0] Cons.prems(3) by simp
  next
    case (Suc i')
    have "(level_of_last h ls :: ('x, nat) result) = Ok i'"
      using Cons.IH [of i'] Cons.prems(1,3) Cons.prems(2) [of "Suc _"] Cons.prems(4) [of "Suc _"] Suc by simp
    then show ?thesis
      using Cons.prems(2) [of 0] Cons.prems(4) [of 0] Suc by simp
  qed
qed simp

lemma nth_push: "i \<le> length ls \<Longrightarrow> push i ov ls ! i = (if i < length ls then ls ! i else []) @ [ov]"
  by (induction i ov ls rule: push.induct) auto

lemma nth_push_other: "i \<le> length ls \<Longrightarrow> j < length ls \<Longrightarrow> j \<noteq> i \<Longrightarrow> push i ov ls ! j = ls ! j"
  by (induction i ov ls arbitrary: j rule: push.induct) (auto simp: nth_Cons split: nat.splits)

lemma length_push: "i \<le> length ls \<Longrightarrow> length (push i ov ls) = (if i < length ls then length ls else Suc (length ls))"
  by (induction i ov ls rule: push.induct) auto

lemma last_hash_in: "i < length ls \<Longrightarrow> ls ! i \<noteq> [] \<Longrightarrow> bo_hash (last (ls ! i)) \<in> set (block_hashes ls)"
  unfolding block_hashes_def set_map set_concat by (intro imageI UN_I [of "ls ! i"] nth_mem last_in_set)

lemma trims_shrink:
  assumes "packed ls" "i \<le> length ls" "lvls @ replicate n [] = (if i < length ls then ls else ls @ [[]])" "i < length lvls"
  shows "trims (if (if i < length ls then ls ! i else []) = [] then butlast lvls else lvls) ls"
proof (cases "(if i < length ls then ls ! i else []) = []")
  case False
  then show ?thesis
    using assms(3) unfolding trims_def by (auto split: if_splits)
next
  case True
  define M where "M = (if i < length ls then ls else ls @ [[]])"
  have M1: "lvls @ replicate n [] = M"
    using assms(3) by (simp add: M_def)
  have M2: "length lvls \<le> length M"
    using arg_cong [OF M1, of length] by simp
  have Mj: "M ! j = []" if "i \<le> j" "j < length M" for j
    using packedD [OF assms(1), of i j] True that assms(2) unfolding M_def
    by (cases "i = j") (auto simp: nth_append split: if_splits)
  have ne: "lvls \<noteq> []"
    using assms(4) by auto
  have "last lvls = M ! (length lvls - 1)"
    using ne by (simp add: M1 [symmetric] nth_append last_conv_nth)
  also have "\<dots> = []"
    using assms(4) M2 by (intro Mj) auto
  finally have "butlast lvls @ [[]] = lvls"
    using append_butlast_last_id [OF ne] by simp
  then have "(butlast lvls @ [[]]) @ replicate n [] = M"
    using M1 by (rule ssubst)
  then have v: "butlast lvls @ replicate (Suc n) [] = (if i < length ls then ls else ls @ [[]])"
    by (simp add: M_def)
  show ?thesis
  proof (cases "i < length ls")
    case i: True
    then have "trims (butlast lvls) ls"
      using v unfolding trims_def by (auto intro!: exI [of _ "Suc n"])
    then show ?thesis
      using True by simp
  next
    case i: False
    have "replicate (Suc n) [] = replicate n [] @ [[] :: ('a, 'b) BlockOverlay list]"
      by (simp add: replicate_append_same)
    then have "(butlast lvls @ replicate n []) @ [[]] = ls @ [[]]"
      using v i by (simp del: replicate.simps)
    then have "butlast lvls @ replicate n [] = ls"
      by (simp only: append_same_eq)
    then show ?thesis
      using i unfolding trims_def by (auto intro!: exI [of _ n])
  qed
qed

text \<open>One step of \<open>revert_insertions\<close> undoes one push, up to empty levels at the end.\<close>

lemma unpush:
  assumes "packed (push i ov ls)" "packed ls" "i \<le> length ls" "bo_hash ov \<notin> set (block_hashes ls)" "trims ls' (push i ov ls)"
  defines "lvls \<equiv> ls'[i := butlast (ls' ! i)]"
  shows "(level_of_last (bo_hash ov) ls' :: ('x, nat) result) = Ok i" "last (ls' ! i) = ov"
    "trims (if butlast (ls' ! i) = [] then butlast lvls else lvls) ls"
proof -
  let ?N = "push i ov ls" and ?l = "if i < length ls then ls ! i else []"
  obtain n where n: "?N = ls' @ replicate n []"
    using assms(5) by (auto simp: trims_def)
  have Ni: "?N ! i = ?l @ [ov]" "i < length ?N"
    using nth_push [OF assms(3)] length_push [OF assms(3), of ov] assms(3) by auto
  have i: "i < length ls'"
  proof (rule ccontr)
    assume "\<not> i < length ls'"
    then have "?N ! i = []"
      using Ni(2) n by (auto simp: nth_append)
    then show False
      using Ni by simp
  qed
  then have l: "ls' ! i = ?l @ [ov]"
    using Ni n by (simp add: nth_append)
  then show "last (ls' ! i) = ov"
    by simp
  have ne: "ls' ! j \<noteq> []" "j < i \<Longrightarrow> ls' ! j = ls ! j" if "j \<le> i" for j
  proof -
    have "?N ! j \<noteq> []"
      using packedD [OF assms(1), of j i] Ni that by (cases "j = i") auto
    then show "ls' ! j \<noteq> []"
      using n i that by (auto simp: nth_append)
    show "ls' ! j = ls ! j" if "j < i"
      using nth_push_other [OF assms(3), of j ov] that n i assms(3) by (auto simp: nth_append)
  qed
  show "(level_of_last (bo_hash ov) ls' :: ('x, nat) result) = Ok i"
  proof (rule level_of_last_ok [OF i])
    show "bo_hash (last (ls' ! j)) \<noteq> bo_hash ov" if "j < i" for j
      using last_hash_in [of j ls] ne [of j] that assms(3,4) by auto
  qed (use ne l in auto)
  have "?N[i := ?l] = lvls @ replicate n []"
    using i l n by (simp add: lvls_def list_update_append)
  moreover have "?N[i := ?l] = (if i < length ls then ls else ls @ [[]])"
    using assms(3) by (auto simp: push_nth_update push_end list_update_append)
  ultimately have u: "lvls @ replicate n [] = (if i < length ls then ls else ls @ [[]])"
    by simp
  show "trims (if butlast (ls' ! i) = [] then butlast lvls else lvls) ls"
    using trims_shrink [OF assms(2,3) u] i l by (auto simp: lvls_def)
qed

end
