(* ===== verification/StateDbOverlayRuns.thy ===== *)
theory StateDbOverlayRuns
  imports StateDbOverlayInvariant
begin

text \<open>
  The invariant of the overlay and that every operation keeps it. \<open>st\<close> gives the nodes of the state of a block,
  \<open>content\<close> the value of a node, \<open>g\<close> is the block before the first one, and \<open>L0\<close> holds the levels at the time of the
  last \<open>apply_pending\<close> or \<open>revert_pending\<close>.
\<close>

section \<open>The invariant\<close>

inductive grown :: "('h, 'k) BlockOverlay list list \<Rightarrow> 'h list \<Rightarrow> ('h, 'k) BlockOverlay list list \<Rightarrow> bool" where
  grown_refl: "grown L0 [] L0"
| grown_push: "grown L0 hs L \<Longrightarrow> packed L \<Longrightarrow> i \<le> length L \<Longrightarrow> packed (push i ov L) \<Longrightarrow> bo_hash ov \<notin> set (block_hashes L) \<Longrightarrow>
    grown L0 (hs @ [bo_hash ov]) (push i ov L)"

lemma grown_subset: "grown L0 hs L \<Longrightarrow> set (concat L0) \<subseteq> set (concat L)"
  by (induction rule: grown.induct) (auto simp: set_concat_push simp del: set_concat)

lemma hashes_concat: "set (block_hashes ls) = bo_hash ` set (concat ls)"
  by (simp add: block_hashes_def)

abbreviation dstate :: "('h, 'k) NonCanonicalOverlay \<Rightarrow> ('h, 'k) discard_state" where
  "dstate nc \<equiv> \<lparr>ds_values = overlay_values nc, ds_parents = parents nc, ds_pins = pinned_insertions nc\<rparr>"

definition base :: "'h \<Rightarrow> ('h, 'k) NonCanonicalOverlay \<Rightarrow> 'h" where
  "base g nc = (case last_canonicalized nc of Some (h, _) \<Rightarrow> h | None \<Rightarrow> g)"

definition moves :: "('h \<Rightarrow> 'k set) \<Rightarrow> ('h \<Rightarrow> 'h option) \<Rightarrow> ('h, 'k) BlockOverlay list list \<Rightarrow> bool" where
  "moves st P ls \<longleftrightarrow> (\<forall>ov \<in> set (concat ls). \<forall>p. P (bo_hash ov) = Some p \<longrightarrow>
     leads (st p) (set (bo_inserted ov)) (set (bo_deleted ov)) (st (bo_hash ov)))"

definition overlay_ok ::
    "('h \<Rightarrow> 'k set) \<Rightarrow> ('k \<Rightarrow> DBValue) \<Rightarrow> 'h \<Rightarrow> ('h, 'k) BlockOverlay list list \<Rightarrow> ('h, 'k) NonCanonicalOverlay \<Rightarrow> bool" where
  "overlay_ok st content g L0 nc \<longleftrightarrow>
     balanced {#} {} (levels nc) (dstate nc) \<and> content_ok content (overlay_values nc) \<and>
     linked (parents nc) {base g nc} (levels nc) \<and>
     path_ok (parents nc) (base g nc) (levels nc) (nc_pending_canonicalizations nc) \<and>
     moves st (parents nc) (levels nc) \<and>
     grown L0 (pending_insertions nc) (levels nc) \<and> linked (parents nc) {base g nc} L0"

lemma overlay_okD:
  assumes "overlay_ok st content g L0 nc"
  shows "balanced {#} {} (levels nc) (dstate nc)" "content_ok content (overlay_values nc)"
    "linked (parents nc) {base g nc} (levels nc)"
    "path_ok (parents nc) (base g nc) (levels nc) (nc_pending_canonicalizations nc)"
    "moves st (parents nc) (levels nc)" "grown L0 (pending_insertions nc) (levels nc)" "linked (parents nc) {base g nc} L0"
  using assms unfolding overlay_ok_def by blast+

lemma linked_member: "linked P B ls \<Longrightarrow> ov \<in> set (concat ls) \<Longrightarrow> \<exists>p. P (bo_hash ov) = Some p"
  by (induction ls arbitrary: B) (auto simp: is_child_def)

text \<open>Every node of the state of a block in the levels is in the overlay or in the state of the last canonical block.\<close>

lemma linked_readable:
  "linked P B ls \<Longrightarrow> moves st P ls \<Longrightarrow> (\<And>b. b \<in> B \<Longrightarrow> st b \<subseteq> D) \<Longrightarrow> (\<And>ov. ov \<in> set (concat ls) \<Longrightarrow> set (bo_inserted ov) \<subseteq> D) \<Longrightarrow>
     ov \<in> set (concat ls) \<Longrightarrow> st (bo_hash ov) \<subseteq> D"
proof (induction ls arbitrary: B)
  case (Cons l ls)
  have l: "st (bo_hash o') \<subseteq> D" if "o' \<in> set l" for o'
  proof -
    obtain p where "p \<in> B" "P (bo_hash o') = Some p"
      using Cons.prems(1) \<open>o' \<in> set l\<close> by (auto simp: is_child_def)
    then have "leads (st p) (set (bo_inserted o')) (set (bo_deleted o')) (st (bo_hash o'))" "st p \<subseteq> D" "set (bo_inserted o') \<subseteq> D"
      using Cons.prems(2-4) \<open>o' \<in> set l\<close> by (auto simp: moves_def)
    then show ?thesis
      by (auto simp: leads_def)
  qed
  show ?case
  proof (cases "ov \<in> set l")
    case False
    have "linked P (bo_hash ` set l) ls" "moves st P ls" "ov \<in> set (concat ls)"
      using Cons.prems(1,2,5) False by (auto simp: moves_def)
    then show ?thesis
      using l Cons.prems(4) Cons.IH [of "bo_hash ` set l"] by auto
  qed (use l in simp)
qed simp

lemma levels_keys_member: "ov \<in> set (concat ls) \<Longrightarrow> k \<in> set (bo_inserted ov) \<Longrightarrow> k \<in># levels_keys ls"
proof -
  assume *: "ov \<in> set (concat ls)" "k \<in> set (bo_inserted ov)"
  have "k \<in># level_keys l" if "ov \<in> set l" for l :: "('a, 'b) BlockOverlay list"
    using that *(2) by (induction l) auto
  then show ?thesis
    using *(1) by (induction ls) auto
qed

lemma overlay_values_inserted:
  assumes "overlay_ok st content g L0 nc" "ov \<in> set (concat (levels nc))" "k \<in> set (bo_inserted ov)"
  shows "\<exists>n. overlay_values nc k = Some (n, content k)"
proof -
  have "vals_ok (levels_keys (levels nc) + pin_keys (pinned_insertions nc)) (overlay_values nc)"
    using overlay_okD(1) [OF assms(1)] by (simp add: balanced_def)
  then obtain n v where "overlay_values nc k = Some (n, v)"
    using vals_ok_dom [of _ "overlay_values nc" k] levels_keys_member [OF assms(2,3)] by fastforce
  then show ?thesis
    using overlay_okD(2) [OF assms(1)] by (auto simp: content_ok_def)
qed

lemma overlay_readable:
  assumes "overlay_ok st content g L0 nc" "st (base g nc) \<subseteq> D" "ov \<in> set (concat (levels nc))" "k \<in> st (bo_hash ov)"
  shows "k \<in> D \<or> (\<exists>n. overlay_values nc k = Some (n, content k))"
proof -
  let ?D = "D \<union> {k. \<exists>n. overlay_values nc k = Some (n, content k)}"
  have "st (bo_hash ov) \<subseteq> ?D"
    by (rule linked_readable [OF overlay_okD(3,5) [OF assms(1)] _ _ assms(3)])
      (use assms(2) overlay_values_inserted [OF assms(1)] in \<open>auto simp del: set_concat\<close>)
  then show ?thesis
    using assms(4) by auto
qed

section \<open>Inserting\<close>

text \<open>
  What the caller of \<open>insert_block\<close> sees to beyond the checks of the code: the parent is a block of the level before
  the one of \<open>number\<close> (the code only looks for it in the map of parents), and while no block is canonical the number is
  at most the number of levels and the first level builds on \<open>g\<close>.
\<close>

definition fits :: "'h \<Rightarrow> nat \<Rightarrow> 'h \<Rightarrow> ('h, 'k) NonCanonicalOverlay \<Rightarrow> bool" where
  "fits g number parent nc \<longleftrightarrow>
     (if last_canonicalized nc = None \<and> levels nc = [] then parent = g
      else let at = number - front_block_number nc
           in (last_canonicalized nc = None \<longrightarrow> number \<le> length (levels nc) \<and> (number = 0 \<longrightarrow> parent = g)) \<and>
              (0 < at \<and> at \<le> length (levels nc) \<longrightarrow> parent \<in> bo_hash ` set (levels nc ! (at - 1))))"

definition new_overlay :: "('h, 'k, 'c) codec \<Rightarrow> 'h \<Rightarrow> nat \<Rightarrow> nat \<Rightarrow> 'k ChangeSet \<Rightarrow> ('h, 'k) NonCanonicalOverlay \<Rightarrow> ('h, 'k) BlockOverlay" where
  "new_overlay c hash number at changes nc =
     \<lparr>bo_hash = hash, bo_journal_key = noncanonical_journal_key c number (length ((levels nc @ [[]]) ! at)),
      bo_inserted = map fst (cs_inserted changes), bo_deleted = cs_deleted changes\<rparr>"

lemma front_None [simp]: "last_canonicalized nc = None \<Longrightarrow> front_block_number nc = 0"
  by (simp add: front_block_number_def)

text \<open>On a block that fits, \<open>insert\<close> is a checked error without effect or pushes the block to its level.\<close>

definition insert_at :: "nat \<Rightarrow> ('h, 'k) NonCanonicalOverlay \<Rightarrow> nat" where
  "insert_at number nc = (if levels nc = [] then 0 else number - front_block_number nc)"

lemma if_Err_Ok: "(if b then Err e else r) = Ok x \<longleftrightarrow> \<not> b \<and> r = Ok x" "(if b then r else Err e) = Ok x \<longleftrightarrow> b \<and> r = Ok x"
  by auto

lemma check_insert_commit:
  assumes "check_insert c number parent nc = Ok (commit, nc1)" "\<not> (levels nc = [] \<and> last_canonicalized nc = None \<and> 0 < number)"
  shows "commit = empty_commit \<and> nc1 = nc"
proof (cases "last_canonicalized nc = None")
  case True
  then show ?thesis
    using assms(1) unfolding check_insert_def if_not_P [OF assms(2)] by simp
next
  case False
  show ?thesis
    using assms(1) unfolding check_insert_def if_not_P [OF assms(2)] if_P [OF False] if_Err_Ok
    by (cases "number = front_block_number nc") (simp_all only: if_True if_False simp_thms if_Err_Ok result.inject prod.inject)
qed

lemma check_insert_Ok:
  assumes "check_insert c number parent nc = Ok (commit, nc1)"
  shows "commit_data commit = empty_changes"
    "nc1 = (if levels nc = [] \<and> last_canonicalized nc = None \<and> 0 < number
            then nc\<lparr>last_canonicalized := Some (parent, number - 1)\<rparr> else nc)"
proof -
  note check_insert_commit [OF assms]
  moreover have "commit_data commit = empty_changes \<and> nc1 = nc\<lparr>last_canonicalized := Some (parent, number - 1)\<rparr>"
    if "levels nc = [] \<and> last_canonicalized nc = None \<and> 0 < number"
    using assms unfolding check_insert_def if_P [OF that] Let_def by (auto simp: meta_insert_def empty_commit_def)
  ultimately show "commit_data commit = empty_changes"
    "nc1 = (if levels nc = [] \<and> last_canonicalized nc = None \<and> 0 < number
            then nc\<lparr>last_canonicalized := Some (parent, number - 1)\<rparr> else nc)"
    by (cases "levels nc = [] \<and> last_canonicalized nc = None \<and> 0 < number"; simp add: empty_commit_def)+
qed

lemma check_insert_Some:
  assumes "check_insert c number parent nc = Ok (commit, nc1)" "last_canonicalized nc \<noteq> None"
  shows "front_block_number nc \<le> number" "number \<le> front_block_number nc + length (levels nc)"
    "number = front_block_number nc \<Longrightarrow> base g nc = parent"
proof -
  have n: "\<not> (levels nc = [] \<and> last_canonicalized nc = None \<and> 0 < number)"
    using assms(2) by simp
  have c: "\<not> (number < front_block_number nc \<or> number \<ge> front_block_number nc + length (levels nc) + 1)"
    using assms(1) unfolding check_insert_def if_not_P [OF n] if_P [OF assms(2)] if_Err_Ok by (rule conjunct1)
  then show "front_block_number nc \<le> number" "number \<le> front_block_number nc + length (levels nc)"
    by linarith+
  assume f: "number = front_block_number nc"
  have "last_canonicalized nc = Some (parent, number - 1)"
    using assms(1) unfolding check_insert_def if_not_P [OF n] if_P [OF assms(2)] if_not_P [OF c] if_P [OF f] if_Err_Ok
    by (rule conjunct1)
  then show "base g nc = parent"
    by (simp add: base_def)
qed

lemma check_insert_ok:
  fixes nc :: "('h, 'k) NonCanonicalOverlay" and c :: "('h, 'k, 'c) codec"
  assumes "fits g number parent nc" "check_insert c number parent nc = (Ok (commit, nc1) :: (('e, 'c) StateDbError, _) result)"
  shows "commit_data commit = empty_changes" "\<exists>lc. nc1 = nc\<lparr>last_canonicalized := lc\<rparr> \<and> base g nc1 = base g nc"
    "insert_at number nc \<le> length (levels nc)"
    "(levels nc = [] \<or> number = front_block_number nc + length (levels nc)) \<longleftrightarrow> insert_at number nc = length (levels nc)"
    "parent \<in> above {base g nc} (levels nc) (insert_at number nc)"
proof -
  note d = assms(1) [unfolded fits_def Let_def]
  have at: "insert_at number nc \<le> length (levels nc) \<and>
      ((levels nc = [] \<or> number = front_block_number nc + length (levels nc)) \<longleftrightarrow> insert_at number nc = length (levels nc))"
  proof (cases "last_canonicalized nc = None")
    case False
    then show ?thesis
      using check_insert_Some(1,2) [OF assms(2) False] by (auto simp: insert_at_def)
  qed (use d in \<open>auto simp: insert_at_def\<close>)
  then show "insert_at number nc \<le> length (levels nc)"
    "(levels nc = [] \<or> number = front_block_number nc + length (levels nc)) \<longleftrightarrow> insert_at number nc = length (levels nc)"
    by auto
  show "commit_data commit = empty_changes"
    by (rule check_insert_Ok(1) [OF assms(2)])
  show "\<exists>lc. nc1 = nc\<lparr>last_canonicalized := lc\<rparr> \<and> base g nc1 = base g nc"
    using check_insert_Ok(2) [OF assms(2)] d by (auto simp: base_def intro: exI [of _ "last_canonicalized nc"])
  show "parent \<in> above {base g nc} (levels nc) (insert_at number nc)"
  proof (cases "insert_at number nc")
    case 0
    have "parent = base g nc"
    proof (cases "last_canonicalized nc = None")
      case True
      then show ?thesis
        using d 0 by (auto simp: insert_at_def base_def split: if_splits)
    next
      case False
      have "number = front_block_number nc"
        using 0 check_insert_Some(1,2) [OF assms(2) False] by (auto simp: insert_at_def split: if_splits)
      then show ?thesis
        using check_insert_Some(3) [OF assms(2) False] by simp
    qed
    then show ?thesis
      by (simp add: above_def 0)
  next
    case (Suc j)
    then show ?thesis
      using d at by (auto simp: insert_at_def above_def split: if_splits)
  qed
qed

lemma nc_insert_ok:
  fixes nc :: "('h, 'k) NonCanonicalOverlay" and c :: "('h, 'k, 'c) codec"
  assumes "fits g number parent nc"
    "check_insert c number parent nc = (Ok (commit, nc1) :: (('e, 'c) StateDbError, _) result)"
  defines "at \<equiv> insert_at number nc"
  shows "\<exists>v. nc_insert c hash number parent changes nc = (Ok (meta_insert (noncanonical_journal_key c number (length ((levels nc @ [[]]) ! at)), v) commit,
       nc1\<lparr>levels := push at (new_overlay c hash number at changes nc) (levels nc),
          parents := (parents nc)(hash \<mapsto> parent),
          overlay_values := insert_values (cs_inserted changes) (overlay_values nc),
          pending_insertions := pending_insertions nc @ [hash]\<rparr>) :: (('e, 'c) StateDbError, _) result)"
proof -
  obtain lc where lc: "nc1 = nc\<lparr>last_canonicalized := lc\<rparr>"
    using check_insert_ok(2) [OF assms(1,2)] by blast
  note n = check_insert_ok(3,4) [OF assms(1,2), folded at_def]
  show ?thesis
  proof (cases "at = length (levels nc)")
    case True
    then show ?thesis
      using assms(2) n(2) by (auto simp: nc_insert_def Let_def lc new_overlay_def push_end)
  next
    case False
    then have "at < length (levels nc)" "\<not> (levels nc = [] \<or> number = front_block_number nc + length (levels nc))"
      using n by auto
    moreover from this have "number - front_block_number nc = at"
      by (simp add: at_def insert_at_def)
    ultimately show ?thesis
      using assms(2) by (auto simp: nc_insert_def Let_def lc new_overlay_def push_nth_update nth_append)
  qed
qed

lemma path_ok_push: "path_ok P b ls hs \<Longrightarrow> path_ok P b (push i ov ls) hs"
proof (induction P b ls hs arbitrary: i rule: path_ok.induct)
  case (3 P b l ls h hs)
  then show ?case
    by (cases i) auto
qed auto

lemma moves_cong: "(\<And>h. h \<in> set (block_hashes ls) \<Longrightarrow> P h = P' h) \<Longrightarrow> moves st P ls = moves st P' ls"
  unfolding moves_def hashes_concat by (metis (no_types, lifting) imageI)

lemma balanced_insert:
  assumes "balanced {#} {} ls ds" "ds_parents ds hash = None"
  shows "balanced (mset (map fst ins)) {hash} ls
    (ds\<lparr>ds_values := insert_values ins (ds_values ds), ds_parents := (ds_parents ds)(hash \<mapsto> parent)\<rparr>)"
proof -
  note b = assms(1) [unfolded balanced_def]
  have "hash \<notin> dom (ds_parents ds)"
    using assms(2) by auto
  then have h: "hash \<notin> set (block_hashes ls)" "hash \<notin> dom (ds_pins ds)"
    using b by auto
  have "vals_ok (levels_keys ls + pin_keys (ds_pins ds) + mset (map fst ins)) (insert_values ins (ds_values ds))"
    using b by (intro insert_values_ok) simp
  then have v: "vals_ok (mset (map fst ins) + levels_keys ls + pin_keys (ds_pins ds)) (insert_values ins (ds_values ds))"
    by (simp add: ac_simps)
  show ?thesis
    using b h v unfolding balanced_def by simp
qed

lemma overlay_insert:
  assumes ok: "overlay_ok st content g L0 nc" and fits: "fits g number parent nc" and fresh: "parents nc hash = None"
    and l: "leads (st parent) (fst ` set (cs_inserted changes)) (set (cs_deleted changes)) (st hash)"
    and c: "\<forall>(k, v) \<in> set (cs_inserted changes). v = content k"
    and r: "nc_insert c hash number parent changes nc = (Ok (commit, nc') :: (('e, 'c) StateDbError, _) result)"
  shows "overlay_ok st content g L0 nc'" "commit_data commit = empty_changes" "base g nc' = base g nc"
    "nc_pending_canonicalizations nc' = nc_pending_canonicalizations nc" "set (concat (levels nc)) \<subseteq> set (concat (levels nc'))"
proof -
  obtain c0 nc1 where c0: "check_insert c number parent nc = (Ok (c0, nc1) :: (('e, 'c) StateDbError, _) result)"
    using r by (cases "check_insert c number parent nc :: (('e, 'c) StateDbError, _) result") (auto simp: nc_insert_def Let_def)
  define ov where "ov = new_overlay c hash number (insert_at number nc) changes nc"
  have ov: "bo_hash ov = hash" "bo_inserted ov = map fst (cs_inserted changes)" "bo_deleted ov = cs_deleted changes"
    by (simp_all add: ov_def new_overlay_def)
  obtain lc where lc: "nc1 = nc\<lparr>last_canonicalized := lc\<rparr>" "base g nc1 = base g nc"
    using check_insert_ok(2) [OF fits c0] by blast
  let ?at = "insert_at number nc" and ?P = "(parents nc)(hash \<mapsto> parent)"
  obtain kv where nc': "commit = meta_insert kv c0" "nc' = nc1\<lparr>levels := push ?at ov (levels nc), parents := ?P,
      overlay_values := insert_values (cs_inserted changes) (overlay_values nc), pending_insertions := pending_insertions nc @ [hash]\<rparr>"
    using nc_insert_ok [OF fits c0, of hash changes] r by (auto simp: ov_def)
  note sel = nc'(2) [unfolded lc(1)]
  show "commit_data commit = empty_changes"
    using check_insert_ok(1) [OF fits c0] by (simp add: nc' meta_insert_def)
  show base: "base g nc' = base g nc"
    using lc(2) by (simp add: base_def nc' )
  show "nc_pending_canonicalizations nc' = nc_pending_canonicalizations nc" "set (concat (levels nc)) \<subseteq> set (concat (levels nc'))"
    by (auto simp: sel set_concat_push simp del: set_concat)
  have b: "balanced (mset (bo_inserted ov)) {bo_hash ov} (levels nc) (dstate nc')"
    using balanced_insert [OF overlay_okD(1) [OF ok], of hash "cs_inserted changes" parent] fresh by (simp add: sel ov)
  then have notin: "hash \<notin> set (block_hashes (levels nc))"
    by (simp add: balanced_def ov)
  then have agree: "parents nc x = ?P x" if "x \<in> set (block_hashes (levels nc))" for x
    using that by auto
  have sub: "set (block_hashes L0) \<subseteq> set (block_hashes (levels nc))"
    using grown_subset [OF overlay_okD(6) [OF ok]] unfolding hashes_concat by blast
  have lk: "linked ?P {base g nc} (levels nc)" "linked ?P {base g nc} L0"
    using overlay_okD(3,7) [OF ok] linked_cong [of "levels nc" "parents nc" ?P] linked_cong [of L0 "parents nc" ?P] agree sub
    by auto
  have lk': "linked ?P {base g nc} (push ?at ov (levels nc))"
    using check_insert_ok(5) [OF fits c0]
    by (intro linked_push lk check_insert_ok(3) [OF fits c0]) (simp add: is_child_def ov)
  have m: "moves st ?P (push ?at ov (levels nc))"
    using overlay_okD(5) [OF ok] moves_cong [of "levels nc" "parents nc" ?P st] agree l ov
    by (auto simp: moves_def set_concat_push simp del: set_concat)
  have gr: "grown L0 (pending_insertions nc @ [bo_hash ov]) (push ?at ov (levels nc))"
    using notin ov(1)
    by (intro grown_push overlay_okD(6) [OF ok] linked_packed [OF lk(1)] linked_packed [OF lk'] check_insert_ok(3) [OF fits c0]) simp
  have p: "path_ok ?P (base g nc) (push ?at ov (levels nc)) (nc_pending_canonicalizations nc)"
    using overlay_okD(4) [OF ok] path_ok_cong [of "levels nc" "parents nc" ?P] agree by (intro path_ok_push) auto
  show "overlay_ok st content g L0 nc'"
    unfolding overlay_ok_def base using b lk lk' m gr p insert_values_content [OF overlay_okD(2) [OF ok] c]
    by (simp add: sel balanced_push ov)
qed

section \<open>Canonicalizing, applying and reverting\<close>

lemma discard_journals_ok: "(\<And>x. x \<in> set (block_hashes ls) \<Longrightarrow> P x \<noteq> None) \<Longrightarrow> \<exists>js. (discard_journals P ls h :: ('x, _) result) = Ok js"
proof (induction ls arbitrary: h)
  case (Cons l ls)
  have rec: "\<exists>js. (discard_journals P ls h :: ('x, _) result) = Ok js" for h
    using Cons by simp
  have "\<exists>js. (journals_level (discard_journals P ls) P h l' :: ('x, _) result) = Ok js" if "set l' \<subseteq> set l" for l'
    using that
  proof (induction l')
    case (Cons ov l')
    then obtain p js js' where "P (bo_hash ov) = Some p" "(journals_level (discard_journals P ls) P h l' :: ('x, _) result) = Ok js"
      "(discard_journals P ls (bo_hash ov) :: ('x, _) result) = Ok js'"
      using \<open>\<And>x. x \<in> set (block_hashes (l # ls)) \<Longrightarrow> P x \<noteq> None\<close> [of "bo_hash ov"] rec [of "bo_hash ov"] by auto
    then show ?case
      by simp
  qed simp
  then show ?case
    by simp
qed simp

lemma level_journals_ok: "(\<And>h. \<exists>js. rec h = Ok js) \<Longrightarrow> \<exists>js. level_journals rec index i l = Ok js"
proof (induction l arbitrary: i)
  case (Cons ov l)
  obtain js js' where "rec (bo_hash ov) = Ok js" "level_journals rec index (Suc i) l = Ok js'"
    using Cons.prems [of "bo_hash ov"] Cons.IH [OF Cons.prems, of "Suc i"] by auto
  then show ?case
    by simp
qed simp

lemma get_values_ok: "(\<And>k. k \<in> set ks \<Longrightarrow> \<exists>n. vals k = Some (n, content k)) \<Longrightarrow> get_values vals ks = Ok (map (\<lambda>k. (k, content k)) ks)"
proof (induction ks)
  case (Cons k ks)
  then obtain n where "vals k = Some (n, content k)"
    by auto
  then show ?case
    using Cons by simp
qed simp

text \<open>
  The block that is canonicalized is the child of the one before; if it is not in its level the call is an error,
  otherwise the commit is extended with its changes.
\<close>

lemma overlay_canonicalize:
  assumes ok: "overlay_ok st content g L0 nc" and p: "parents nc hash = Some (last (base g nc # nc_pending_canonicalizations nc))"
  shows "(nc_canonicalize c hash commit nc :: (('e, 'c) StateDbError, _) result) = Err InvalidBlock \<or>
    (\<exists>ov m. ov \<in> set (concat (levels nc)) \<and> bo_hash ov = hash \<and>
       nc_canonicalize c hash commit nc = (Ok (
         \<lparr>commit_data = (commit_data commit)\<lparr>cs_inserted := cs_inserted (commit_data commit) @ map (\<lambda>k. (k, content k)) (bo_inserted ov),
                                              cs_deleted := cs_deleted (commit_data commit) @ bo_deleted ov\<rparr>,
          commit_meta = m\<rparr>,
         nc\<lparr>nc_pending_canonicalizations := nc_pending_canonicalizations nc @ [hash]\<rparr>) :: (('e, 'c) StateDbError, _) result) \<and>
       overlay_ok st content g L0 (nc\<lparr>nc_pending_canonicalizations := nc_pending_canonicalizations nc @ [hash]\<rparr>))"
proof -
  let ?p = "length (nc_pending_canonicalizations nc)"
  let ?pos = "find_position (\<lambda>ov. bo_hash ov = hash) (levels nc ! ?p)"
  show ?thesis
  proof (cases "?p < length (levels nc) \<and> ?pos \<noteq> None")
    case False
    then show ?thesis
      by (auto simp: nc_canonicalize_def Let_def)
  next
    case True
    then obtain i where i: "?p < length (levels nc)" "?pos = Some i" "i < length (levels nc ! ?p)" "bo_hash (levels nc ! ?p ! i) = hash"
      using find_position_Some by fastforce
    define ov where "ov = levels nc ! ?p ! i"
    have ov: "ov \<in> set (levels nc ! ?p)" "bo_hash ov = hash"
      using i by (auto simp: ov_def)
    then have ov': "ov \<in> set (concat (levels nc))"
      using i(1) by (auto intro!: bexI [of _ "levels nc ! ?p"])
    have "\<exists>js. (discard_journals (parents nc) (drop (?p + 1) (levels nc)) h :: (('e, 'c) StateDbError, _) result) = Ok js" for h
    proof (rule discard_journals_ok)
      fix x
      assume "x \<in> set (block_hashes (drop (?p + 1) (levels nc)))"
      then have "x \<in> set (block_hashes (levels nc))"
        by (auto simp: block_hashes_def dest: in_set_dropD)
      then show "parents nc x \<noteq> None"
        using balanced_parent [OF overlay_okD(1) [OF ok], of x] by auto
    qed
    then obtain js where js: "(level_journals (discard_journals (parents nc) (drop (?p + 1) (levels nc))) i 0 (levels nc ! ?p)
        :: (('e, 'c) StateDbError, _) result) = Ok js"
      using level_journals_ok by blast
    have v: "(get_values (overlay_values nc) (bo_inserted ov) :: (('e, 'c) StateDbError, _) result) = Ok (map (\<lambda>k. (k, content k)) (bo_inserted ov))"
      by (rule get_values_ok) (rule overlay_values_inserted [OF ok ov'])
    have "path_ok (parents nc) (base g nc) (levels nc) (nc_pending_canonicalizations nc @ [hash])"
      using overlay_okD(4) [OF ok] i(1) ov p unfolding path_ok_snoc by auto
    then have "overlay_ok st content g L0 (nc\<lparr>nc_pending_canonicalizations := nc_pending_canonicalizations nc @ [hash]\<rparr>)"
      using ok by (simp add: overlay_ok_def base_def)
    then show ?thesis
      using i js v ov ov' by (auto simp: nc_canonicalize_def Let_def meta_insert_def ov_def [symmetric] simp del: set_concat)
  qed
qed

lemma without_descendants_subset: "set (concat (without_descendants P H ls)) \<subseteq> set (concat ls)"
  by (induction ls arbitrary: H) fastforce+

lemma below_subset: "set (concat (below P ls hs)) \<subseteq> set (concat ls)"
proof (induction P ls hs rule: below.induct)
  case (3 P l ls h hs)
  then show ?case
    using without_descendants_subset [of P "bo_hash ` set l - {h}" ls] by (auto simp del: set_concat)
qed auto

lemma moves_subset: "moves st P ls \<Longrightarrow> P' \<subseteq>\<^sub>m P \<Longrightarrow> set (concat ls') \<subseteq> set (concat ls) \<Longrightarrow> moves st P' ls'"
  unfolding moves_def map_le_def by (metis (no_types, lifting) domI subsetD)

lemma overlay_apply:
  assumes ok: "overlay_ok st content g L0 nc"
  shows "\<exists>nc'. (nc_apply_pending nc :: ('x, _) result) = Ok nc' \<and> overlay_ok st content g (levels nc') nc' \<and>
    base g nc' = last (base g nc # nc_pending_canonicalizations nc) \<and> nc_pending_canonicalizations nc' = [] \<and>
    levels nc' = below (parents nc) (levels nc) (nc_pending_canonicalizations nc)"
proof -
  let ?pend = "nc_pending_canonicalizations nc"
  let ?ls = "below (parents nc) (levels nc) ?pend"
  obtain ds where ds: "(apply_hashes (nc_pinned nc) ?pend (levels nc) (dstate nc) :: ('x, _) result) = Ok (?ls, ds)"
    "balanced {#} {} ?ls ds" "linked (ds_parents ds) {last (base g nc # ?pend)} ?ls" "shrinks ds (dstate nc)"
    using apply_hashes_ok [OF overlay_okD(1) [OF ok], of "base g nc" ?pend "nc_pinned nc", where ?'x = 'x] overlay_okD(3,4) [OF ok]
    by auto
  define nc' where "nc' = nc\<lparr>levels := ?ls, overlay_values := ds_values ds, parents := ds_parents ds,
      pinned_insertions := ds_pins ds, nc_pending_canonicalizations := [],
      last_canonicalized := (if ?pend = [] then last_canonicalized nc
        else Some (last ?pend, case last_canonicalized nc of Some (_, n) \<Rightarrow> n + length ?pend | None \<Rightarrow> length ?pend - 1)),
      pending_insertions := []\<rparr>"
  have b: "base g nc' = last (base g nc # ?pend)"
    by (simp add: nc'_def base_def)
  have "content_ok content (ds_values ds)"
    using overlay_okD(2) [OF ok] ds(4) by (fastforce simp: content_ok_def shrinks_def)
  moreover have "moves st (ds_parents ds) ?ls"
    using moves_subset [OF overlay_okD(5) [OF ok] _ below_subset] ds(4) by (simp add: shrinks_def)
  ultimately have "overlay_ok st content g (levels nc') nc'"
    unfolding overlay_ok_def b using ds(2,3) by (cases ds) (auto simp: nc'_def intro: grown_refl)
  moreover have "(nc_apply_pending nc :: ('x, _) result) = Ok nc'"
    using ds(1) by (simp add: nc_apply_pending_def apply_canonicalizations_def Let_def nc'_def)
  ultimately show ?thesis
    using b by (intro exI [of _ nc']) (simp add: nc'_def)
qed

lemma trims_keys: "trims ls' ls \<Longrightarrow> levels_keys ls' = levels_keys ls" "trims ls' ls \<Longrightarrow> block_hashes ls' = block_hashes ls"
proof -
  have "levels_keys (replicate n []) = {#}" "block_hashes (replicate n []) = []" for n
    by (induction n) auto
  then show "trims ls' ls \<Longrightarrow> levels_keys ls' = levels_keys ls" "trims ls' ls \<Longrightarrow> block_hashes ls' = block_hashes ls"
    by (auto simp: trims_def)
qed

lemma balanced_trims: "trims ls' ls \<Longrightarrow> balanced F FH ls' ds = balanced F FH ls ds"
  by (simp add: balanced_def trims_keys)

lemma revert_hashes_ok:
  "grown L0 hs L \<Longrightarrow> trims (levels nc) L \<Longrightarrow> balanced {#} {} L (dstate nc) \<Longrightarrow>
     \<exists>P V ls. (revert_hashes (rev hs) nc :: ('x, _) result) = Ok (nc\<lparr>parents := P, levels := ls, overlay_values := V\<rparr>) \<and>
       trims ls L0 \<and> balanced {#} {} L0 \<lparr>ds_values = V, ds_parents = P, ds_pins = pinned_insertions nc\<rparr> \<and>
       shrinks \<lparr>ds_values = V, ds_parents = P, ds_pins = pinned_insertions nc\<rparr> (dstate nc)"
proof (induction arbitrary: nc rule: grown.induct)
  case (grown_refl L0)
  then show ?case
    by (intro exI [of _ "parents nc"] exI [of _ "overlay_values nc"] exI [of _ "levels nc"]) simp
next
  case (grown_push L0 hs L i ov)
  note u = unpush [OF grown_push.hyps(4,2,3,5) grown_push.prems(1)]
  let ?l = "levels nc ! i"
  let ?ls = "if butlast ?l = [] then butlast ((levels nc)[i := butlast ?l]) else (levels nc)[i := butlast ?l]"
  define nc1 where "nc1 = nc\<lparr>parents := (parents nc)(bo_hash ov := None), levels := ?ls,
      overlay_values := discard_values (bo_inserted ov) (overlay_values nc)\<rparr>"
  have b: "balanced ({#} + mset (bo_inserted ov)) (insert (bo_hash ov) {}) L (dstate nc)"
    using grown_push.prems(2) unfolding balanced_push by simp
  have d: "dstate nc1 = drop_block ov 0 (dstate nc)"
    by (simp add: nc1_def drop_block_def)
  have pins: "pinned_insertions nc1 = pinned_insertions nc"
    by (simp add: nc1_def)
  have "trims (levels nc1) L"
    using u(3) by (simp add: nc1_def)
  moreover have "balanced {#} {} L (dstate nc1)"
    unfolding d by (rule drop_block_ok(1) [OF b]) simp
  moreover have sh: "shrinks (dstate nc1) (dstate nc)"
    unfolding d by (rule drop_block_ok(2) [OF b]) simp
  ultimately obtain P V ls where
    "(revert_hashes (rev hs) nc1 :: ('x, _) result) = Ok (nc1\<lparr>parents := P, levels := ls, overlay_values := V\<rparr>)" "trims ls L0"
    "balanced {#} {} L0 \<lparr>ds_values = V, ds_parents = P, ds_pins = pinned_insertions nc\<rparr>"
    "shrinks \<lparr>ds_values = V, ds_parents = P, ds_pins = pinned_insertions nc\<rparr> (dstate nc1)"
    using grown_push.IH [of nc1] unfolding pins by blast
  then show ?case
    using u(1) [where ?'x = 'x] u(2) shrinks_trans [OF _ sh]
    by (intro exI [of _ P] exI [of _ V] exI [of _ ls]) (simp add: nc1_def Let_def)
qed

lemma trims_refl: "trims ls ls"
  by (auto simp: trims_def intro: exI [of _ 0])

lemma trims_concat: "trims ls' ls \<Longrightarrow> concat ls' = concat ls"
  by (auto simp: trims_def)

lemma grown_hashes: "grown L0 hs L \<Longrightarrow> set (block_hashes L0) \<subseteq> set (block_hashes L)"
  unfolding hashes_concat by (rule image_mono) (rule grown_subset)

lemma overlay_revert:
  assumes ok: "overlay_ok st content g L0 nc"
  shows "\<exists>nc'. (nc_revert_pending nc :: ('x, _) result) = Ok nc' \<and> overlay_ok st content g (levels nc') nc' \<and>
    base g nc' = base g nc \<and> nc_pending_canonicalizations nc' = [] \<and> concat (levels nc') = concat L0"
proof -
  let ?nc = "nc\<lparr>nc_pending_canonicalizations := []\<rparr>"
  obtain P V ls where r: "(revert_hashes (rev (pending_insertions nc)) ?nc :: ('x, _) result) =
        Ok (?nc\<lparr>parents := P, levels := ls, overlay_values := V\<rparr>)" "trims ls L0"
    "balanced {#} {} L0 \<lparr>ds_values = V, ds_parents = P, ds_pins = pinned_insertions nc\<rparr>"
    "shrinks \<lparr>ds_values = V, ds_parents = P, ds_pins = pinned_insertions nc\<rparr> (dstate nc)"
    using revert_hashes_ok [OF overlay_okD(6) [OF ok], of ?nc, where ?'x = 'x] overlay_okD(1) [OF ok] by (auto simp: trims_refl)
  define nc' where "nc' = ?nc\<lparr>parents := P, levels := ls, overlay_values := V, pending_insertions := []\<rparr>"
  have base: "base g nc' = base g nc"
    by (simp add: nc'_def base_def)
  have "linked P {base g nc} L0"
    using overlay_okD(7) [OF ok] balanced_agree [OF r(3,4)] by (subst linked_cong [of L0 P "parents nc"]) auto
  then have "linked P {base g nc} ls"
    using r(2) by (auto simp: trims_def intro: linked_append)
  moreover have "moves st P ls"
    using moves_subset [OF overlay_okD(5) [OF ok], of P ls] r(4) grown_subset [OF overlay_okD(6) [OF ok]] trims_concat [OF r(2)]
    by (simp add: shrinks_def)
  moreover have "content_ok content V"
    using overlay_okD(2) [OF ok] r(4) by (fastforce simp: content_ok_def shrinks_def)
  moreover have "balanced {#} {} ls \<lparr>ds_values = V, ds_parents = P, ds_pins = pinned_insertions nc\<rparr>"
    using r(3) balanced_trims [OF r(2)] by blast
  ultimately have "overlay_ok st content g (levels nc') nc'"
    unfolding overlay_ok_def base by (auto simp: nc'_def intro: grown_refl)
  moreover have "(nc_revert_pending nc :: ('x, _) result) = Ok nc'"
    using r(1) by (simp add: nc_revert_pending_def revert_insertions_def nc'_def)
  ultimately show ?thesis
    using base trims_concat [OF r(2)] by (intro exI [of _ nc']) (simp add: nc'_def del: concat.simps)
qed

section \<open>Pinning\<close>

lemma overlay_ok_pinned [simp]: "overlay_ok st content g L0 (nc\<lparr>nc_pinned := x\<rparr>) = overlay_ok st content g L0 nc"
  by (simp add: overlay_ok_def base_def)

lemma overlay_ok_shrink:
  assumes ok: "overlay_ok st content g L0 nc" and b: "balanced {#} {} (levels nc) (dstate nc')" and sh: "shrinks (dstate nc') (dstate nc)"
    and eq: "levels nc' = levels nc" "last_canonicalized nc' = last_canonicalized nc"
      "nc_pending_canonicalizations nc' = nc_pending_canonicalizations nc" "pending_insertions nc' = pending_insertions nc"
  shows "overlay_ok st content g L0 nc'"
proof -
  have agree: "parents nc' x = parents nc x" if "x \<in> set (block_hashes (levels nc))" for x
    using balanced_agree [OF b sh] that by simp
  have "linked (parents nc') {base g nc} (levels nc)" "path_ok (parents nc') (base g nc) (levels nc) (nc_pending_canonicalizations nc)"
    "moves st (parents nc') (levels nc)"
    using overlay_okD(3-5) [OF ok] linked_cong [of "levels nc" "parents nc'" "parents nc"]
      path_ok_cong [of "levels nc" "parents nc'" "parents nc"] moves_cong [of "levels nc" "parents nc'" "parents nc"] agree by auto
  moreover have "linked (parents nc') {base g nc} L0"
    using overlay_okD(7) [OF ok] linked_cong [of L0 "parents nc'" "parents nc"] agree grown_hashes [OF overlay_okD(6) [OF ok]] by blast
  moreover have "content_ok content (overlay_values nc')"
    using overlay_okD(2) [OF ok] sh by (fastforce simp: content_ok_def shrinks_def)
  moreover have "base g nc' = base g nc"
    by (simp add: base_def eq)
  ultimately show ?thesis
    using b overlay_okD(6) [OF ok] unfolding overlay_ok_def by (simp add: eq)
qed

lemma overlay_pin: "overlay_ok st content g L0 nc \<Longrightarrow> overlay_ok st content g L0 (nc_pin hash nc)"
  by (simp add: nc_pin_def)

text \<open>The references of all pinned insertions: every step of the walk towards the root uses one up.\<close>

definition pin_total :: "('h \<Rightarrow> ('k list \<times> nat) option) \<Rightarrow> nat" where
  "pin_total pins = (\<Sum>h \<in> dom pins. snd (the (pins h)))"

lemma pin_total_remove: "finite (dom pins) \<Longrightarrow> pins h = Some (ins, n) \<Longrightarrow> pin_total pins = n + pin_total (pins(h := None))"
proof -
  assume f: "finite (dom pins)" "pins h = Some (ins, n)"
  have "(\<Sum>x \<in> dom pins - {h}. snd (the ((pins(h := None)) x))) = (\<Sum>x \<in> dom pins - {h}. snd (the (pins x)))"
    by (rule sum.cong) auto
  then show ?thesis
    using f sum.remove [of "dom pins" h "\<lambda>x. snd (the (pins x))"] by (simp add: pin_total_def domI)
qed

lemma pin_total_update:
  assumes "finite (dom pins)" "pins h = Some (ins, n)" "m < n"
  shows "pin_total (pins(h \<mapsto> (ins, m))) < pin_total pins"
  using pin_total_remove [OF assms(1,2)] pin_total_remove [of "pins(h \<mapsto> (ins, m))" h ins m] assms by simp

lemma balanced_release:
  assumes b: "balanced {#} {} ls ds" and p: "ds_pins ds h = Some (ins, n)"
  shows "balanced {#} {} ls (ds\<lparr>ds_pins := (ds_pins ds)(h := None), ds_values := discard_values ins (ds_values ds),
      ds_parents := (ds_parents ds)(h := None)\<rparr>)"
    "0 < m \<Longrightarrow> balanced {#} {} ls (ds\<lparr>ds_pins := (ds_pins ds)(h \<mapsto> (ins, m))\<rparr>)"
proof -
  note d = b [unfolded balanced_def]
  have k: "pin_keys (ds_pins ds) = mset ins + pin_keys ((ds_pins ds)(h := None))"
    using d p by (intro pin_keys_remove) auto
  have "vals_ok (levels_keys ls + pin_keys ((ds_pins ds)(h := None)) + mset ins) (ds_values ds)"
    using d unfolding k by (simp add: ac_simps)
  then have v: "vals_ok (levels_keys ls + pin_keys ((ds_pins ds)(h := None))) (discard_values ins (ds_values ds))"
    by (rule discard_values_ok)
  have "h \<notin> set (block_hashes ls)"
    using d p by auto
  then show "balanced {#} {} ls (ds\<lparr>ds_pins := (ds_pins ds)(h := None), ds_values := discard_values ins (ds_values ds),
      ds_parents := (ds_parents ds)(h := None)\<rparr>)"
    using d v unfolding balanced_def by auto
  show "balanced {#} {} ls (ds\<lparr>ds_pins := (ds_pins ds)(h \<mapsto> (ins, m))\<rparr>)" if "0 < m"
    using d that p unfolding balanced_def by (auto simp: pin_keys_counter [of "ds_pins ds" h ins n])
qed

lemma release_ancestors_ok:
  "overlay_ok st content g L0 nc \<Longrightarrow>
     \<exists>nc'. release_ancestors hash nc = Some nc' \<and> overlay_ok st content g L0 nc' \<and> levels nc' = levels nc \<and>
       last_canonicalized nc' = last_canonicalized nc \<and> nc_pending_canonicalizations nc' = nc_pending_canonicalizations nc"
proof (induction "pin_total (pinned_insertions nc)" arbitrary: hash nc rule: less_induct)
  case less
  note b = overlay_okD(1) [OF less.prems]
  show ?case
  proof (cases "pinned_insertions nc hash")
    case None
    then show ?thesis
      using less.prems by (simp add: release_ancestors.simps)
  next
    case (Some p)
    then obtain ins refs where p: "pinned_insertions nc hash = Some (ins, refs)"
      by (cases p) auto
    have fin: "finite (dom (pinned_insertions nc))" "0 < refs"
      using b p unfolding balanced_def by auto
    let ?nc = "if dec_u32 refs = 0
               then nc\<lparr>pinned_insertions := (pinned_insertions nc)(hash := None),
                       overlay_values := discard_values ins (overlay_values nc),
                       parents := (parents nc)(hash := None)\<rparr>
               else nc\<lparr>pinned_insertions := (pinned_insertions nc)(hash \<mapsto> (ins, dec_u32 refs))\<rparr>"
    have "overlay_ok st content g L0 ?nc"
    proof (rule overlay_ok_shrink [OF less.prems])
      show "balanced {#} {} (levels nc) (dstate ?nc)"
        using balanced_release(1) [OF b, of hash ins refs] balanced_release(2) [OF b, of hash ins refs "dec_u32 refs"] p by simp
      show "shrinks (dstate ?nc) (dstate nc)"
        by (auto simp: shrinks_def map_le_def dest: discard_values_le)
    qed auto
    moreover have "pin_total (pinned_insertions ?nc) < pin_total (pinned_insertions nc)"
      using pin_total_remove [OF fin(1) p] pin_total_update [OF fin(1) p, of "dec_u32 refs"] fin(2) by (simp add: dec_u32_def)
    ultimately have IH: "\<exists>nc'. release_ancestors parent ?nc = Some nc' \<and> overlay_ok st content g L0 nc' \<and> levels nc' = levels nc \<and>
       last_canonicalized nc' = last_canonicalized nc \<and> nc_pending_canonicalizations nc' = nc_pending_canonicalizations nc" for parent
      using less.hyps [of ?nc parent] by auto
    have "hash \<in> dom (parents nc)"
      using b p unfolding balanced_def by auto
    then obtain parent where "parents nc hash = Some parent"
      by blast
    then show ?thesis
      using IH [of parent] p by (subst release_ancestors.simps) (simp add: Let_def)
  qed
qed

lemma overlay_unpin:
  assumes "overlay_ok st content g L0 nc"
  shows "\<exists>nc'. nc_unpin hash nc = Some nc' \<and> overlay_ok st content g L0 nc' \<and> levels nc' = levels nc \<and>
     last_canonicalized nc' = last_canonicalized nc \<and> nc_pending_canonicalizations nc' = nc_pending_canonicalizations nc"
  using assms release_ancestors_ok [of st content g L0 "nc\<lparr>nc_pinned := (nc_pinned nc)(hash := None)\<rparr>" hash]
  by (auto simp: nc_unpin_def split: option.split)

section \<open>Taking back the last level\<close>

lemma drop_level_eq:
  "drop_level ovs (commit, nc) = (commit', nc') \<Longrightarrow>
     dstate nc' = foldl (\<lambda>ds ov. drop_block ov 0 ds) (dstate nc) ovs \<and> commit_data commit' = commit_data commit \<and>
     levels nc' = levels nc \<and> last_canonicalized nc' = last_canonicalized nc \<and>
     nc_pending_canonicalizations nc' = nc_pending_canonicalizations nc \<and> pending_insertions nc' = pending_insertions nc"
proof (induction ovs arbitrary: commit nc)
  case (Cons ov ovs)
  then show ?case
    by (fastforce simp: drop_block_def)
qed simp

lemma drop_blocks_ok:
  "balanced (level_keys ovs) (set (map bo_hash ovs)) ls ds \<Longrightarrow> distinct (map bo_hash ovs) \<Longrightarrow>
     balanced {#} {} ls (foldl (\<lambda>ds ov. drop_block ov 0 ds) ds ovs) \<and> shrinks (foldl (\<lambda>ds ov. drop_block ov 0 ds) ds ovs) ds"
proof (induction ovs arbitrary: ds)
  case (Cons ov ovs)
  have b: "balanced (level_keys ovs + mset (bo_inserted ov)) (insert (bo_hash ov) (set (map bo_hash ovs))) ls ds"
    using Cons.prems(1) by (simp add: ac_simps)
  have n: "bo_hash ov \<notin> set (map bo_hash ovs)"
    using Cons.prems(2) by simp
  show ?case
    using Cons.IH [OF drop_block_ok(1) [OF b n, of 0]] drop_block_ok(2) [OF b n, of 0] Cons.prems(2)
    by (auto intro: shrinks_trans)
qed simp

lemma balanced_snoc:
  "balanced {#} {} (ls @ [l]) ds \<Longrightarrow> balanced (level_keys l) (set (map bo_hash l)) ls ds \<and> distinct (map bo_hash l)"
  unfolding balanced_def by (auto simp: ac_simps)

lemma overlay_revert_one:
  assumes ok: "overlay_ok st content g L0 nc" and n: "nc_pending_canonicalizations nc = []" "pending_insertions nc = []"
    and r: "nc_revert_one nc = (commit, nc')"
  shows "overlay_ok st content g (levels nc') nc'" "base g nc' = base g nc" "nc_pending_canonicalizations nc' = []"
    "\<forall>c. commit = Some c \<longrightarrow> commit_data c = empty_changes"
proof -
  have "overlay_ok st content g (levels nc') nc' \<and> base g nc' = base g nc \<and> nc_pending_canonicalizations nc' = [] \<and>
    (\<forall>c. commit = Some c \<longrightarrow> commit_data c = empty_changes)"
  proof (cases "levels nc = []")
    case True
    then show ?thesis
      using ok n r by (auto simp: nc_revert_one_def overlay_ok_def intro: grown_refl)
  next
    case False
    let ?ls = "butlast (levels nc)" and ?l = "last (levels nc)"
    have ls: "levels nc = ?ls @ [?l]"
      using False by simp
    obtain c where c: "drop_level ?l (empty_commit, nc\<lparr>levels := ?ls\<rparr>) = (c, nc')" "commit = Some c"
      using r False by (auto simp: nc_revert_one_def Let_def split: prod.splits)
    note d = drop_level_eq [OF c(1)]
    have "balanced {#} {} ?ls (dstate nc')" and sh: "shrinks (dstate nc') (dstate nc)"
      using drop_blocks_ok [of ?l ?ls "dstate nc"] balanced_snoc [of ?ls ?l "dstate nc"] overlay_okD(1) [OF ok] ls d by auto
    then have b: "balanced {#} {} (levels nc') (dstate nc')"
      using d by simp
    have lv: "levels nc' = ?ls"
      using d by simp
    have agree: "parents nc' x = parents nc x" if "x \<in> set (block_hashes ?ls)" for x
      using balanced_agree [OF b sh, of x] that unfolding lv by simp
    have "linked (parents nc') {base g nc} ?ls"
      using linked_append [of "parents nc" "{base g nc}" ?ls "[?l]"] overlay_okD(3) [OF ok] ls
        linked_cong [of ?ls "parents nc'" "parents nc"] agree by metis
    moreover have "moves st (parents nc') ?ls"
      using sh by (intro moves_subset [OF overlay_okD(5) [OF ok]]) (auto simp: shrinks_def dest: in_set_butlastD)
    moreover have "content_ok content (overlay_values nc')"
      using overlay_okD(2) [OF ok] sh by (fastforce simp: content_ok_def shrinks_def)
    moreover have bs: "base g nc' = base g nc"
      using d by (simp add: base_def)
    ultimately show ?thesis
      using b d n c(2) unfolding overlay_ok_def bs by (simp add: grown_refl empty_commit_def)
  qed
  then show "overlay_ok st content g (levels nc') nc'" "base g nc' = base g nc" "nc_pending_canonicalizations nc' = []"
    "\<forall>c. commit = Some c \<longrightarrow> commit_data c = empty_changes"
    by blast+
qed

end
