(* ===== verification/StateDbRuns.thy ===== *)
theory StateDbRuns
  imports StateDbOverlayRuns
begin

text \<open>
  Runs of the state database as the client drives it: every call adds its commit to one transaction, \<open>apply_pending\<close>
  follows the writing of the transaction and \<open>revert_pending\<close> its loss. The mode is \<open>Constrained\<close> and insertions are
  counted. The invariant of a run says what is on disk and what the transaction adds.
\<close>

section \<open>The client\<close>

datatype ('h, 'k) call =
    InsertBlock 'h nat 'h "'k ChangeSet"
  | CanonicalizeBlock 'h
  | PinBlock 'h
  | UnpinBlock 'h
  | ApplyPending
  | RevertPending
  | RevertOne

text \<open>\<open>n_chain\<close> records the canonical blocks that have been applied, for the statements only.\<close>

record ('h, 'k) node =
  n_sdb :: "('h, 'k) StateDbSync"
  n_disk :: "'k database"
  n_txn :: "'k CommitSet list"
  n_chain :: "'h list"

definition written :: "('h, 'k) node \<Rightarrow> 'k database" where
  "written n = foldl (\<lambda>db commit. apply_state_commit commit db) (n_disk n) (n_txn n)"

text \<open>An error of a call leaves the state as it is; \<open>None\<close> is a call that does not return.\<close>

definition with_commit ::
    "('x, 'k CommitSet \<times> ('h, 'k) StateDbSync) result \<Rightarrow> ('h, 'k) node \<Rightarrow> (unit, ('h, 'k) node) result" where
  "with_commit r n =
     (case r of
        Ok (commit, s) \<Rightarrow> Ok (n\<lparr>n_sdb := s, n_txn := n_txn n @ [commit]\<rparr>)
      | Err e \<Rightarrow> Ok n
      | Panic \<Rightarrow> Panic)"

fun do_call :: "('h, 'k, 'c) codec \<Rightarrow> ('h, 'k) call \<Rightarrow> ('h, 'k) node \<Rightarrow> (unit, ('h, 'k) node) result option" where
  "do_call c (InsertBlock hash number parent changes) n =
     Some (with_commit (insert_block c hash number parent changes (n_sdb n) :: (('c, 'c) StateDbError, _) result) n)"
| "do_call c (CanonicalizeBlock hash) n =
     Some (with_commit (canonicalize_block c hash (n_sdb n) :: (('c, 'c) StateDbError, _) result) n)"
| "do_call c (PinBlock hash) n =
     Some (case sdb_pin hash (n_sdb n) of Ok s \<Rightarrow> Ok (n\<lparr>n_sdb := s\<rparr>) | Err e \<Rightarrow> Ok n | Panic \<Rightarrow> Panic)"
| "do_call c (UnpinBlock hash) n = map_option (\<lambda>s. Ok (n\<lparr>n_sdb := s\<rparr>)) (sdb_unpin hash (n_sdb n))"
| "do_call c ApplyPending n =
     Some (and_then (sdb_apply_pending (n_sdb n)) (\<lambda>s.
       Ok (n\<lparr>n_sdb := s, n_disk := written n, n_txn := [],
             n_chain := n_chain n @ nc_pending_canonicalizations (non_canonical (n_sdb n))\<rparr>)))"
| "do_call c RevertPending n =
     Some (and_then (sdb_revert_pending (n_sdb n)) (\<lambda>s. Ok (n\<lparr>n_sdb := s, n_txn := []\<rparr>)))"
| "do_call c RevertOne n =
     (let (commit, s) = sdb_revert_one (n_sdb n)
      in Some (Ok (n\<lparr>n_sdb := s, n_disk := (case commit of Some cm \<Rightarrow> apply_state_commit cm (n_disk n) | None \<Rightarrow> n_disk n)\<rparr>)))"

fun run_calls :: "('h, 'k, 'c) codec \<Rightarrow> ('h, 'k) call list \<Rightarrow> ('h, 'k) node \<Rightarrow> (unit, ('h, 'k) node) result option" where
  "run_calls c [] n = Some (Ok n)"
| "run_calls c (x # xs) n = (case do_call c x n of Some (Ok n') \<Rightarrow> run_calls c xs n' | r \<Rightarrow> r)"

text \<open>
  What the client sees to. \<open>st h\<close> is the set of the trie nodes of the state of block \<open>h\<close>, \<open>content k\<close> the value of node
  \<open>k\<close>, and \<open>g\<close> the block before the first: a block is inserted once, below its parent, with a change set that leads from
  the state of its parent to its own; blocks are canonicalized along the chain; levels are taken back outside of a
  transaction.
\<close>

fun allowed :: "('h \<Rightarrow> 'k set) \<Rightarrow> ('k \<Rightarrow> DBValue) \<Rightarrow> 'h \<Rightarrow> ('h, 'k) call \<Rightarrow> ('h, 'k) node \<Rightarrow> bool" where
  "allowed st content g (InsertBlock hash number parent changes) n \<longleftrightarrow>
     parents (non_canonical (n_sdb n)) hash = None \<and> fits g number parent (non_canonical (n_sdb n)) \<and>
     leads (st parent) (fst ` set (cs_inserted changes)) (set (cs_deleted changes)) (st hash) \<and>
     (\<forall>(k, v) \<in> set (cs_inserted changes). v = content k)"
| "allowed st content g (CanonicalizeBlock hash) n \<longleftrightarrow>
     (let nc = non_canonical (n_sdb n) in parents nc hash = Some (last (base g nc # nc_pending_canonicalizations nc)))"
| "allowed st content g RevertOne n \<longleftrightarrow>
     nc_pending_canonicalizations (non_canonical (n_sdb n)) = [] \<and> pending_insertions (non_canonical (n_sdb n)) = [] \<and> n_txn n = []"
| "allowed st content g _ n \<longleftrightarrow> True"

fun admissible :: "('h, 'k, 'c) codec \<Rightarrow> ('h \<Rightarrow> 'k set) \<Rightarrow> ('k \<Rightarrow> DBValue) \<Rightarrow> 'h \<Rightarrow> ('h, 'k) call list \<Rightarrow> ('h, 'k) node \<Rightarrow> bool" where
  "admissible c st content g [] n \<longleftrightarrow> True"
| "admissible c st content g (x # xs) n \<longleftrightarrow>
     allowed st content g x n \<and> (case do_call c x n of Some (Ok n') \<Rightarrow> admissible c st content g xs n' | _ \<Rightarrow> True)"

section \<open>The invariant\<close>

definition chain_states :: "('h \<Rightarrow> 'k set) \<Rightarrow> 'h \<Rightarrow> ('h, 'k) node \<Rightarrow> 'k set list" where
  "chain_states st g n = map st (g # n_chain n @ nc_pending_canonicalizations (non_canonical (n_sdb n)))"

definition disk_ok :: "('h \<Rightarrow> 'k set) \<Rightarrow> ('k \<Rightarrow> DBValue) \<Rightarrow> 'h \<Rightarrow> ('h, 'k) node \<Rightarrow> ('h, 'k) RefWindow \<Rightarrow> bool" where
  "disk_ok st content g n w \<longleftrightarrow>
     keeps_states (dom (state_column (written n))) w (chain_states st g n) \<and>
     (\<forall>h \<in> set (drop (pending_number w) (g # n_chain n)). st h \<subseteq> dom (state_column (n_disk n))) \<and>
     (\<forall>k v. state_column (n_disk n) k = Some v \<longrightarrow> v = content k) \<and>
     (\<forall>k v. state_column (written n) k = Some v \<longrightarrow> v = content k)"

definition node_ok ::
    "('h \<Rightarrow> 'k set) \<Rightarrow> ('k \<Rightarrow> DBValue) \<Rightarrow> 'h \<Rightarrow> Constraints \<Rightarrow> ('h, 'k) BlockOverlay list list \<Rightarrow> ('h, 'k) RefWindow \<Rightarrow> ('h, 'k) node \<Rightarrow> bool" where
  "node_ok st content g cs L0 w n \<longleftrightarrow>
     sdb_mode (n_sdb n) = Constrained cs \<and> sdb_pruning (n_sdb n) = Some w \<and>
     overlay_ok st content g L0 (non_canonical (n_sdb n)) \<and>
     base g (non_canonical (n_sdb n)) = last (g # n_chain n) \<and>
     window_ok w (chain_states st g n) \<and>
     map dr_hash (death_rows w) = drop (pending_number w) (n_chain n @ nc_pending_canonicalizations (non_canonical (n_sdb n))) \<and>
     rw_pending_canonicalizations w = length (nc_pending_canonicalizations (non_canonical (n_sdb n))) \<and>
     disk_ok st content g n w"

lemma node_okD:
  assumes "node_ok st content g cs L0 w n"
  shows "sdb_mode (n_sdb n) = Constrained cs" "sdb_pruning (n_sdb n) = Some w" "overlay_ok st content g L0 (non_canonical (n_sdb n))"
    "base g (non_canonical (n_sdb n)) = last (g # n_chain n)" "window_ok w (chain_states st g n)"
    "map dr_hash (death_rows w) = drop (pending_number w) (n_chain n @ nc_pending_canonicalizations (non_canonical (n_sdb n)))"
    "rw_pending_canonicalizations w = length (nc_pending_canonicalizations (non_canonical (n_sdb n)))" "disk_ok st content g n w"
  using assms unfolding node_ok_def by blast+

text \<open>The start: an empty overlay, an empty window and the nodes of the state of \<open>g\<close> on disk.\<close>

definition fresh_node :: "Constraints \<Rightarrow> 'k database \<Rightarrow> ('h, 'k) node" where
  "fresh_node cs db =
     \<lparr>n_sdb = \<lparr>sdb_mode = Constrained cs, non_canonical = empty_overlay None,
              sdb_pruning = Some \<lparr>death_rows = [], death_index = (\<lambda>_. None), pending_number = 0,
                rw_pending_canonicalizations = 0, pending_prunings = 0, count_insertions = True\<rparr>,
              sdb_pinned = (\<lambda>_. None)\<rparr>,
      n_disk = db, n_txn = [], n_chain = []\<rparr>"

definition holds :: "('k \<Rightarrow> DBValue) \<Rightarrow> 'k set \<Rightarrow> 'k database \<Rightarrow> bool" where
  "holds content S db \<longleftrightarrow> state_column db = (\<lambda>k. if k \<in> S then Some (content k) else None)"

lemma overlay_ok_empty: "overlay_ok st content g [] (empty_overlay None)"
  by (simp add: overlay_ok_def balanced_def vals_ok_def empty_overlay_def content_ok_def moves_def pin_keys_def grown_refl)

lemma node_ok_fresh: "holds content (st g) db \<Longrightarrow>
    node_ok st content g cs [] (the (sdb_pruning (n_sdb (fresh_node cs db)))) (fresh_node cs db)"
  unfolding node_ok_def
  by (auto simp: fresh_node_def overlay_ok_empty [unfolded empty_overlay_def] base_def empty_overlay_def window_ok_def chain_states_def index_ok_def disk_ok_def
      written_def keeps_states_def holds_def split: if_splits)

section \<open>Writing commits\<close>

lemma write_nothing [simp]: "write_changes empty_changes col = col"
  by (simp add: write_changes_def empty_changes_def)

lemma write_changes_eq:
  "write_changes cs col k = (if k \<in> set (cs_deleted cs) then None else
     (foldl (\<lambda>m (k, v). m(k \<mapsto> v)) col (cs_inserted cs)) k)"
  by (simp add: write_changes_def foldl_remove)

lemma foldl_content:
  "foldl (\<lambda>m (k, v). m(k \<mapsto> v)) col (map (\<lambda>k. (k, content k)) ks) = (\<lambda>k. if k \<in> set ks then Some (content k) else col k)"
  by (induction ks arbitrary: col) auto

text \<open>One more pruned row: its nodes leave the column.\<close>

lemma prune_one_commit:
  assumes "pending_prunings w < length (death_rows w)"
  shows "dom (write_changes (commit_data (fst (prune_one c commit w))) col) =
      dom (write_changes (commit_data commit) col) - row_keys w (pending_prunings w)"
    "write_changes (commit_data (fst (prune_one c commit w))) col \<subseteq>\<^sub>m write_changes (commit_data commit) col"
  using assms by (auto simp: prune_one_def Let_def write_changes_eq row_keys_def map_le_def dom_def)

text \<open>Induction along the loop: it stops, or prunes one row and goes on.\<close>

lemma prune_loop_rule [case_names stop step]:
  assumes stop: "\<And>commit w. prune_loop c cs pinned commit w = (commit, w) \<Longrightarrow> P commit w"
    and step: "\<And>commit w. pending_prunings w < length (death_rows w) \<Longrightarrow>
      prune_loop c cs pinned commit w = prune_loop c cs pinned (fst (prune_one c commit w)) (w\<lparr>pending_prunings := Suc (pending_prunings w)\<rparr>) \<Longrightarrow>
      P (fst (prune_one c commit w)) (w\<lparr>pending_prunings := Suc (pending_prunings w)\<rparr>) \<Longrightarrow> P commit w"
  shows "P commit w"
proof (induction "window_size w" arbitrary: commit w rule: less_induct)
  case less
  show ?case
  proof (cases "window_size w \<le> (case max_blocks cs of Some n \<Rightarrow> n | None \<Rightarrow> 0) \<or>
      (case max_mem cs of Some m \<Rightarrow> mem_used w > m | None \<Rightarrow> False) \<or> (case next_hash w of Some h \<Rightarrow> pinned h \<noteq> None | None \<Rightarrow> False)")
    case True
    then show ?thesis
      by (intro stop, subst prune_loop.simps) auto
  next
    case False
    then have p: "pending_prunings w < length (death_rows w)"
      by (auto simp: window_size_def)
    have "prune_loop c cs pinned commit w = prune_loop c cs pinned (fst (prune_one c commit w)) (w\<lparr>pending_prunings := Suc (pending_prunings w)\<rparr>)"
      using False by (subst prune_loop.simps) (auto simp: prune_one_sel [OF p])
    moreover have "window_size (w\<lparr>pending_prunings := Suc (pending_prunings w)\<rparr>) < window_size w"
      using p by (simp add: window_size_def)
    ultimately show ?thesis
      by (intro step [OF p] less)
  qed
qed

text \<open>The whole loop only moves \<open>pending_prunings\<close>, and keeps the database faithful to the states.\<close>

lemma prune_loop_window:
  "\<exists>p. pending_prunings w \<le> p \<and> snd (prune_loop c cs pinned commit w) = w\<lparr>pending_prunings := p\<rparr>"
proof (induction commit w rule: prune_loop_rule [of c cs pinned])
  case (stop commit w)
  then show ?case
    by (auto intro!: exI [of _ "pending_prunings w"])
next
  case (step commit w)
  then show ?case
    by (auto dest: Suc_leD)
qed

lemma prune_loop_ge: "pending_prunings w \<le> pending_prunings (snd (prune_loop c cs pinned commit w))"
proof -
  obtain p where "pending_prunings w \<le> p" "snd (prune_loop c cs pinned commit w) = w\<lparr>pending_prunings := p\<rparr>"
    using prune_loop_window by blast
  then show ?thesis
    by simp
qed

lemma prune_loop_bound:
  "pending_prunings w \<le> length (death_rows w) \<Longrightarrow> pending_prunings (snd (prune_loop c cs pinned commit w)) \<le> length (death_rows w)"
  by (induction commit w rule: prune_loop_rule [of c cs pinned]) simp_all

lemma prune_loop_ok:
  assumes "window_ok w Ss" "keeps_states (dom (write_changes (commit_data commit) col)) w Ss"
  shows "window_ok (snd (prune_loop c cs pinned commit w)) Ss \<and>
    keeps_states (dom (write_changes (commit_data (fst (prune_loop c cs pinned commit w))) col)) (snd (prune_loop c cs pinned commit w)) Ss \<and>
    write_changes (commit_data (fst (prune_loop c cs pinned commit w))) col \<subseteq>\<^sub>m write_changes (commit_data commit) col \<and>
    (window_exact w Ss \<longrightarrow> window_exact (snd (prune_loop c cs pinned commit w)) Ss \<and>
       (no_garbage (dom (write_changes (commit_data commit) col)) w Ss \<longrightarrow>
        no_garbage (dom (write_changes (commit_data (fst (prune_loop c cs pinned commit w))) col)) (snd (prune_loop c cs pinned commit w)) Ss))"
  using assms
proof (induction commit w rule: prune_loop_rule [of c cs pinned])
  case (step commit w)
  note p = step.hyps(1)
  let ?c1 = "fst (prune_one c commit w)" and ?w1 = "w\<lparr>pending_prunings := Suc (pending_prunings w)\<rparr>"
  note one = prune_one_ok [OF step.prems(1) p, of c commit, unfolded prune_one_sel [OF p]]
  have k: "keeps_states (dom (write_changes (commit_data ?c1) col)) ?w1 Ss"
    using keeps_pruned [OF step.prems(1) p step.prems(2), of c commit] unfolding prune_one_commit(1) [OF p] prune_one_sel [OF p] .
  have g: "no_garbage (dom (write_changes (commit_data ?c1) col)) ?w1 Ss"
    if "window_exact w Ss" "no_garbage (dom (write_changes (commit_data commit) col)) w Ss"
    using no_garbage_pruned [OF step.prems(1) that(1) p that(2), of c commit] unfolding prune_one_commit(1) [OF p] prune_one_sel [OF p] .
  show ?case
    using step.IH [OF one(1) k] one(2) g map_le_trans [OF _ prune_one_commit(2) [OF p, of c commit col]] unfolding step.hyps(2) by simp
qed simp

section \<open>Steps\<close>

text \<open>
  Runs that never lose a transaction and whose blocks delete nothing they insert leave no garbage behind.
\<close>

definition exact_ok :: "('h \<Rightarrow> 'k set) \<Rightarrow> 'h \<Rightarrow> ('h, 'k) node \<Rightarrow> ('h, 'k) RefWindow \<Rightarrow> bool" where
  "exact_ok st g n w \<longleftrightarrow>
     window_exact w (chain_states st g n) \<and> no_garbage (dom (state_column (written n))) w (chain_states st g n) \<and>
     (\<forall>ov \<in> set (concat (levels (non_canonical (n_sdb n)))). set (bo_inserted ov) \<inter> set (bo_deleted ov) = {})"

fun tidy :: "('h, 'k) call \<Rightarrow> bool" where
  "tidy (InsertBlock hash number parent changes) \<longleftrightarrow> fst ` set (cs_inserted changes) \<inter> set (cs_deleted changes) = {}"
| "tidy RevertPending \<longleftrightarrow> False"
| "tidy _ \<longleftrightarrow> True"

definition step_ok ::
    "('h, 'k, 'c) codec \<Rightarrow> ('h \<Rightarrow> 'k set) \<Rightarrow> ('k \<Rightarrow> DBValue) \<Rightarrow> 'h \<Rightarrow> Constraints \<Rightarrow> ('h, 'k) call \<Rightarrow> ('h, 'k) RefWindow \<Rightarrow> ('h, 'k) node \<Rightarrow> bool" where
  "step_ok c st content g cs x w n \<longleftrightarrow> (\<exists>n' L0' w'. do_call c x n = Some (Ok n') \<and> node_ok st content g cs L0' w' n' \<and>
     (tidy x \<and> exact_ok st g n w \<longrightarrow> exact_ok st g n' w'))"

lemma step_okI: "do_call c x n = Some (Ok n') \<Longrightarrow> node_ok st content g cs L0' w' n' \<Longrightarrow>
    (tidy x \<Longrightarrow> exact_ok st g n w \<Longrightarrow> exact_ok st g n' w') \<Longrightarrow> step_ok c st content g cs x w n"
  unfolding step_ok_def by blast

lemma written_snoc: "written (n\<lparr>n_sdb := s, n_txn := n_txn n @ [commit]\<rparr>) = apply_state_commit commit (written n)"
  by (simp add: written_def)

text \<open>Calls that change neither the chain nor the window nor the state column.\<close>

lemma node_ok_same:
  assumes "node_ok st content g cs L0 w n" "overlay_ok st content g L0' nc" "base g nc = base g (non_canonical (n_sdb n))"
    "nc_pending_canonicalizations nc = nc_pending_canonicalizations (non_canonical (n_sdb n))"
    "non_canonical (n_sdb n') = nc" "sdb_mode (n_sdb n') = sdb_mode (n_sdb n)" "sdb_pruning (n_sdb n') = sdb_pruning (n_sdb n)"
    "state_column (n_disk n') = state_column (n_disk n)" "state_column (written n') = state_column (written n)" "n_chain n' = n_chain n"
  shows "node_ok st content g cs L0' w n'"
  using assms unfolding node_ok_def disk_ok_def chain_states_def by simp

lemma exact_ok_same:
  assumes "exact_ok st g n w" "nc_pending_canonicalizations (non_canonical (n_sdb n')) = nc_pending_canonicalizations (non_canonical (n_sdb n))"
    "state_column (written n') = state_column (written n)" "n_chain n' = n_chain n"
    "\<And>ov. ov \<in> set (concat (levels (non_canonical (n_sdb n')))) \<Longrightarrow>
       ov \<in> set (concat (levels (non_canonical (n_sdb n)))) \<or> set (bo_inserted ov) \<inter> set (bo_deleted ov) = {}"
  shows "exact_ok st g n' w"
  using assms unfolding exact_ok_def chain_states_def by fastforce

lemma commit_data_meta: "commit_data (foldl (\<lambda>cm kv. meta_insert kv cm) commit m) = commit_data commit"
  by (induction m arbitrary: commit) (auto simp: meta_insert_def)

lemma insert_levels:
  assumes "fits g number parent nc" "nc_insert c hash number parent changes nc = (Ok (commit, nc') :: (('e, 'c) StateDbError, _) result)"
    "ov \<in> set (concat (levels nc'))"
  shows "ov \<in> set (concat (levels nc)) \<or> bo_inserted ov = map fst (cs_inserted changes) \<and> bo_deleted ov = cs_deleted changes"
proof -
  obtain c0 nc1 where c0: "check_insert c number parent nc = (Ok (c0, nc1) :: (('e, 'c) StateDbError, _) result)"
    using assms(2) by (cases "check_insert c number parent nc :: (('e, 'c) StateDbError, _) result") (auto simp: nc_insert_def Let_def)
  then have "levels nc' = push (insert_at number nc) (new_overlay c hash number (insert_at number nc) changes nc) (levels nc)"
    using nc_insert_ok [OF assms(1) c0, of hash changes] assms(2) by auto
  then show ?thesis
    using assms(3) by (auto simp: set_concat_push new_overlay_def simp del: set_concat)
qed

lemma if_not_Panic: "x \<noteq> Panic \<Longrightarrow> y \<noteq> Panic \<Longrightarrow> (if b then x else y) \<noteq> Panic"
  by simp

lemma nc_insert_no_panic: "fits g number parent nc \<Longrightarrow> nc_insert c hash number parent changes nc \<noteq> (Panic :: (('e, 'c) StateDbError, _) result)"
proof (cases "check_insert c number parent nc :: (('e, 'c) StateDbError, _) result")
  case (Ok p)
  assume "fits g number parent nc"
  then show ?thesis
    using nc_insert_ok [of g number parent nc c "fst p" "snd p" hash changes, where ?'e = 'e] Ok by auto
next
  case Panic
  have "check_insert c number parent nc \<noteq> (Panic :: (('e, 'c) StateDbError, _) result)"
    unfolding check_insert_def Let_def by (intro if_not_Panic) simp_all
  then show ?thesis
    using Panic by simp
qed (simp add: nc_insert_def Let_def)

lemma insert_step:
  assumes ok: "node_ok st content g cs L0 w n" and a: "allowed st content g (InsertBlock hash number parent changes) n"
  shows "step_ok c st content g cs (InsertBlock hash number parent changes) w n"
proof -
  let ?nc = "non_canonical (n_sdb n)"
  let ?r = "nc_insert c hash number parent changes ?nc :: (('c, 'c) StateDbError, _) result"
  have fits: "fits g number parent ?nc"
    using a by simp
  have i: "insert_block c hash number parent changes (n_sdb n) =
      (and_then ?r (\<lambda>(commit, nc). Ok (foldl (\<lambda>cm kv. meta_insert kv cm) commit
         (if number = 0 then [(to_meta_key PRUNING_MODE (enc_unit c), mode_id (Constrained cs))] else []), (n_sdb n)\<lparr>non_canonical := nc\<rparr>)))"
    by (simp add: insert_block_def node_okD(1) [OF ok] Let_def)
  show ?thesis
  proof (cases ?r)
    case (Ok p)
    obtain commit nc where p: "p = (commit, nc)" by (cases p)
    let ?cm = "foldl (\<lambda>cm kv. meta_insert kv cm) commit
         (if number = 0 then [(to_meta_key PRUNING_MODE (enc_unit c), mode_id (Constrained cs))] else [])"
    let ?n = "n\<lparr>n_sdb := (n_sdb n)\<lparr>non_canonical := nc\<rparr>, n_txn := n_txn n @ [?cm]\<rparr>"
    note r = Ok [unfolded p]
    have o: "overlay_ok st content g L0 nc" "commit_data commit = empty_changes" "base g nc = base g ?nc"
      "nc_pending_canonicalizations nc = nc_pending_canonicalizations ?nc"
      using overlay_insert [OF node_okD(3) [OF ok] fits _ _ _ r] a by auto
    have col: "state_column (written ?n) = state_column (written n)"
      by (simp add: written_snoc apply_state_commit_def commit_data_meta o(2))
    show ?thesis
    proof (rule step_okI [of _ _ _ ?n])
      show "do_call c (InsertBlock hash number parent changes) n = Some (Ok ?n)"
        by (simp add: i r with_commit_def)
      show "node_ok st content g cs L0 w ?n"
        by (rule node_ok_same [OF ok o(1,3,4)]) (use col in simp_all)
      assume t: "tidy (InsertBlock hash number parent changes)" and e: "exact_ok st g n w"
      have "ov \<in> set (concat (levels ?nc)) \<or> set (bo_inserted ov) \<inter> set (bo_deleted ov) = {}" if "ov \<in> set (concat (levels nc))" for ov
        using insert_levels [OF fits r that] t by (elim disjE) simp_all
      then show "exact_ok st g ?n w"
        using col o(4) by (intro exact_ok_same [OF e]) simp_all
    qed
  next
    case (Err e)
    then show ?thesis
      by (intro step_okI [OF _ ok]) (simp_all add: i with_commit_def)
  next
    case Panic
    then show ?thesis
      using nc_insert_no_panic [OF fits] by blast
  qed
qed

lemma window_pcan:
  "window_ok w Ss \<Longrightarrow> n \<le> length (death_rows w) \<Longrightarrow> window_ok (w\<lparr>rw_pending_canonicalizations := n\<rparr>) Ss"
  "window_exact (w\<lparr>rw_pending_canonicalizations := n\<rparr>) Ss = window_exact w Ss"
  "keeps_states V (w\<lparr>rw_pending_canonicalizations := n\<rparr>) Ss = keeps_states V w Ss"
  "no_garbage V (w\<lparr>rw_pending_canonicalizations := n\<rparr>) Ss = no_garbage V w Ss"
  by (simp_all add: window_ok_def window_exact_def keeps_states_def no_garbage_def rw_pending_def)

definition noted :: "('h, 'k, 'c) codec \<Rightarrow> 'h \<Rightarrow> 'k list \<Rightarrow> 'k list \<Rightarrow> ('h, 'k) RefWindow \<Rightarrow> ('h, 'k) RefWindow" where
  "noted c hash ins del w =
     (imported hash (pruning_journal_key c (pending_number w + length (death_rows w))) ins del w)
       \<lparr>rw_pending_canonicalizations := rw_pending_canonicalizations w + 1\<rparr>"

lemma note_canonical_ok:
  assumes "window_ok w Ss" "map fst (cs_inserted (commit_data commit)) = ins" "cs_deleted (commit_data commit) = del"
  shows "(note_canonical c hash commit w :: ('x, _) result) =
    Ok (\<lparr>commit_data = (commit_data commit)\<lparr>cs_deleted := []\<rparr>,
         commit_meta = (commit_meta commit)\<lparr>cs_inserted := cs_inserted (commit_meta commit) @
           [(pruning_journal_key c (pending_number w + length (death_rows w)),
             enc_pruning c \<lparr>pr_hash = hash, pr_inserted = ins, pr_deleted = del\<rparr>)]\<rparr>\<rparr>,
        noted c hash ins del w)"
  using assms by (simp add: note_canonical_def Let_def rw_import_ok window_ok_def noted_def)

lemma noted_ok:
  assumes w: "window_ok w Ss" and l: "leads (last Ss) (set ins) (set del) T"
  shows "window_ok (noted c hash ins del w) (Ss @ [T])"
    "keeps_states V w Ss \<Longrightarrow> keeps_states (V \<union> set ins) (noted c hash ins del w) (Ss @ [T])"
    "set ins \<inter> set del = {} \<Longrightarrow> window_exact w Ss \<Longrightarrow> window_exact (noted c hash ins del w) (Ss @ [T])"
    "set ins \<inter> set del = {} \<Longrightarrow> no_garbage V w Ss \<Longrightarrow> no_garbage (V \<union> set ins) (noted c hash ins del w) (Ss @ [T])"
  unfolding noted_def window_pcan
  using window_imported [OF w l] keeps_imported [OF w l] window_exact_imported [OF w _ l] no_garbage_imported [OF w l] w
  by (auto intro!: window_pcan(1) simp: window_ok_def)

lemma note_and_prune:
  fixes col :: "'k \<Rightarrow> DBValue option" and c :: "('h, 'k, 'c) codec" and cs :: Constraints and pinned :: "'h \<Rightarrow> nat option" and hash :: 'h
  assumes w: "window_ok w Ss" and l: "leads (last Ss) (set ins) (set del) T" and keep: "keeps_states (dom col) w Ss"
    and c2: "commit_data c2 = \<lparr>cs_inserted = map (\<lambda>k. (k, content k)) ins, cs_deleted = []\<rparr>"
    and cont: "\<forall>k v. col k = Some v \<longrightarrow> v = content k"
  defines "pl \<equiv> prune_loop c cs pinned c2 (noted c hash ins del w)"
  defines "w' \<equiv> snd pl" and "col' \<equiv> write_changes (commit_data (fst pl)) col"
  shows "window_ok w' (Ss @ [T])" "keeps_states (dom col') w' (Ss @ [T])" "\<forall>k v. col' k = Some v \<longrightarrow> v = content k"
    "pending_number w' = pending_number w" "map dr_hash (death_rows w') = map dr_hash (death_rows w) @ [hash]"
    "rw_pending_canonicalizations w' = Suc (rw_pending_canonicalizations w)"
    "set ins \<inter> set del = {} \<Longrightarrow> window_exact w Ss \<Longrightarrow> no_garbage (dom col) w Ss \<Longrightarrow>
       window_exact w' (Ss @ [T]) \<and> no_garbage (dom col') w' (Ss @ [T])"
proof -
  note w1 = noted_ok [OF w l, where c = c and hash = hash]
  have col1: "write_changes (commit_data c2) col = (\<lambda>k. if k \<in> set ins then Some (content k) else col k)"
    by (simp add: c2 write_changes_def foldl_content)
  have dom1: "dom (write_changes (commit_data c2) col) = dom col \<union> set ins"
    unfolding col1 by (auto split: if_splits)
  note pl = prune_loop_ok [OF w1(1), of c2 col c cs pinned, unfolded dom1, OF w1(2) [OF keep], folded pl_def, folded w'_def col'_def]
  show "window_ok w' (Ss @ [T])" "keeps_states (dom col') w' (Ss @ [T])"
    using pl by blast+
  show "\<forall>k v. col' k = Some v \<longrightarrow> v = content k"
  proof (intro allI impI)
    fix k v
    assume "col' k = Some v"
    then have "write_changes (commit_data c2) col k = Some v"
      using pl by (auto simp: map_le_def dom_def)
    then show "v = content k"
      using cont unfolding col1 by (auto split: if_splits)
  qed
  obtain pp where pp: "w' = (noted c hash ins del w)\<lparr>pending_prunings := pp\<rparr>"
    using prune_loop_window unfolding w'_def pl_def by blast
  show "pending_number w' = pending_number w" "map dr_hash (death_rows w') = map dr_hash (death_rows w) @ [hash]"
    "rw_pending_canonicalizations w' = Suc (rw_pending_canonicalizations w)"
    by (simp_all add: pp noted_def imported_def comp_def forget_def)
  show "window_exact w' (Ss @ [T]) \<and> no_garbage (dom col') w' (Ss @ [T])"
    if "set ins \<inter> set del = {}" "window_exact w Ss" "no_garbage (dom col) w Ss"
    using pl w1(3) [OF that(1,2)] w1(4) [OF that(1,3)] by blast
qed

text \<open>What \<open>canonicalize_block\<close> does: nothing if the block is not in its level, and otherwise notes it and prunes.\<close>

lemma canonicalize_cases:
  fixes c :: "('h, 'k, 'c) codec"
  assumes ok: "node_ok st content g cs L0 w n" and a: "allowed st content g (CanonicalizeBlock hash) n"
  obtains (none) "do_call c (CanonicalizeBlock hash) n = Some (Ok n)"
  | (noted) ov m c2 nc pl where "ov \<in> set (concat (levels (non_canonical (n_sdb n))))" "overlay_ok st content g L0 nc"
      "nc = (non_canonical (n_sdb n))\<lparr>nc_pending_canonicalizations := nc_pending_canonicalizations (non_canonical (n_sdb n)) @ [hash]\<rparr>"
      "leads (last (chain_states st g n)) (set (bo_inserted ov)) (set (bo_deleted ov)) (st hash)"
      "nc_canonicalize c hash empty_commit (non_canonical (n_sdb n)) = (Ok (
         \<lparr>commit_data = \<lparr>cs_inserted = map (\<lambda>k. (k, content k)) (bo_inserted ov), cs_deleted = bo_deleted ov\<rparr>, commit_meta = m\<rparr>, nc)
         :: (('c, 'c) StateDbError, _) result)"
      "commit_data c2 = \<lparr>cs_inserted = map (\<lambda>k. (k, content k)) (bo_inserted ov), cs_deleted = []\<rparr>"
      "commit_meta c2 = m\<lparr>cs_inserted := cs_inserted m @ [(pruning_journal_key c (pending_number w + length (death_rows w)),
         enc_pruning c \<lparr>pr_hash = hash, pr_inserted = bo_inserted ov, pr_deleted = bo_deleted ov\<rparr>)]\<rparr>"
      "pl = prune_loop c cs (sdb_pinned (n_sdb n)) c2 (noted c hash (bo_inserted ov) (bo_deleted ov) w)"
      "do_call c (CanonicalizeBlock hash) n = Some (Ok (n\<lparr>n_sdb := (n_sdb n)\<lparr>non_canonical := nc, sdb_pruning := Some (snd pl)\<rparr>,
         n_txn := n_txn n @ [fst pl]\<rparr>))"
proof -
  let ?s = "n_sdb n"
  let ?nc = "non_canonical ?s"
  let ?pend = "nc_pending_canonicalizations ?nc"
  let ?nc' = "?nc\<lparr>nc_pending_canonicalizations := ?pend @ [hash]\<rparr>"
  have p: "parents ?nc hash = Some (last (base g ?nc # ?pend))"
    using a by (simp add: Let_def)
  consider (err) "(nc_canonicalize c hash empty_commit ?nc :: (('c, 'c) StateDbError, _) result) = Err InvalidBlock"
    | (good) ov m where "ov \<in> set (concat (levels ?nc))" "bo_hash ov = hash" "overlay_ok st content g L0 ?nc'"
        "nc_canonicalize c hash empty_commit ?nc = (Ok (
           \<lparr>commit_data = \<lparr>cs_inserted = map (\<lambda>k. (k, content k)) (bo_inserted ov), cs_deleted = bo_deleted ov\<rparr>,
            commit_meta = m\<rparr>, ?nc') :: (('c, 'c) StateDbError, _) result)"
    using overlay_canonicalize [OF node_okD(3) [OF ok] p, of c empty_commit, where ?'e = 'c]
    by (auto simp: empty_commit_def empty_changes_def simp del: set_concat)
  then show ?thesis
  proof cases
    case err
    then show ?thesis
      by (intro none) (simp add: canonicalize_block_def node_okD(1) [OF ok] with_commit_def)
  next
    case (good ov m)
    let ?c1 = "\<lparr>commit_data = \<lparr>cs_inserted = map (\<lambda>k. (k, content k)) (bo_inserted ov), cs_deleted = bo_deleted ov\<rparr>, commit_meta = m\<rparr>"
    define c2 where "c2 = \<lparr>commit_data = \<lparr>cs_inserted = map (\<lambda>k. (k, content k)) (bo_inserted ov), cs_deleted = []\<rparr>,
      commit_meta = m\<lparr>cs_inserted := cs_inserted m @ [(pruning_journal_key c (pending_number w + length (death_rows w)),
        enc_pruning c \<lparr>pr_hash = hash, pr_inserted = bo_inserted ov, pr_deleted = bo_deleted ov\<rparr>)]\<rparr>\<rparr>"
    have n2: "(note_canonical c hash ?c1 w :: (('c, 'c) StateDbError, _) result) = Ok (c2, noted c hash (bo_inserted ov) (bo_deleted ov) w)"
      using note_canonical_ok [OF node_okD(5) [OF ok], of ?c1 "bo_inserted ov" "bo_deleted ov" c hash, where ?'x = "('c, 'c) StateDbError"]
      by (simp add: comp_def c2_def)
    have "last (chain_states st g n) = st (last (base g ?nc # ?pend))"
      using node_okD(4) [OF ok] by (simp add: chain_states_def last_map)
    then have l: "leads (last (chain_states st g n)) (set (bo_inserted ov)) (set (bo_deleted ov)) (st hash)"
      using overlay_okD(5) [OF node_okD(3) [OF ok]] good(1,2) p unfolding moves_def by auto
    show ?thesis
      using node_okD(1,2) [OF ok] n2 good(4)
      by (intro noted [OF good(1,3) refl l good(4) _ _ refl, of c2])
        (simp_all add: canonicalize_block_def with_commit_def sdb_prune_def Let_def c2_def split: prod.split)
  qed
qed

lemma canonicalize_step:
  assumes ok: "node_ok st content g cs L0 w n" and a: "allowed st content g (CanonicalizeBlock hash) n"
  shows "step_ok c st content g cs (CanonicalizeBlock hash) w n"
  using ok a
proof (cases rule: canonicalize_cases [where c = c])
  case none
  then show ?thesis
    by (intro step_okI [OF _ ok])
next
  case (noted ov m c2 nc pl)
  let ?nc = "non_canonical (n_sdb n)" and ?Ss = "chain_states st g n"
  let ?pend = "nc_pending_canonicalizations ?nc"
  define n' where "n' = n\<lparr>n_sdb := (n_sdb n)\<lparr>non_canonical := nc, sdb_pruning := Some (snd pl)\<rparr>, n_txn := n_txn n @ [fst pl]\<rparr>"
  have n': "n_chain n' = n_chain n" "n_disk n' = n_disk n" "non_canonical (n_sdb n') = nc" "sdb_mode (n_sdb n') = sdb_mode (n_sdb n)"
    "sdb_pruning (n_sdb n') = Some (snd pl)"
    by (simp_all add: n'_def)
  have Ss: "chain_states st g n' = ?Ss @ [st hash]"
    by (simp add: chain_states_def n' noted(3))
  have col: "state_column (written n') = write_changes (commit_data (fst pl)) (state_column (written n))"
    unfolding n'_def by (simp add: written_snoc apply_state_commit_def)
  note d = node_okD(8) [OF ok, unfolded disk_ok_def]
  note np = note_and_prune [OF node_okD(5) [OF ok] noted(4) conjunct1 [OF d] noted(6), where c = c and cs = cs
      and pinned = "sdb_pinned (n_sdb n)" and hash = hash, folded noted(8), folded col]
  have len: "pending_number w \<le> length (n_chain n @ ?pend)"
    using node_okD(5) [OF ok] by (simp add: window_ok_def chain_states_def)
  have "disk_ok st content g n' (snd pl)"
    using np(2,3,4) d unfolding disk_ok_def Ss n' by simp
  then have "node_ok st content g cs L0 (snd pl) n'"
    unfolding node_ok_def Ss using node_okD [OF ok] noted(2) np(1,4-6) d len by (simp add: n' noted(3) base_def)
  moreover have "exact_ok st g n' (snd pl)" if "exact_ok st g n w"
    using that noted(1) np(7) d unfolding exact_ok_def Ss n' noted(3) by (simp del: set_concat)
  ultimately show ?thesis
    by (intro step_okI [OF noted(9) [folded n'_def]])
qed

lemma window_number:
  "node_ok st content g cs L0 w n \<Longrightarrow> pending_number w \<le> length (n_chain n)"
  using node_okD(5,7) [of st content g cs L0 w n] by (auto simp: window_ok_def chain_states_def)

lemma keeps_states_drop: "keeps_states V w (map st hs) \<longleftrightarrow> (\<forall>h \<in> set (drop (rw_pending w) hs). st h \<subseteq> V)"
proof
  assume k: "keeps_states V w (map st hs)"
  show "\<forall>h \<in> set (drop (rw_pending w) hs). st h \<subseteq> V"
  proof
    fix h
    assume "h \<in> set (drop (rw_pending w) hs)"
    then obtain i where "h = hs ! (rw_pending w + i)" "rw_pending w + i < length hs"
      by (auto simp: in_set_conv_nth)
    then show "st h \<subseteq> V"
      using k [unfolded keeps_states_def, rule_format, of "rw_pending w + i"] by simp
  qed
next
  assume d: "\<forall>h \<in> set (drop (rw_pending w) hs). st h \<subseteq> V"
  have "hs ! j \<in> set (drop (rw_pending w) hs)" if "rw_pending w \<le> j" "j < length hs" for j
    using that by (auto simp: in_set_conv_nth intro!: exI [of _ "j - rw_pending w"])
  then show "keeps_states V w (map st hs)"
    using d by (auto simp: keeps_states_def)
qed

lemma apply_step:
  assumes ok: "node_ok st content g cs L0 w n"
  shows "step_ok c st content g cs ApplyPending w n"
proof -
  let ?nc = "non_canonical (n_sdb n)"
  let ?pend = "nc_pending_canonicalizations ?nc"
  obtain nc where nc: "(nc_apply_pending ?nc :: (unit, _) result) = Ok nc" "overlay_ok st content g (levels nc) nc"
    "base g nc = last (base g ?nc # ?pend)" "nc_pending_canonicalizations nc = []" "levels nc = below (parents ?nc) (levels ?nc) ?pend"
    using overlay_apply [OF node_okD(3) [OF ok]] by blast
  obtain w' where w': "(rw_apply_pending w :: (unit, _) result) = Ok w'" "window_ok w' (chain_states st g n)"
    "window_exact w (chain_states st g n) \<Longrightarrow> window_exact w' (chain_states st g n)" "rw_pending w' = rw_pending w"
    "rw_pending_canonicalizations w' = 0" "death_rows w' = drop (pending_prunings w) (death_rows w)" "pending_number w' = rw_pending w"
    using rw_apply_ok [OF node_okD(5) [OF ok], where ?'x = unit] by blast
  define n' where "n' = n\<lparr>n_sdb := (n_sdb n)\<lparr>non_canonical := nc, sdb_pruning := Some w'\<rparr>, n_disk := written n, n_txn := [],
      n_chain := n_chain n @ ?pend\<rparr>"
  have n': "n_chain n' = n_chain n @ ?pend" "n_disk n' = written n" "non_canonical (n_sdb n') = nc" "sdb_pruning (n_sdb n') = Some w'"
    "sdb_mode (n_sdb n') = sdb_mode (n_sdb n)" "written n' = written n"
    by (simp_all add: n'_def written_def)
  have Ss: "chain_states st g n' = chain_states st g n"
    by (simp add: chain_states_def n' nc(4))
  note d = node_okD(8) [OF ok, unfolded disk_ok_def]
  have "st h \<subseteq> dom (state_column (written n))" if "h \<in> set (drop (rw_pending w) (g # n_chain n @ ?pend))" for h
    using that d unfolding chain_states_def keeps_states_drop by blast
  then have "disk_ok st content g n' w'"
    using d w'(4,7) unfolding disk_ok_def Ss n' by (simp add: keeps_states_def)
  moreover have "map dr_hash (death_rows w') = drop (pending_number w') (n_chain n')"
  proof -
    have "map dr_hash (death_rows w') = drop (pending_prunings w) (map dr_hash (death_rows w))"
      by (simp add: w'(6) drop_map)
    then show ?thesis
      unfolding node_okD(6) [OF ok] w'(7) n' rw_pending_def by (simp add: add.commute del: drop_append)
  qed
  ultimately have "node_ok st content g cs (levels nc) w' n'"
    using node_okD [OF ok] nc w' unfolding node_ok_def Ss by (simp add: n')
  moreover have "exact_ok st g n' w'" if "exact_ok st g n w"
    using that w'(3,4) below_subset [of "parents ?nc" "levels ?nc" ?pend] unfolding exact_ok_def Ss n' nc(5)
    by (auto simp: no_garbage_def simp del: set_concat)
  moreover have "do_call c ApplyPending n = Some (Ok n')"
    using nc(1) w'(1) node_okD(2) [OF ok] by (simp add: sdb_apply_pending_def n'_def)
  ultimately show ?thesis
    by (intro step_okI) auto
qed

lemma revert_step:
  assumes ok: "node_ok st content g cs L0 w n"
  shows "step_ok c st content g cs RevertPending w n"
proof -
  let ?nc = "non_canonical (n_sdb n)"
  let ?pend = "nc_pending_canonicalizations ?nc"
  obtain nc where nc: "(nc_revert_pending ?nc :: (unit, _) result) = Ok nc" "overlay_ok st content g (levels nc) nc"
    "base g nc = base g ?nc" "nc_pending_canonicalizations nc = []"
    using overlay_revert [OF node_okD(3) [OF ok]] by blast
  let ?w = "rw_revert_pending w"
  define n' where "n' = n\<lparr>n_sdb := (n_sdb n)\<lparr>non_canonical := nc, sdb_pruning := Some ?w\<rparr>, n_txn := []\<rparr>"
  have n': "n_chain n' = n_chain n" "n_disk n' = n_disk n" "non_canonical (n_sdb n') = nc" "sdb_pruning (n_sdb n') = Some ?w"
    "sdb_mode (n_sdb n') = sdb_mode (n_sdb n)" "written n' = n_disk n"
    by (simp_all add: n'_def written_def)
  note w = rw_revert_ok [OF node_okD(5) [OF ok]]
  have Ss: "chain_states st g n' = take (length (chain_states st g n) - rw_pending_canonicalizations w) (chain_states st g n)"
    "chain_states st g n' = map st (g # n_chain n)"
    using node_okD(7) [OF ok] by (simp_all add: chain_states_def n' nc(4) Suc_diff_le)
  note d = node_okD(8) [OF ok, unfolded disk_ok_def]
  have "keeps_states (dom (state_column (n_disk n))) ?w (map st (g # n_chain n))"
    unfolding keeps_states_drop w using d by blast
  then have disk: "disk_ok st content g n' ?w"
    using d w unfolding disk_ok_def Ss(2) n' by simp
  have len: "length (death_rows w) = length (n_chain n) - pending_number w + length ?pend"
    using node_okD(5) [OF ok] window_number [OF ok] by (auto simp: window_ok_def chain_states_def)
  have "map dr_hash (death_rows ?w) = take (length (death_rows w) - rw_pending_canonicalizations w) (map dr_hash (death_rows w))"
    by (simp add: rw_revert_pending_def Let_def take_map)
  also have "\<dots> = drop (pending_number w) (n_chain n)"
    unfolding node_okD(6,7) [OF ok] using len window_number [OF ok] by simp
  finally have "node_ok st content g cs (levels nc) ?w n'"
    using node_okD [OF ok] nc w(1) [folded Ss(1)] w(3-5) disk unfolding node_ok_def by (simp add: n')
  moreover have "do_call c RevertPending n = Some (Ok n')"
    using nc(1) node_okD(2) [OF ok] by (simp add: sdb_revert_pending_def n'_def)
  ultimately show ?thesis
    by (intro step_okI) auto
qed

lemma sdb_pin_cases:
  assumes "sdb_mode s = Constrained cs"
  shows "sdb_pin hash s = Err PinInvalidBlock \<or> (\<exists>f nc. sdb_pin hash s = Ok (s\<lparr>sdb_pinned := f, non_canonical := nc\<rparr>) \<and>
    (nc = non_canonical s \<or> nc = nc_pin hash (non_canonical s)))"
proof (cases "nc_have_block hash (non_canonical s) \<or> (case sdb_pruning s of Some w \<Rightarrow> rw_have_block hash w | None \<Rightarrow> False)")
  case True
  show ?thesis
    unfolding sdb_pin_def assms PruningMode.case if_P [OF True]
    by (cases "sdb_pinned s hash") (auto intro!: exI)
qed (simp add: sdb_pin_def assms)

lemma sdb_unpin_cases:
  assumes "nc_unpin hash (non_canonical s) = Some nc1"
  shows "\<exists>f nc. sdb_unpin hash s = Some (s\<lparr>sdb_pinned := f, non_canonical := nc\<rparr>) \<and> (nc = non_canonical s \<or> nc = nc1)"
proof (cases "sdb_pinned s hash")
  case None
  then show ?thesis
    by (intro exI [of _ "sdb_pinned s"] exI [of _ "non_canonical s"]) (simp add: sdb_unpin_def)
next
  case (Some refs)
  show ?thesis
  proof (cases "dec_u32 refs = 0")
    case True
    then show ?thesis
      using Some assms by (intro exI [of _ "(sdb_pinned s)(hash := None)"] exI [of _ nc1]) (simp add: sdb_unpin_def)
  next
    case False
    then show ?thesis
      using Some by (intro exI [of _ "(sdb_pinned s)(hash \<mapsto> dec_u32 refs)"] exI [of _ "non_canonical s"]) (simp add: sdb_unpin_def)
  qed
qed

lemma pin_step:
  assumes ok: "node_ok st content g cs L0 w n"
  shows "step_ok c st content g cs (PinBlock hash) w n"
proof -
  let ?nc = "non_canonical (n_sdb n)"
  have pin: "overlay_ok st content g L0 (nc_pin hash ?nc)" "base g (nc_pin hash ?nc) = base g ?nc"
    "nc_pending_canonicalizations (nc_pin hash ?nc) = nc_pending_canonicalizations ?nc" "levels (nc_pin hash ?nc) = levels ?nc"
    using overlay_pin [OF node_okD(3) [OF ok]] by (simp_all add: nc_pin_def base_def)
  consider "sdb_pin hash (n_sdb n) = Err PinInvalidBlock"
    | f nc where "sdb_pin hash (n_sdb n) = Ok ((n_sdb n)\<lparr>sdb_pinned := f, non_canonical := nc\<rparr>)" "nc = ?nc \<or> nc = nc_pin hash ?nc"
    using sdb_pin_cases [OF node_okD(1) [OF ok], of hash] by blast
  then show ?thesis
  proof cases
    case 1
    then show ?thesis
      by (intro step_okI [OF _ ok]) simp_all
  next
    case (2 f nc)
    then have nc: "overlay_ok st content g L0 nc" "base g nc = base g ?nc" "nc_pending_canonicalizations nc = nc_pending_canonicalizations ?nc"
      "levels nc = levels ?nc"
      using pin node_okD(3) [OF ok] by auto
    let ?n = "n\<lparr>n_sdb := (n_sdb n)\<lparr>sdb_pinned := f, non_canonical := nc\<rparr>\<rparr>"
    have "node_ok st content g cs L0 w ?n"
      by (rule node_ok_same [OF ok nc(1-3)]) (simp_all add: written_def)
    moreover have "exact_ok st g ?n w" if "exact_ok st g n w"
      by (rule exact_ok_same [OF that]) (simp_all add: written_def nc)
    ultimately show ?thesis
      by (intro step_okI [of _ _ _ ?n]) (simp_all add: 2)
  qed
qed

lemma unpin_step:
  assumes ok: "node_ok st content g cs L0 w n"
  shows "step_ok c st content g cs (UnpinBlock hash) w n"
proof -
  let ?nc = "non_canonical (n_sdb n)"
  obtain nc1 where nc1: "nc_unpin hash ?nc = Some nc1" "overlay_ok st content g L0 nc1" "levels nc1 = levels ?nc"
    "last_canonicalized nc1 = last_canonicalized ?nc" "nc_pending_canonicalizations nc1 = nc_pending_canonicalizations ?nc"
    using overlay_unpin [OF node_okD(3) [OF ok]] by blast
  obtain f nc where r: "sdb_unpin hash (n_sdb n) = Some ((n_sdb n)\<lparr>sdb_pinned := f, non_canonical := nc\<rparr>)" "nc = ?nc \<or> nc = nc1"
    using sdb_unpin_cases [OF nc1(1)] by blast
  then have nc: "overlay_ok st content g L0 nc" "base g nc = base g ?nc" "nc_pending_canonicalizations nc = nc_pending_canonicalizations ?nc"
    "levels nc = levels ?nc"
    using nc1 node_okD(3) [OF ok] by (auto simp: base_def)
  let ?n = "n\<lparr>n_sdb := (n_sdb n)\<lparr>sdb_pinned := f, non_canonical := nc\<rparr>\<rparr>"
  have "node_ok st content g cs L0 w ?n"
    by (rule node_ok_same [OF ok nc(1-3)]) (simp_all add: written_def)
  moreover have "exact_ok st g ?n w" if "exact_ok st g n w"
    by (rule exact_ok_same [OF that]) (simp_all add: written_def nc)
  ultimately show ?thesis
    by (intro step_okI [of _ _ _ ?n]) (simp_all add: r)
qed

lemma nc_revert_one_levels: "nc_revert_one nc = (commit, nc') \<Longrightarrow> set (concat (levels nc')) \<subseteq> set (concat (levels nc))"
proof (cases "levels nc = []")
  case False
  assume "nc_revert_one nc = (commit, nc')"
  then obtain c where c: "drop_level (last (levels nc)) (empty_commit, nc\<lparr>levels := butlast (levels nc)\<rparr>) = (c, nc')"
    using False by (auto simp: nc_revert_one_def Let_def split: prod.splits)
  show ?thesis
    using drop_level_eq [OF c] by (auto dest: in_set_butlastD)
qed (simp add: nc_revert_one_def)

lemma revert_one_step:
  assumes ok: "node_ok st content g cs L0 w n" and a: "allowed st content g RevertOne n"
  shows "step_ok c st content g cs RevertOne w n"
proof -
  let ?nc = "non_canonical (n_sdb n)"
  obtain commit nc where r: "nc_revert_one ?nc = (commit, nc)"
    by (cases "nc_revert_one ?nc")
  have p: "nc_pending_canonicalizations ?nc = []" "pending_insertions ?nc = []" "n_txn n = []"
    using a by simp_all
  note o = overlay_revert_one [OF node_okD(3) [OF ok] p(1,2) r]
  define n' where "n' = n\<lparr>n_sdb := (n_sdb n)\<lparr>non_canonical := nc\<rparr>,
      n_disk := (case commit of Some cm \<Rightarrow> apply_state_commit cm (n_disk n) | None \<Rightarrow> n_disk n)\<rparr>"
  have col: "state_column (n_disk n') = state_column (n_disk n)" "state_column (written n') = state_column (written n)"
    using o(4) p(3) by (auto simp: n'_def written_def apply_state_commit_def split: option.split)
  have n': "non_canonical (n_sdb n') = nc" "n_chain n' = n_chain n" "sdb_mode (n_sdb n') = sdb_mode (n_sdb n)"
    "sdb_pruning (n_sdb n') = sdb_pruning (n_sdb n)"
    by (simp_all add: n'_def)
  have "node_ok st content g cs (levels nc) w n'"
    by (rule node_ok_same [OF ok o(1,2)]) (use o(3) p(1) col n' in simp_all)
  moreover have "exact_ok st g n' w" if "exact_ok st g n w"
    by (rule exact_ok_same [OF that]) (use o(3) p(1) col n' nc_revert_one_levels [OF r] in \<open>auto simp del: set_concat\<close>)
  moreover have "do_call c RevertOne n = Some (Ok n')"
    by (simp add: sdb_revert_one_def node_okD(1) [OF ok] r n'_def)
  ultimately show ?thesis
    by (intro step_okI) auto
qed

lemma call_step:
  assumes "node_ok st content g cs L0 w n" "allowed st content g x n"
  shows "step_ok c st content g cs x w n"
proof (cases x)
  case (InsertBlock h k p ch)
  show ?thesis
    unfolding InsertBlock by (rule insert_step [OF assms(1) assms(2) [unfolded InsertBlock]])
next
  case (CanonicalizeBlock h)
  show ?thesis
    unfolding CanonicalizeBlock by (rule canonicalize_step [OF assms(1) assms(2) [unfolded CanonicalizeBlock]])
next
  case (PinBlock h)
  show ?thesis
    unfolding PinBlock by (rule pin_step [OF assms(1)])
next
  case (UnpinBlock h)
  show ?thesis
    unfolding UnpinBlock by (rule unpin_step [OF assms(1)])
next
  case ApplyPending
  show ?thesis
    unfolding ApplyPending by (rule apply_step [OF assms(1)])
next
  case RevertPending
  show ?thesis
    unfolding RevertPending by (rule revert_step [OF assms(1)])
next
  case RevertOne
  show ?thesis
    unfolding RevertOne by (rule revert_one_step [OF assms(1) assms(2) [unfolded RevertOne]])
qed

text \<open>A run the client may make returns, and its end has the invariant.\<close>

lemma run_calls_ok:
  "node_ok st content g cs L0 w n \<Longrightarrow> admissible c st content g xs n \<Longrightarrow>
     \<exists>n' L0' w'. run_calls c xs n = Some (Ok n') \<and> node_ok st content g cs L0' w' n' \<and>
       (list_all tidy xs \<and> exact_ok st g n w \<longrightarrow> exact_ok st g n' w')"
proof (induction xs arbitrary: n L0 w)
  case (Cons x xs)
  obtain n1 L1 w1 where s: "do_call c x n = Some (Ok n1)" "node_ok st content g cs L1 w1 n1" "tidy x \<and> exact_ok st g n w \<longrightarrow> exact_ok st g n1 w1"
    using call_step [OF Cons.prems(1), of x c] Cons.prems(2) unfolding step_ok_def by auto
  then show ?case
    using Cons.IH [OF s(2)] Cons.prems(2) by auto
qed auto

end
