(* ===== verification/StateDbJournal.thy ===== *)
theory StateDbJournal
  imports StateDbRuns
begin

text \<open>
  The journal of the pruning window: what the commits of a run write to the metadata, and that the window is read back
  from it when the database is opened again.
\<close>

section \<open>Keys\<close>

text \<open>
  What is used of the codec: the unit value has no bytes, a block number has eight and a pair of them sixteen, and a
  value is decoded from its encoding.
\<close>

definition codec_ok :: "('h, 'k, 'c) codec \<Rightarrow> bool" where
  "codec_ok c \<longleftrightarrow>
     enc_unit c = [] \<and> (\<forall>n. length (enc_u64 c n) = 8) \<and> (\<forall>p. length (enc_u64_pair c p) = 16) \<and>
     (\<forall>n < 2 ^ 64. dec_u64 c (enc_u64 c n) = Inr n) \<and>
     (\<forall>h. \<forall>n < 2 ^ 64. dec_block c (enc_block c (h, n)) = Inr (h, n)) \<and> (\<forall>r. dec_pruning c (enc_pruning c r) = Inr r)"

lemma key_lengths:
  assumes "codec_ok c"
  shows "length (to_meta_key PRUNING_MODE (enc_unit c)) = 4" "length (to_meta_key LAST_PRUNED (enc_unit c)) = 11"
    "length (to_meta_key LAST_CANONICAL (enc_unit c)) = 14" "length (pruning_journal_key c n) = 23"
    "length (noncanonical_journal_key c a b) = 36"
  using assms unfolding codec_ok_def
  by (simp_all add: to_meta_key_def PRUNING_MODE_def LAST_PRUNED_def LAST_CANONICAL_def ascii_def pruning_journal_key_def PRUNING_JOURNAL_def
      noncanonical_journal_key_def NON_CANONICAL_JOURNAL_def)

lemma pruning_journal_key_inj:
  assumes "codec_ok c" "m < 2 ^ 64" "n < 2 ^ 64"
  shows "pruning_journal_key c m = pruning_journal_key c n \<longleftrightarrow> m = n"
proof
  assume "pruning_journal_key c m = pruning_journal_key c n"
  then have "enc_u64 c m = enc_u64 c n"
    by (simp add: pruning_journal_key_def to_meta_key_def)
  then have "dec_u64 c (enc_u64 c m) = dec_u64 c (enc_u64 c n)"
    by simp
  moreover have "dec_u64 c (enc_u64 c m) = Inr m" "dec_u64 c (enc_u64 c n) = Inr n"
    using assms unfolding codec_ok_def by blast+
  ultimately show "m = n"
    by simp
qed simp

section \<open>Rows from records\<close>

fun rows_of :: "('h, 'k, 'c) codec \<Rightarrow> nat \<Rightarrow> ('h, 'k) PruningRecord list \<Rightarrow> ('h, 'k) DeathRow list" where
  "rows_of c b [] = []"
| "rows_of c b (r # R) =
     \<lparr>dr_hash = pr_hash r, dr_journal_key = pruning_journal_key c b,
      dr_deleted = filter (\<lambda>k. \<forall>r' \<in> set R. k \<notin> set (pr_inserted r')) (remdups (pr_deleted r))\<rparr> # rows_of c (Suc b) R"

lemma length_rows_of [simp]: "length (rows_of c b R) = length R"
  by (induction c b R rule: rows_of.induct) auto

lemma drop_rows_of: "drop p (rows_of c b R) = rows_of c (b + p) (drop p R)"
proof (induction p arbitrary: b R)
  case (Suc p)
  then show ?case
    by (cases R) auto
qed simp

lemma rows_of_snoc:
  "rows_of c b (R @ [r]) = map (forget (pr_inserted r)) (rows_of c b R) @
     [\<lparr>dr_hash = pr_hash r, dr_journal_key = pruning_journal_key c (b + length R), dr_deleted = remdups (pr_deleted r)\<rparr>]"
  by (induction c b R rule: rows_of.induct) (auto simp: forget_def intro!: filter_cong)

lemma rows_of_key: "i < length R \<Longrightarrow> dr_journal_key (rows_of c b R ! i) = pruning_journal_key c (b + i)"
  by (induction c b R arbitrary: i rule: rows_of.induct) (auto simp: nth_Cons split: nat.split)

text \<open>A block deletes no node that an earlier row still has, unless it inserts it again.\<close>

definition coherent :: "('h, 'k, 'c) codec \<Rightarrow> nat \<Rightarrow> ('h, 'k) PruningRecord list \<Rightarrow> bool" where
  "coherent c b R \<longleftrightarrow> (\<forall>j < length R. \<forall>row \<in> set (rows_of c b (take j R)).
     set (dr_deleted row) \<inter> set (pr_deleted (R ! j)) \<subseteq> set (pr_inserted (R ! j)))"

lemma coherent_tl: "coherent c b (r # R) \<Longrightarrow> coherent c (Suc b) R"
  unfolding coherent_def
proof (intro allI impI ballI)
  fix j row
  assume *: "\<forall>j < length (r # R). \<forall>row \<in> set (rows_of c b (take j (r # R))).
      set (dr_deleted row) \<inter> set (pr_deleted ((r # R) ! j)) \<subseteq> set (pr_inserted ((r # R) ! j))"
    and j: "j < length R" "row \<in> set (rows_of c (Suc b) (take j R))"
  then show "set (dr_deleted row) \<inter> set (pr_deleted (R ! j)) \<subseteq> set (pr_inserted (R ! j))"
    using spec [OF *, of "Suc j"] by simp
qed

lemma coherent_drop: "coherent c b R \<Longrightarrow> coherent c (b + p) (drop p R)"
proof (induction p arbitrary: b R)
  case (Suc p)
  show ?case
  proof (cases R)
    case Nil
    then show ?thesis
      by (simp add: coherent_def)
  next
    case (Cons r R')
    then show ?thesis
      using Suc.IH [OF coherent_tl [of c b r R']] Suc.prems by simp
  qed
qed simp

lemma coherent_snoc:
  assumes "coherent c b R" "\<And>row. row \<in> set (rows_of c b R) \<Longrightarrow> set (dr_deleted row) \<inter> set (pr_deleted r) \<subseteq> set (pr_inserted r)"
  shows "coherent c b (R @ [r])"
  using assms unfolding coherent_def by (auto simp: nth_append less_Suc_eq)

section \<open>Opening the window\<close>

definition opened :: "('h, 'k, 'c) codec \<Rightarrow> nat \<Rightarrow> ('h, 'k) PruningRecord list \<Rightarrow> ('h, 'k) RefWindow \<Rightarrow> bool" where
  "opened c b R w \<longleftrightarrow> index_ok w \<and> count_insertions w \<and> death_rows w = rows_of c b R \<and> pending_number w = b \<and>
     rw_pending_canonicalizations w = 0 \<and> pending_prunings w = 0"

text \<open>The rows determine the index.\<close>

lemma opened_unique: "opened c b R v \<Longrightarrow> opened c b R w \<Longrightarrow> v = w"
proof -
  assume v: "opened c b R v" and w: "opened c b R w"
  have "death_index v k = death_index w k" for k
  proof (rule option.expand)
    have i: "death_index v k = Some x \<longleftrightarrow> death_index w k = Some x" for x
      using v w index_iff [of v k x] index_iff [of w k x] by (simp add: opened_def row_keys_def)
    then show "(death_index v k = None) = (death_index w k = None)"
      by (metis not_None_eq)
    show "death_index v k \<noteq> None \<Longrightarrow> death_index w k \<noteq> None \<Longrightarrow> the (death_index v k) = the (death_index w k)"
      using i by fastforce
  qed
  then show ?thesis
    using v w by (cases v, cases w) (auto simp: opened_def)
qed

lemma opened_import:
  assumes o: "opened c b (take j R) w" and R: "coherent c b R" "j < length R"
  shows "\<exists>w'. (rw_import (pr_hash (R ! j)) (pruning_journal_key c (b + j)) (pr_inserted (R ! j)) (pr_deleted (R ! j)) w :: ('x, _) result) = Ok w' \<and>
    opened c b (take (Suc j) R) w'"
proof -
  let ?r = "R ! j"
  let ?w = "imported (pr_hash ?r) (pruning_journal_key c (b + j)) (pr_inserted ?r) (pr_deleted ?r) w"
  have "index_ok ?w"
  proof (rule index_ok_imported)
    show "index_ok w"
      using o by (simp add: opened_def)
    fix i k
    assume i: "i < length (death_rows w)" "k \<in> row_keys w i" "k \<in> set (pr_deleted ?r)"
    then have "death_rows w ! i \<in> set (rows_of c b (take j R))"
      using o by (simp add: opened_def)
    then show "k \<in> set (pr_inserted ?r)"
      using i R unfolding coherent_def row_keys_def by blast
  qed
  moreover have "death_rows ?w = rows_of c b (take (Suc j) R)"
    using o R(2) by (simp add: imported_def opened_def take_Suc_conv_app_nth rows_of_snoc)
  ultimately show ?thesis
    using o by (simp add: rw_import_ok opened_def)
qed

lemma read_journal:
  assumes R: "coherent c b R" and c: "codec_ok c"
    and recs: "\<And>i. i < length R \<Longrightarrow> db (pruning_journal_key c (b + i)) = Inr (Some (enc_pruning c (R ! i)))"
    and last: "db (pruning_journal_key c (b + length R)) = Inr None"
  shows "j \<le> length R \<Longrightarrow> opened c b (take j R) w \<Longrightarrow>
    \<exists>w'. read_pruning_journal c db (b + j) w = Some (Ok w' :: (('e, 'c) StateDbError, _) result) \<and> opened c b R w'"
proof (induction "length R - j" arbitrary: j w)
  case 0
  then show ?case
    using last by (simp add: read_pruning_journal.simps db_read_def)
next
  case (Suc m)
  then have j: "j < length R"
    by simp
  obtain w1 where w1: "(rw_import (pr_hash (R ! j)) (pruning_journal_key c (b + j)) (pr_inserted (R ! j)) (pr_deleted (R ! j)) w ::
      (('e, 'c) StateDbError, _) result) = Ok w1" "opened c b (take (Suc j) R) w1"
    using opened_import [OF Suc.prems(2) R j] by blast
  have dec: "dec_pruning c (enc_pruning c (R ! j)) = Inr (R ! j)"
    using c unfolding codec_ok_def by blast
  have "read_pruning_journal c db (b + j) w = (read_pruning_journal c db (b + Suc j) w1 :: (('e, 'c) StateDbError, _) result option)"
    using recs [OF j] w1(1) dec by (subst read_pruning_journal.simps) (simp add: db_read_def decoded_def)
  then show ?case
    using Suc.hyps(1) [of "Suc j" w1] Suc.hyps(2) j w1(2) by simp
qed

lemma index_ok_start: "index_ok \<lparr>death_rows = [], death_index = (\<lambda>_. None), pending_number = b, rw_pending_canonicalizations = 0,
    pending_prunings = 0, count_insertions = True\<rparr>"
  by (simp add: index_ok_def)

text \<open>What the metadata hold for a window: the records of its rows, none after them, and the last pruned block.\<close>

definition journal_ok ::
    "('h, 'k, 'c) codec \<Rightarrow> ('h, 'k) PruningRecord list \<Rightarrow> ('h, 'k) RefWindow \<Rightarrow> (bytes \<Rightarrow> DBValue option) \<Rightarrow> bool" where
  "journal_ok c R w M \<longleftrightarrow>
     death_rows w = rows_of c (pending_number w) R \<and> coherent c (pending_number w) R \<and>
     (\<forall>i. pending_prunings w \<le> i \<and> i < length R \<longrightarrow>
        M (pruning_journal_key c (pending_number w + i)) = Some (enc_pruning c (R ! i))) \<and>
     (\<forall>b. pending_number w + length R \<le> b \<and> b < 2 ^ 64 \<longrightarrow> M (pruning_journal_key c b) = None) \<and>
     M (to_meta_key LAST_PRUNED (enc_unit c)) = (if rw_pending w = 0 then None else Some (enc_u64 c (rw_pending w - 1)))"

lemma rw_new_reads_back:
  assumes c: "codec_ok c" and j: "journal_ok c R w M" and w: "index_ok w" "count_insertions w"
    and p: "pending_prunings w = 0" "rw_pending_canonicalizations w = 0" and b: "pending_number w + length R < 2 ^ 64"
  shows "rw_new c (\<lambda>k. Inr (M k)) True = Some (Ok w :: (('e, 'c) StateDbError, _) result)"
proof -
  let ?n = "pending_number w"
  let ?w0 = "\<lparr>death_rows = [], death_index = (\<lambda>_. None), pending_number = ?n, rw_pending_canonicalizations = 0,
    pending_prunings = 0, count_insertions = True\<rparr>"
  have o: "opened c ?n R w"
    using j w p by (simp add: opened_def journal_ok_def)
  have "opened c ?n (take 0 R) ?w0"
    by (simp add: opened_def index_ok_start)
  then obtain w' where w': "read_pruning_journal c (\<lambda>k. Inr (M k)) ?n ?w0 = Some (Ok w' :: (('e, 'c) StateDbError, _) result)" "opened c ?n R w'"
    using read_journal [of c ?n R "\<lambda>k. Inr (M k)" 0 ?w0] j c p(1) b unfolding journal_ok_def by auto
  have dec: "dec_u64 c (enc_u64 c (?n - 1)) = Inr (?n - 1)"
    using c b unfolding codec_ok_def by simp
  have "M (to_meta_key LAST_PRUNED (enc_unit c)) = (if ?n = 0 then None else Some (enc_u64 c (?n - 1)))"
    using j p(1) by (simp add: journal_ok_def rw_pending_def)
  then have "rw_new c (\<lambda>k. Inr (M k)) True = (read_pruning_journal c (\<lambda>k. Inr (M k)) ?n ?w0 :: (('e, 'c) StateDbError, _) result option)"
    using dec by (cases "?n = 0") (simp_all add: rw_new_def db_read_def decoded_def)
  then show ?thesis
    using w' opened_unique [OF w'(2) o] by simp
qed

section \<open>Reading the journal of non-canonical blocks returns\<close>

lemma read_level_returns:
  assumes "db (noncanonical_journal_key c block (index + n)) = Inr None"
  shows "read_level c db block index level nc \<noteq> None"
  using assms
proof (induction n arbitrary: index level nc)
  case 0
  then show ?case
    by (subst read_level.simps) (simp add: db_read_def)
next
  case (Suc n)
  then show ?case
    using Suc.IH [of "index + 1"] by (subst read_level.simps) (simp add: Let_def split: result.split option.split)
qed

lemma read_level_empty:
  assumes "db (noncanonical_journal_key c block index) = Inr None"
  shows "read_level c db block index level nc = Some (Ok (level, nc))"
  using assms by (subst read_level.simps) (simp add: db_read_def)

text \<open>The journal is read to the end if every level has an index, and some level no record at all, where the disk has nothing.\<close>

lemma read_levels_returns:
  assumes "\<And>b. block \<le> b \<Longrightarrow> b \<le> block + n \<Longrightarrow> \<exists>i. db (noncanonical_journal_key c b i) = Inr None"
    and "db (noncanonical_journal_key c (block + n) 0) = Inr None"
  shows "read_levels c db block nc \<noteq> None"
  using assms
proof (induction n arbitrary: block nc)
  case 0
  then show ?case
    by (subst read_levels.simps) (simp add: read_level_empty)
next
  case (Suc n)
  have IH: "read_levels c db (block + 1) nc' \<noteq> None" for nc'
    using Suc.prems by (intro Suc.IH) auto
  have "read_level c db block 0 [] nc \<noteq> None"
    using Suc.prems(1) [of block] read_level_returns [of db c block 0] by auto
  then show ?case
    using IH by (subst read_levels.simps) (auto split: result.split)
qed

lemma nc_new_returns:
  assumes "\<And>b. \<exists>i. db (noncanonical_journal_key c b i) = Inr None" and "\<And>b. \<exists>n \<ge> b. db (noncanonical_journal_key c n 0) = Inr None"
  shows "nc_new c db \<noteq> None"
proof -
  have "read_levels c db b nc \<noteq> None" for b nc
  proof -
    obtain n where "b \<le> n" "db (noncanonical_journal_key c n 0) = Inr None"
      using assms(2) by blast
    then show ?thesis
      using assms(1) by (intro read_levels_returns [where n = "n - b"]) auto
  qed
  then show ?thesis
    unfolding nc_new_def by (auto split: result.split option.split)
qed

section \<open>What the commits write\<close>

definition writes_elsewhere :: "bytes ChangeSet \<Rightarrow> bool" where
  "writes_elsewhere cs \<longleftrightarrow> (\<forall>k \<in> fst ` set (cs_inserted cs) \<union> set (cs_deleted cs). length k \<noteq> 11 \<and> length k \<noteq> 23)"

lemma foldl_notin: "k \<notin> fst ` set kvs \<Longrightarrow> foldl (\<lambda>m (k, v). m(k \<mapsto> v)) col kvs k = col k"
  by (induction kvs arbitrary: col) auto

lemma write_notin: "k \<notin> fst ` set (cs_inserted cs) \<Longrightarrow> k \<notin> set (cs_deleted cs) \<Longrightarrow> write_changes cs col k = col k"
  by (simp add: write_changes_eq foldl_notin)

lemma journal_ok_elsewhere:
  assumes c: "codec_ok c" and "writes_elsewhere cs"
  shows "journal_ok c R w (write_changes cs M) = journal_ok c R w M"
proof -
  have "write_changes cs M k = M k" if "length k = 11 \<or> length k = 23" for k
    using assms(2) that by (intro write_notin) (auto simp: writes_elsewhere_def)
  then show ?thesis
    by (simp add: journal_ok_def key_lengths [OF c])
qed

text \<open>The commit of the loop that prunes.\<close>

lemma prune_loop_meta:
  "pending_prunings w \<le> pending_prunings (snd (prune_loop c cs pinned commit w)) \<and>
   cs_inserted (commit_meta (fst (prune_loop c cs pinned commit w))) = cs_inserted (commit_meta commit) @
     map (\<lambda>i. (to_meta_key LAST_PRUNED (enc_unit c), enc_u64 c (pending_number w + i)))
       [pending_prunings w..<pending_prunings (snd (prune_loop c cs pinned commit w))] \<and>
   cs_deleted (commit_meta (fst (prune_loop c cs pinned commit w))) = cs_deleted (commit_meta commit) @
     map (\<lambda>i. dr_journal_key (death_rows w ! i)) [pending_prunings w..<pending_prunings (snd (prune_loop c cs pinned commit w))]"
proof (induction commit w rule: prune_loop_rule [of c cs pinned])
  case (step commit w)
  let ?c1 = "fst (prune_one c commit w)" and ?w1 = "w\<lparr>pending_prunings := Suc (pending_prunings w)\<rparr>"
  let ?p = "pending_prunings (snd (prune_loop c cs pinned ?c1 ?w1))"
  have "Suc (pending_prunings w) \<le> ?p"
    using step.IH by simp
  then have "[pending_prunings w..<?p] = pending_prunings w # [Suc (pending_prunings w)..<?p]"
    by (simp add: upt_conv_Cons)
  then show ?case
    unfolding step.hyps(2) using step.IH step.hyps(1) by (simp add: prune_one_def Let_def)
qed simp

lemma foldl_same_key: "a \<le> b \<Longrightarrow> foldl (\<lambda>m (k, v). m(k \<mapsto> v)) col (map (\<lambda>i. (K, f i)) [a..<b]) K = (if a < b then Some (f (b - 1)) else col K)"
  by (induction b) (auto simp: le_Suc_eq)

text \<open>
  The metadata after a commit that writes the record of block \<open>b\<close>, the last pruned block for each pruned one, and deletes
  the records of the pruned ones.
\<close>

lemma journal_lookup:
  assumes c: "codec_ok c" and e: "writes_elsewhere cs0" and pp: "pp \<le> p" and b: "b < 2 ^ 64" "n + p \<le> 2 ^ 64"
    and ins: "cs_inserted cs = cs_inserted cs0 @ [(pruning_journal_key c b, v)] @
      map (\<lambda>i. (to_meta_key LAST_PRUNED (enc_unit c), enc_u64 c (n + i))) [pp..<p]"
    and del: "cs_deleted cs = cs_deleted cs0 @ map (\<lambda>i. pruning_journal_key c (n + i)) [pp..<p]"
  shows "x < 2 ^ 64 \<Longrightarrow> write_changes cs M (pruning_journal_key c x) =
      (if n + pp \<le> x \<and> x < n + p then None else if x = b then Some v else M (pruning_journal_key c x))"
    "write_changes cs M (to_meta_key LAST_PRUNED (enc_unit c)) =
      (if pp < p then Some (enc_u64 c (n + (p - 1))) else M (to_meta_key LAST_PRUNED (enc_unit c)))"
proof -
  let ?LP = "to_meta_key LAST_PRUNED (enc_unit c)" and ?key = "pruning_journal_key c"
  have away: "k \<notin> fst ` set (cs_inserted cs0)" "k \<notin> set (cs_deleted cs0)" if "length k = 11 \<or> length k = 23" for k
    using e that unfolding writes_elsewhere_def by fastforce+
  have ne: "?key x \<noteq> ?LP" "?LP \<noteq> ?key x" for x
    using key_lengths(2,4) [OF c] by (metis numeral_eq_iff semiring_norm(88) semiring_norm(90))+
  have LP: "?LP \<notin> set (cs_deleted cs)" "?LP \<notin> fst ` set (cs_inserted cs0)"
    using away [of ?LP] key_lengths(2) [OF c] ne by (auto simp: del)
  show "write_changes cs M ?LP = (if pp < p then Some (enc_u64 c (n + (p - 1))) else M ?LP)"
    using LP ne by (simp add: write_changes_eq ins foldl_same_key [OF pp] foldl_notin)
  assume x: "x < 2 ^ 64"
  have inj: "?key x = ?key y \<longleftrightarrow> x = y" if "y < 2 ^ 64" for y
    by (rule pruning_journal_key_inj [OF c x that])
  have k: "?key x \<notin> fst ` set (cs_inserted cs0)" "?key x \<notin> set (cs_deleted cs0)"
    using away [of "?key x"] key_lengths(4) [OF c] by auto
  have i: "?key x = ?key (n + i) \<longleftrightarrow> x = n + i" if "i < p" for i
    using b(2) that by (intro inj) simp
  have "?key x \<in> set (cs_deleted cs) \<longleftrightarrow> (\<exists>i \<in> {pp..<p}. ?key x = ?key (n + i))"
    using k(2) by (auto simp: del)
  also have "\<dots> \<longleftrightarrow> (\<exists>i \<in> {pp..<p}. x = n + i)"
    using i by auto
  also have "\<dots> \<longleftrightarrow> n + pp \<le> x \<and> x < n + p"
    by (auto intro!: bexI [of _ "x - n"])
  finally have d: "?key x \<in> set (cs_deleted cs) \<longleftrightarrow> n + pp \<le> x \<and> x < n + p" .
  have "?key x \<notin> fst ` set (map (\<lambda>i. (?LP, enc_u64 c (n + i))) [pp..<p])"
    using ne by auto
  then have "foldl (\<lambda>m (k, v). m(k \<mapsto> v)) M (cs_inserted cs) (?key x) = (if x = b then Some v else M (?key x))"
    using k(1) inj [OF b(1)] by (simp add: ins foldl_notin)
  then show "write_changes cs M (?key x) = (if n + pp \<le> x \<and> x < n + p then None else if x = b then Some v else M (?key x))"
    unfolding write_changes_eq d by (simp only:)
qed

lemma journal_noted:
  fixes c :: "('h, 'k, 'c) codec" and cs :: Constraints and pinned :: "'h \<Rightarrow> nat option"
  assumes c: "codec_ok c" and j: "journal_ok c R w M" and pp: "pending_prunings w \<le> length (death_rows w)"
    and fresh: "\<And>i. i < length (death_rows w) \<Longrightarrow> row_keys w i \<inter> set del \<subseteq> set ins"
    and b: "pending_number w + length R + 1 < 2 ^ 64"
    and e: "writes_elsewhere cs0" and m: "commit_meta c2 = cs0\<lparr>cs_inserted := cs_inserted cs0 @
        [(pruning_journal_key c (pending_number w + length (death_rows w)), enc_pruning c \<lparr>pr_hash = hash, pr_inserted = ins, pr_deleted = del\<rparr>)]\<rparr>"
  defines "pl \<equiv> prune_loop c cs pinned c2 (noted c hash ins del w)"
  shows "journal_ok c (R @ [\<lparr>pr_hash = hash, pr_inserted = ins, pr_deleted = del\<rparr>]) (snd pl) (write_changes (commit_meta (fst pl)) M)"
proof -
  let ?w1 = "noted c hash ins del w" and ?n = "pending_number w" and ?key = "pruning_journal_key c"
  let ?r = "\<lparr>pr_hash = hash, pr_inserted = ins, pr_deleted = del\<rparr>"
  define p where "p = pending_prunings (snd pl)"
  have w1: "pending_number ?w1 = ?n" "pending_prunings ?w1 = pending_prunings w" "death_rows ?w1 = rows_of c ?n (R @ [?r])"
    using j by (simp_all add: noted_def imported_def journal_ok_def rows_of_snoc)
  have rows: "length (death_rows w) = length R"
    using j by (simp add: journal_ok_def)
  note pm = prune_loop_meta [of ?w1 c cs pinned c2, folded pl_def, folded p_def, unfolded w1]
  obtain p0 where "snd pl = ?w1\<lparr>pending_prunings := p0\<rparr>"
    using prune_loop_window unfolding pl_def by blast
  then have w': "pending_number (snd pl) = ?n" "death_rows (snd pl) = rows_of c ?n (R @ [?r])"
    by (simp_all add: w1)
  have le: "pending_prunings w \<le> p" "p \<le> Suc (length R)"
    using pm prune_loop_bound [of ?w1 c cs pinned c2] w1 pp rows unfolding p_def pl_def by auto
  have keys: "map (\<lambda>i. dr_journal_key (rows_of c ?n (R @ [?r]) ! i)) [pending_prunings w..<p] = map (\<lambda>i. ?key (?n + i)) [pending_prunings w..<p]"
    using le(2) by (intro map_cong) (auto simp: rows_of_key)
  note look = journal_lookup [OF c e le(1), where b = "?n + length R" and n = ?n and cs = "commit_meta (fst pl)" and v = "enc_pruning c ?r" and M = M]
  have look: "x < 2 ^ 64 \<Longrightarrow> write_changes (commit_meta (fst pl)) M (?key x) =
      (if ?n + pending_prunings w \<le> x \<and> x < ?n + p then None else if x = ?n + length R then Some (enc_pruning c ?r) else M (?key x))"
    "write_changes (commit_meta (fst pl)) M (to_meta_key LAST_PRUNED (enc_unit c)) =
      (if pending_prunings w < p then Some (enc_u64 c (?n + (p - 1))) else M (to_meta_key LAST_PRUNED (enc_unit c)))" for x
    using look pm b le(2) unfolding keys by (simp_all add: m rows)
  have "coherent c ?n (R @ [?r])"
  proof (rule coherent_snoc)
    fix row
    assume "row \<in> set (rows_of c ?n R)"
    then obtain i where "i < length (death_rows w)" "row = death_rows w ! i"
      using j by (auto simp: journal_ok_def in_set_conv_nth)
    then show "set (dr_deleted row) \<inter> set (pr_deleted ?r) \<subseteq> set (pr_inserted ?r)"
      using fresh [of i] by (simp add: row_keys_def)
  qed (use j in \<open>simp add: journal_ok_def\<close>)
  moreover have "write_changes (commit_meta (fst pl)) M (?key (?n + i)) = Some (enc_pruning c ((R @ [?r]) ! i))"
    if "p \<le> i" "i < length (R @ [?r])" for i
    using look(1) [of "?n + i"] that b j le(1) by (auto simp: journal_ok_def nth_append less_Suc_eq)
  moreover have "write_changes (commit_meta (fst pl)) M (?key x) = None" if "?n + length (R @ [?r]) \<le> x" "x < 2 ^ 64" for x
    using look(1) [of x] that j by (auto simp: journal_ok_def)
  moreover have "write_changes (commit_meta (fst pl)) M (to_meta_key LAST_PRUNED (enc_unit c)) =
      (if ?n + p = 0 then None else Some (enc_u64 c (?n + p - 1)))"
    using look(2) j le(1) by (cases "pending_prunings w < p") (auto simp: journal_ok_def rw_pending_def)
  ultimately show ?thesis
    unfolding journal_ok_def w' rw_pending_def p_def by blast
qed

section \<open>Runs\<close>

definition journaled :: "('h, 'k, 'c) codec \<Rightarrow> ('h, 'k) node \<Rightarrow> ('h, 'k) RefWindow \<Rightarrow> bool" where
  "journaled c n w \<longleftrightarrow>
     (\<forall>ov \<in> set (concat (levels (non_canonical (n_sdb n)))). length (bo_journal_key ov) = 36) \<and>
     (length (n_chain n @ nc_pending_canonicalizations (non_canonical (n_sdb n))) < 2 ^ 64 \<longrightarrow>
        (\<exists>R. journal_ok c R w (meta_column (written n))))"

definition grows :: "('h, 'k) node \<Rightarrow> ('h, 'k) node \<Rightarrow> bool" where
  "grows n n' \<longleftrightarrow> length (n_chain n @ nc_pending_canonicalizations (non_canonical (n_sdb n))) \<le>
     length (n_chain n' @ nc_pending_canonicalizations (non_canonical (n_sdb n')))"

definition keeps_journal :: "('h, 'k, 'c) codec \<Rightarrow> ('h, 'k) node \<Rightarrow> ('h, 'k) node \<Rightarrow> bool" where
  "keeps_journal c n n' \<longleftrightarrow> (\<forall>w'. sdb_pruning (n_sdb n') = Some w' \<longrightarrow> journaled c n' w' \<and> grows n n')"

lemma keeps_journal_refl: "journaled c n w \<Longrightarrow> sdb_pruning (n_sdb n) = Some w \<Longrightarrow> keeps_journal c n n"
  by (simp add: keeps_journal_def grows_def)

lemma journaled_same:
  assumes "journaled c n w" "codec_ok c"
    "\<And>ov. ov \<in> set (concat (levels (non_canonical (n_sdb n')))) \<Longrightarrow>
       ov \<in> set (concat (levels (non_canonical (n_sdb n)))) \<or> length (bo_journal_key ov) = 36"
    "n_chain n' = n_chain n" "nc_pending_canonicalizations (non_canonical (n_sdb n')) = nc_pending_canonicalizations (non_canonical (n_sdb n))"
    "meta_column (written n') = write_changes cs (meta_column (written n))" "writes_elsewhere cs"
    "sdb_pruning (n_sdb n) = Some w" "sdb_pruning (n_sdb n') = sdb_pruning (n_sdb n)"
  shows "keeps_journal c n n'"
proof -
  have "length (bo_journal_key ov) = 36" if "ov \<in> set (concat (levels (non_canonical (n_sdb n'))))" for ov
    using assms(3) [OF that] assms(1) unfolding journaled_def by blast
  then show ?thesis
    using assms(1) journal_ok_elsewhere [OF assms(2,7)] assms(8,9)
    unfolding journaled_def grows_def keeps_journal_def assms(4-6) by (simp del: set_concat)
qed

lemma elsewhere_meta_insert [simp]:
  "writes_elsewhere (commit_meta (meta_insert kv cm)) \<longleftrightarrow> length (fst kv) \<noteq> 11 \<and> length (fst kv) \<noteq> 23 \<and> writes_elsewhere (commit_meta cm)"
  by (auto simp: writes_elsewhere_def meta_insert_def)

lemma elsewhere_empty [simp]: "writes_elsewhere (commit_meta empty_commit)" "writes_elsewhere empty_changes"
  by (simp_all add: writes_elsewhere_def empty_commit_def empty_changes_def)

lemma check_insert_meta:
  assumes "codec_ok c" "check_insert c number parent nc = Ok (commit, nc1)"
  shows "writes_elsewhere (commit_meta commit)"
proof (cases "levels nc = [] \<and> last_canonicalized nc = None \<and> 0 < number")
  case True
  show ?thesis
    using assms(2) unfolding check_insert_def if_P [OF True] Let_def by (auto simp: key_lengths [OF assms(1)])
next
  case False
  then have "commit = empty_commit"
    using assms(2) check_insert_commit [of c number parent nc commit nc1] by blast
  then show ?thesis
    by simp
qed

lemma insert_journal:
  fixes c :: "('h, 'k, 'c) codec"
  assumes c: "codec_ok c" and j: "journaled c n w" and m: "sdb_mode (n_sdb n) = Constrained cs"
    and w: "sdb_pruning (n_sdb n) = Some w"
    and fits: "fits g number parent (non_canonical (n_sdb n))"
    and r: "do_call c (InsertBlock hash number parent changes) n = Some (Ok n')"
  shows "keeps_journal c n n'"
proof -
  let ?nc = "non_canonical (n_sdb n)"
  let ?r = "nc_insert c hash number parent changes ?nc :: (('c, 'c) StateDbError, _) result"
  let ?m = "if number = 0 then [(to_meta_key PRUNING_MODE (enc_unit c), mode_id (sdb_mode (n_sdb n)))] else []"
  show ?thesis
  proof (cases "?r")
    case (Ok p)
    obtain commit nc where p: "p = (commit, nc)" by (cases p)
    obtain c0 nc1 where c0: "check_insert c number parent ?nc = (Ok (c0, nc1) :: (('c, 'c) StateDbError, _) result)"
      using Ok by (cases "check_insert c number parent ?nc :: (('c, 'c) StateDbError, _) result") (auto simp: nc_insert_def Let_def)
    let ?at = "insert_at number ?nc"
    let ?ov = "new_overlay c hash number ?at changes ?nc"
    obtain v where v: "commit = meta_insert (bo_journal_key ?ov, v) c0" "levels nc = push ?at ?ov (levels ?nc)"
      "nc_pending_canonicalizations nc = nc_pending_canonicalizations ?nc"
      using nc_insert_ok [OF fits c0, of hash changes] Ok check_insert_ok(2) [OF fits c0] by (auto simp: p new_overlay_def)
    have k: "length (bo_journal_key ?ov) = 36"
      by (simp add: new_overlay_def key_lengths [OF c])
    define cm where "cm = foldl (\<lambda>cm kv. meta_insert kv cm) commit ?m"
    have n': "n' = n\<lparr>n_sdb := (n_sdb n)\<lparr>non_canonical := nc\<rparr>, n_txn := n_txn n @ [cm]\<rparr>"
      using r Ok by (simp add: p insert_block_def m [THEN arg_cong, of "case_PruningMode a b c" for a b c] Let_def with_commit_def cm_def)
    have e: "writes_elsewhere (commit_meta cm)"
      using check_insert_meta [OF c c0] k by (auto simp: cm_def v(1) key_lengths [OF c])
    have mc: "meta_column (written n') = write_changes (commit_meta cm) (meta_column (written n))"
      unfolding n' by (simp add: written_snoc apply_state_commit_def)
    show ?thesis
      by (rule journaled_same [OF j c _ _ _ mc e w]) (auto simp: n' v(2,3) set_concat_push k simp del: set_concat)
  next
    case (Err e)
    then have "n' = n"
      using r m by (simp add: insert_block_def Let_def with_commit_def)
    then show ?thesis
      using keeps_journal_refl [OF j w] by simp
  next
    case Panic
    then show ?thesis
      using nc_insert_no_panic [OF fits] by blast
  qed
qed

lemma journals_from_levels:
  "discard_journals P ls h = (Ok js :: ('x, _) result) \<Longrightarrow> set js \<subseteq> bo_journal_key ` set (concat ls)"
proof (induction ls arbitrary: h js)
  case (Cons l ls)
  have "set js \<subseteq> bo_journal_key ` (set l' \<union> set (concat ls))"
    if "journals_level (discard_journals P ls) P h l' = (Ok js :: ('x, _) result)" for l' js
    using that
  proof (induction l' arbitrary: js)
    case (Cons ov l')
    then show ?case
      using \<open>\<And>h js. discard_journals P ls h = (Ok js :: ('x, _) result) \<Longrightarrow> set js \<subseteq> bo_journal_key ` set (concat ls)\<close>
      by (fastforce simp: and_then_Ok_iff simp del: set_concat split: option.splits if_splits)
  qed simp
  from this [of l js] show ?case
    using Cons.prems by simp
qed simp

lemma level_journals_subset:
  "level_journals rec index i l = (Ok js :: ('x, _) result) \<Longrightarrow> (\<And>h js. rec h = Ok js \<Longrightarrow> set js \<subseteq> J) \<Longrightarrow>
     set js \<subseteq> bo_journal_key ` set l \<union> J"
proof (induction l arbitrary: i js)
  case (Cons ov l)
  then show ?case
    by (fastforce simp: and_then_Ok_iff split: if_splits)
qed simp

lemma nc_canonicalize_meta:
  assumes "nc_canonicalize c hash empty_commit nc = (Ok (commit, nc') :: (('e, 'c) StateDbError, _) result)" "codec_ok c"
    "\<forall>ov \<in> set (concat (levels nc)). length (bo_journal_key ov) = 36"
  shows "writes_elsewhere (commit_meta commit)"
proof -
  let ?p = "length (nc_pending_canonicalizations nc)"
  obtain index js kvs where p: "?p < length (levels nc)"
    and js: "level_journals (discard_journals (parents nc) (drop (?p + 1) (levels nc))) index 0 (levels nc ! ?p) =
      (Ok js :: (('e, 'c) StateDbError, _) result)"
    and cm: "commit_meta commit = \<lparr>cs_inserted = [(to_meta_key LAST_CANONICAL (enc_unit c), enc_block c (hash, front_block_number nc + ?p))], cs_deleted = js\<rparr>"
    using assms(1) by (auto simp: nc_canonicalize_def Let_def and_then_Ok_iff empty_commit_def empty_changes_def meta_insert_def split: if_splits option.splits)
  have "set js \<subseteq> bo_journal_key ` set (levels nc ! ?p) \<union> bo_journal_key ` set (concat (drop (?p + 1) (levels nc)))"
    by (rule level_journals_subset [OF js]) (rule journals_from_levels)
  also have "\<dots> \<subseteq> bo_journal_key ` set (concat (levels nc))"
    using nth_mem [OF p] by (fastforce dest: in_set_dropD)
  finally show ?thesis
    using assms(3) by (auto simp: writes_elsewhere_def cm key_lengths [OF assms(2)] simp del: set_concat)
qed

lemma canonicalize_journal:
  assumes c: "codec_ok c" and j: "journaled c n w" and ok: "node_ok st content g cs L0 w n"
    and a: "allowed st content g (CanonicalizeBlock hash) n" and r: "do_call c (CanonicalizeBlock hash) n = Some (Ok n')"
  shows "keeps_journal c n n'"
  using ok a
proof (cases rule: canonicalize_cases [where c = c])
  case none
  then have "n' = n"
    using r by simp
  then show ?thesis
    using keeps_journal_refl [OF j node_okD(2) [OF ok]] by simp
next
  case (noted ov m c2 nc pl)
  let ?nc = "non_canonical (n_sdb n)" and ?Ss = "chain_states st g n"
  let ?pend = "nc_pending_canonicalizations ?nc"
  have n': "n' = n\<lparr>n_sdb := (n_sdb n)\<lparr>non_canonical := nc, sdb_pruning := Some (snd pl)\<rparr>, n_txn := n_txn n @ [fst pl]\<rparr>"
    using r noted(9) by simp
  have mc: "meta_column (written n') = write_changes (commit_meta (fst pl)) (meta_column (written n))"
    unfolding n' by (simp add: written_snoc apply_state_commit_def)
  have e: "writes_elsewhere m"
    using nc_canonicalize_meta [OF noted(5) c] j by (simp add: journaled_def del: set_concat)
  have fresh: "row_keys w i \<inter> set (bo_deleted ov) \<subseteq> set (bo_inserted ov)" if "i < length (death_rows w)" for i
    using window_rows [OF node_okD(5) [OF ok] that, of "pending_number w + length (death_rows w)"] last_state [OF node_okD(5) [OF ok]]
      that noted(4) node_okD(5) [OF ok] by (auto simp: leads_def window_ok_def)
  have len: "length (n_chain n @ ?pend) = pending_number w + length (death_rows w)" "pending_prunings w \<le> length (death_rows w)"
    using node_okD(5) [OF ok] by (auto simp: window_ok_def chain_states_def)
  have "\<exists>R. journal_ok c R (snd pl) (meta_column (written n'))" if b: "length (n_chain n @ ?pend @ [hash]) < 2 ^ 64"
  proof -
    obtain R where R: "journal_ok c R w (meta_column (written n))"
      using j b unfolding journaled_def by auto
    then have "length R = length (death_rows w)"
      by (simp add: journal_ok_def)
    then show ?thesis
      using journal_noted [OF c R len(2) fresh _ e noted(7), of cs "sdb_pinned (n_sdb n)"] b len(1) unfolding mc noted(8) by auto
  qed
  then show ?thesis
    using j unfolding keeps_journal_def journaled_def grows_def by (simp add: n' noted(3) del: set_concat)
qed

lemma apply_journal:
  assumes c: "codec_ok c" and j: "journaled c n w" and ok: "node_ok st content g cs L0 w n"
    and r: "do_call c ApplyPending n = Some (Ok n')"
  shows "keeps_journal c n n'" "written n' = n_disk n'"
    "\<forall>w'. sdb_pruning (n_sdb n') = Some w' \<longrightarrow> pending_prunings w' = 0 \<and> rw_pending_canonicalizations w' = 0"
    "nc_pending_canonicalizations (non_canonical (n_sdb n')) = []"
proof -
  let ?nc = "non_canonical (n_sdb n)"
  let ?pend = "nc_pending_canonicalizations ?nc"
  obtain nc where nc: "(nc_apply_pending ?nc :: (unit, _) result) = Ok nc" "nc_pending_canonicalizations nc = []"
    "levels nc = below (parents ?nc) (levels ?nc) ?pend"
    using overlay_apply [OF node_okD(3) [OF ok]] by blast
  obtain v where v: "(rw_apply_pending w :: (unit, _) result) = Ok v" "rw_pending v = rw_pending w" "pending_prunings v = 0"
    "rw_pending_canonicalizations v = 0" "death_rows v = drop (pending_prunings w) (death_rows w)" "pending_number v = rw_pending w"
    using rw_apply_ok [OF node_okD(5) [OF ok], where ?'x = unit] by blast
  have n': "n' = n\<lparr>n_sdb := (n_sdb n)\<lparr>non_canonical := nc, sdb_pruning := Some v\<rparr>, n_disk := written n, n_txn := [],
      n_chain := n_chain n @ ?pend\<rparr>"
    using r nc(1) v(1) node_okD(2) [OF ok] by (simp add: sdb_apply_pending_def)
  have jd: "journal_ok c (drop (pending_prunings w) R) v M" if "journal_ok c R w M" "pending_prunings w \<le> length R" for R M
    using that v coherent_drop [of c "pending_number w" R "pending_prunings w"]
    unfolding journal_ok_def by (auto simp: drop_rows_of rw_pending_def add.assoc)
  have lvl: "length (bo_journal_key ov) = 36" if "ov \<in> set (concat (levels nc))" for ov
    using that j below_subset [of "parents ?nc" "levels ?nc" ?pend] unfolding journaled_def nc(3) by blast
  have wr: "written n' = written n"
    by (simp add: n' written_def)
  have "\<exists>R. journal_ok c R v (meta_column (written n))" if b: "length (n_chain n @ ?pend) < 2 ^ 64"
  proof -
    obtain R where R: "journal_ok c R w (meta_column (written n))"
      using j b unfolding journaled_def by auto
    have "pending_prunings w \<le> length R"
      using node_okD(5) [OF ok] R by (auto simp: window_ok_def journal_ok_def)
    then show ?thesis
      using jd [OF R] by blast
  qed
  then have "journaled c n' v"
    unfolding journaled_def wr using lvl by (simp add: n' nc(2) del: set_concat)
  then show "keeps_journal c n n'" "written n' = n_disk n'"
    "\<forall>w'. sdb_pruning (n_sdb n') = Some w' \<longrightarrow> pending_prunings w' = 0 \<and> rw_pending_canonicalizations w' = 0"
    "nc_pending_canonicalizations (non_canonical (n_sdb n')) = []"
    using v by (simp_all add: keeps_journal_def grows_def n' nc(2) written_def)
qed

lemma write_meta_nothing: "meta_column (written n') = meta_column (written n) \<Longrightarrow> meta_column (written n') = write_changes empty_changes (meta_column (written n))"
  by simp

lemma pin_journal:
  assumes c: "codec_ok c" and j: "journaled c n w" and m: "sdb_mode (n_sdb n) = Constrained cs"
    and w: "sdb_pruning (n_sdb n) = Some w" and r: "do_call c (PinBlock hash) n = Some (Ok n')"
  shows "keeps_journal c n n'"
proof -
  let ?nc = "non_canonical (n_sdb n)"
  consider "sdb_pin hash (n_sdb n) = Err PinInvalidBlock"
    | f nc where "sdb_pin hash (n_sdb n) = Ok ((n_sdb n)\<lparr>sdb_pinned := f, non_canonical := nc\<rparr>)" "nc = ?nc \<or> nc = nc_pin hash ?nc"
    using sdb_pin_cases [OF m, of hash] by blast
  then show ?thesis
  proof cases
    case 1
    then show ?thesis
      using keeps_journal_refl [OF j w] r by simp
  next
    case (2 f nc)
    then have n': "n' = n\<lparr>n_sdb := (n_sdb n)\<lparr>sdb_pinned := f, non_canonical := nc\<rparr>\<rparr>" "levels nc = levels ?nc"
      "nc_pending_canonicalizations nc = nc_pending_canonicalizations ?nc"
      using r by (auto simp: nc_pin_def)
    then show ?thesis
      by (intro journaled_same [OF j c _ _ _ write_meta_nothing elsewhere_empty(2) w]) (simp_all add: n' written_def)
  qed
qed

lemma unpin_journal:
  assumes c: "codec_ok c" and j: "journaled c n w" and ok: "node_ok st content g cs L0 w n" and r: "do_call c (UnpinBlock hash) n = Some (Ok n')"
  shows "keeps_journal c n n'"
proof -
  let ?nc = "non_canonical (n_sdb n)"
  obtain nc1 where nc1: "nc_unpin hash ?nc = Some nc1" "levels nc1 = levels ?nc" "nc_pending_canonicalizations nc1 = nc_pending_canonicalizations ?nc"
    using overlay_unpin [OF node_okD(3) [OF ok]] by blast
  obtain f nc where "sdb_unpin hash (n_sdb n) = Some ((n_sdb n)\<lparr>sdb_pinned := f, non_canonical := nc\<rparr>)" "nc = ?nc \<or> nc = nc1"
    using sdb_unpin_cases [OF nc1(1)] by blast
  then have n': "n' = n\<lparr>n_sdb := (n_sdb n)\<lparr>sdb_pinned := f, non_canonical := nc\<rparr>\<rparr>" "levels nc = levels ?nc"
    "nc_pending_canonicalizations nc = nc_pending_canonicalizations ?nc"
    using r nc1 by auto
  then show ?thesis
    by (intro journaled_same [OF j c _ _ _ write_meta_nothing elsewhere_empty(2) node_okD(2) [OF ok]]) (simp_all add: n' written_def)
qed

lemma drop_level_meta:
  "drop_level ovs (commit, nc) = (commit', nc') \<Longrightarrow> cs_inserted (commit_meta commit') = cs_inserted (commit_meta commit) \<and>
     set (cs_deleted (commit_meta commit')) = set (cs_deleted (commit_meta commit)) \<union> bo_journal_key ` set ovs"
proof (induction ovs arbitrary: commit nc)
  case (Cons ov ovs)
  then show ?case
    by fastforce
qed simp

lemma revert_one_journal:
  assumes c: "codec_ok c" and j: "journaled c n w" and m: "sdb_mode (n_sdb n) = Constrained cs"
    and w: "sdb_pruning (n_sdb n) = Some w" and t: "n_txn n = []"
    and r: "do_call c RevertOne n = Some (Ok n')"
  shows "keeps_journal c n n'"
proof -
  let ?nc = "non_canonical (n_sdb n)"
  obtain commit nc where o: "nc_revert_one ?nc = (commit, nc)"
    by (cases "nc_revert_one ?nc")
  have n': "n' = n\<lparr>n_sdb := (n_sdb n)\<lparr>non_canonical := nc\<rparr>,
      n_disk := (case commit of Some cm \<Rightarrow> apply_state_commit cm (n_disk n) | None \<Rightarrow> n_disk n)\<rparr>"
    using r by (simp add: sdb_revert_one_def m o)
  show ?thesis
  proof (cases "levels ?nc = []")
    case True
    then have "commit = None" "nc = ?nc"
      using o by (simp_all add: nc_revert_one_def)
    then show ?thesis
      by (intro journaled_same [OF j c _ _ _ write_meta_nothing elsewhere_empty(2) w]) (simp_all add: n' written_def)
  next
    case False
    then obtain cm where cm: "drop_level (last (levels ?nc)) (empty_commit, ?nc\<lparr>levels := butlast (levels ?nc)\<rparr>) = (cm, nc)" "commit = Some cm"
      using o by (auto simp: nc_revert_one_def Let_def split: prod.splits)
    have sub: "set (last (levels ?nc)) \<subseteq> set (concat (levels ?nc))"
      using last_in_set [OF False] by auto
    have e: "writes_elsewhere (commit_meta cm)"
      using drop_level_meta [OF cm(1)] j sub by (auto simp: writes_elsewhere_def journaled_def empty_commit_def empty_changes_def)
    have mc: "meta_column (written n') = write_changes (commit_meta cm) (meta_column (written n))"
      by (simp add: n' cm(2) written_def t apply_state_commit_def)
    show ?thesis
      using nc_revert_one_levels [OF o] drop_level_eq [OF cm(1)]
      by (intro journaled_same [OF j c _ _ _ mc e w]) (auto simp: n' simp del: set_concat)
  qed
qed

lemma journal_step:
  assumes c: "codec_ok c" and j: "journaled c n w" and ok: "node_ok st content g cs L0 w n" and a: "allowed st content g x n"
    and x: "x \<noteq> RevertPending" and r: "do_call c x n = Some (Ok n')"
  shows "keeps_journal c n n'"
proof (cases x)
  case (InsertBlock h k p ch)
  show ?thesis
    by (rule insert_journal [OF c j node_okD(1,2) [OF ok] _ r [unfolded InsertBlock]]) (use a InsertBlock in auto)
next
  case (CanonicalizeBlock h)
  show ?thesis
    by (rule canonicalize_journal [OF c j ok a [unfolded CanonicalizeBlock] r [unfolded CanonicalizeBlock]])
next
  case (PinBlock h)
  show ?thesis
    by (rule pin_journal [OF c j node_okD(1,2) [OF ok] r [unfolded PinBlock]])
next
  case (UnpinBlock h)
  show ?thesis
    by (rule unpin_journal [OF c j ok r [unfolded UnpinBlock]])
next
  case ApplyPending
  show ?thesis
    by (rule apply_journal(1) [OF c j ok r [unfolded ApplyPending]])
next
  case RevertPending
  then show ?thesis
    using x by simp
next
  case RevertOne
  show ?thesis
    by (rule revert_one_journal [OF c j node_okD(1,2) [OF ok] _ r [unfolded RevertOne]]) (use a RevertOne in auto)
qed

lemma journal_run:
  "codec_ok c \<Longrightarrow> journaled c n w \<Longrightarrow> node_ok st content g cs L0 w n \<Longrightarrow> admissible c st content g xs n \<Longrightarrow> RevertPending \<notin> set xs \<Longrightarrow>
     \<exists>n' L0' w'. run_calls c xs n = Some (Ok n') \<and> node_ok st content g cs L0' w' n' \<and> journaled c n' w'"
proof (induction xs arbitrary: n L0 w)
  case (Cons x xs)
  obtain n1 L1 w1 where s: "do_call c x n = Some (Ok n1)" "node_ok st content g cs L1 w1 n1"
    using call_step [OF Cons.prems(3), of x c] Cons.prems(4) unfolding step_ok_def by auto
  have "journaled c n1 w1"
    using journal_step [OF Cons.prems(1-3) _ _ s(1)] Cons.prems(4,5) node_okD(2) [OF s(2)] by (auto simp: keeps_journal_def)
  then show ?case
    using Cons.IH [OF Cons.prems(1) _ s(2)] Cons.prems(4,5) s(1) by auto
qed auto

lemma journaled_fresh:
  assumes "codec_ok c" "meta_column db = (\<lambda>_. None)"
  shows "journaled c (fresh_node cs db) (the (sdb_pruning (n_sdb (fresh_node cs db))))"
  using assms(2) unfolding journaled_def
  by (auto simp: fresh_node_def empty_overlay_def written_def journal_ok_def coherent_def rw_pending_def intro!: exI [of _ "[]"])

end
