(* ===== verification/StateDbProperties.thy ===== *)
theory StateDbProperties
  imports StateDbJournal
begin

text \<open>
  What the state database promises: the properties of runs, with a small run as the instance of their hypotheses.
\<close>

section \<open>A small run\<close>

text \<open>
  A codec for blocks and nodes named by numbers: a block number is eight bytes, least significant first, and a record is
  a list of numbers in unary.
\<close>

definition le_bytes :: "nat \<Rightarrow> nat \<Rightarrow> bytes" where
  "le_bytes m n = map (\<lambda>i. of_nat (n div 256 ^ i)) [0..<m]"

fun from_le_bytes :: "bytes \<Rightarrow> nat" where
  "from_le_bytes [] = 0"
| "from_le_bytes (b # bs) = unat b + 256 * from_le_bytes bs"

definition enc_nats :: "nat list \<Rightarrow> bytes" where
  "enc_nats ns = concat (map (\<lambda>n. replicate n 1 @ [0]) ns)"

fun dec_nats :: "nat \<Rightarrow> bytes \<Rightarrow> nat list" where
  "dec_nats a [] = []"
| "dec_nats a (b # bs) = (if b = 0 then a # dec_nats 0 bs else dec_nats (Suc a) bs)"

fun dec_values :: "nat \<Rightarrow> nat list \<Rightarrow> ((nat \<times> DBValue) list \<times> nat list) option" where
  "dec_values 0 ns = Some ([], ns)"
| "dec_values (Suc m) (k # l # ns) =
     map_option (\<lambda>(kvs, rest). ((k, map of_nat (take l ns)) # kvs, rest)) (dec_values m (drop l ns))"
| "dec_values (Suc m) _ = None"

definition demo_codec :: "(nat, nat, unit) codec" where
  "demo_codec =
     \<lparr>enc_unit = [], enc_u64 = le_bytes 8, dec_u64 = (\<lambda>bs. if length bs = 8 then Inr (from_le_bytes bs) else Inl ()),
      enc_u64_pair = (\<lambda>(a, b). le_bytes 8 a @ le_bytes 8 b),
      enc_block = (\<lambda>(h, n). enc_nats [h, n]),
      dec_block = (\<lambda>bs. case dec_nats 0 bs of [h, n] \<Rightarrow> Inr (h, n) | _ \<Rightarrow> Inl ()),
      enc_pruning = (\<lambda>r. enc_nats (pr_hash r # length (pr_inserted r) # pr_inserted r @ pr_deleted r)),
      dec_pruning = (\<lambda>bs. case dec_nats 0 bs of
          h # n # ns \<Rightarrow> Inr \<lparr>pr_hash = h, pr_inserted = take n ns, pr_deleted = drop n ns\<rparr>
        | _ \<Rightarrow> Inl ()),
      enc_noncanonical = (\<lambda>r. enc_nats (nr_hash r # nr_parent_hash r # length (nr_inserted r) #
          concat (map (\<lambda>(k, v). k # length v # map unat v) (nr_inserted r)) @ nr_deleted r)),
      dec_noncanonical = (\<lambda>bs. case dec_nats 0 bs of
          h # p # n # ns \<Rightarrow>
            (case dec_values n ns of
               Some (i, d) \<Rightarrow> Inr \<lparr>nr_hash = h, nr_parent_hash = p, nr_inserted = i, nr_deleted = d\<rparr>
             | None \<Rightarrow> Inl ())
        | _ \<Rightarrow> Inl ())\<rparr>"

text \<open>
  Block 1 builds on the empty state, blocks 2 and 3 on block 1, block 4 on block 2 and block 5 on block 3. Block 1 and
  block 2 become canonical, blocks 3 and 5 are a fork.
\<close>

fun demo_st :: "nat \<Rightarrow> nat set" where
  "demo_st h = (if h = 1 then {10, 11} else if h = 2 then {11, 12} else if h = 3 then {10, 13} else if h = 4 then {12, 14}
     else if h = 5 then {10, 15} else {})"

definition demo_content :: "nat \<Rightarrow> DBValue" where
  "demo_content k = [of_nat k]"

definition demo_db :: "nat database" where
  "demo_db = \<lparr>state_column = (\<lambda>_. None), meta_column = (\<lambda>_. None)\<rparr>"

definition demo_changes :: "nat list \<Rightarrow> nat list \<Rightarrow> nat ChangeSet" where
  "demo_changes ins del = \<lparr>cs_inserted = map (\<lambda>k. (k, demo_content k)) ins, cs_deleted = del\<rparr>"

definition demo_calls :: "(nat, nat) call list" where
  "demo_calls =
     [InsertBlock 1 0 0 (demo_changes [10, 11] []), ApplyPending,
      CanonicalizeBlock 1, InsertBlock 2 1 1 (demo_changes [12] [10]), ApplyPending,
      InsertBlock 3 1 1 (demo_changes [13] [11]), InsertBlock 4 2 2 (demo_changes [14] [11]),
      PinBlock 3, InsertBlock 5 2 3 (demo_changes [15] [13]), CanonicalizeBlock 2, ApplyPending]"

definition demo_constraints :: Constraints where
  "demo_constraints = \<lparr>max_blocks = Some 1, max_mem = None\<rparr>"

lemma demo_holds: "holds demo_content (demo_st 0) demo_db"
  by (simp add: holds_def demo_db_def)

lemmas call_defs = with_commit_def insert_block_def nc_insert_def check_insert_def front_block_number_def canonicalize_block_def
  nc_canonicalize_def note_canonical_def rw_import_def sdb_prune_def prune_loop.simps prune_one_def window_size_def next_hash_def mem_used_def
  empty_commit_def empty_changes_def meta_insert_def empty_overlay_def fits_def base_def leads_def sdb_apply_pending_def
  nc_apply_pending_def apply_canonicalizations_def rw_apply_pending_def discard_descendants_def drop_block_def sdb_pin_def nc_pin_def
  nc_have_block_def rw_have_block_def written_def apply_state_commit_def write_changes_def Let_def dec_u32_def

lemmas demo_defs = demo_calls_def demo_changes_def demo_constraints_def demo_db_def fresh_node_def

lemma demo_admissible: "admissible demo_codec demo_st demo_content 0 demo_calls (fresh_node demo_constraints demo_db)"
  by (simp add: demo_defs call_defs) auto

lemma demo_run:
  "\<exists>n w. run_calls demo_codec demo_calls (fresh_node demo_constraints demo_db) = Some (Ok n) \<and> block_hashes (levels (non_canonical (n_sdb n))) = [4] \<and>
     sdb_pruning (n_sdb n) = Some w \<and> map dr_hash (death_rows w) = [2]"
  by (simp add: demo_defs call_defs)

section \<open>States stay readable\<close>

lemma path_hashes: "path_ok P b ls hs \<Longrightarrow> set hs \<subseteq> set (block_hashes ls)"
  by (induction P b ls hs rule: path_ok.induct) auto

lemma block_readable:
  assumes ok: "node_ok st content g cs L0 w n" and h: "h \<in> set (block_hashes (levels (non_canonical (n_sdb n)))) \<or> rw_have_block h w"
    and k: "k \<in> st h"
  shows "sdb_get k (\<lambda>k. Inr (state_column (n_disk n) k)) (n_sdb n) = (Ok (Some (content k)) :: (('e, 'c) StateDbError, _) result)"
proof -
  let ?nc = "non_canonical (n_sdb n)" and ?D = "dom (state_column (n_disk n))"
  note d = node_okD(8) [OF ok, unfolded disk_ok_def]
  have "last (g # n_chain n) \<in> set (drop (pending_number w) (g # n_chain n))"
    using window_number [OF ok] last_in_set [of "drop (pending_number w) (g # n_chain n)"] by (simp add: last_drop)
  then have base: "st (base g ?nc) \<subseteq> ?D"
    using d unfolding node_okD(4) [OF ok] by blast
  have "k \<in> ?D \<or> (\<exists>m. overlay_values ?nc k = Some (m, content k))"
  proof (cases "h \<in> set (block_hashes (levels ?nc))")
    case True
    then obtain ov where "ov \<in> set (concat (levels ?nc))" "h = bo_hash ov"
      unfolding hashes_concat by blast
    then show ?thesis
      using overlay_readable [OF node_okD(3) [OF ok] base] k by blast
  next
    case False
    then have "h \<in> set (map dr_hash (death_rows w))"
      using h by (auto simp: rw_have_block_def list_ex_iff dest: in_set_dropD)
    moreover have "h \<notin> set (nc_pending_canonicalizations ?nc)"
      using path_hashes [OF overlay_okD(4) [OF node_okD(3) [OF ok]]] False by blast
    ultimately have "h \<in> set (drop (pending_number w) (n_chain n))"
      unfolding node_okD(6) [OF ok] by (auto dest: in_set_dropD)
    then have "h \<in> set (drop (pending_number w) (g # n_chain n))"
      using set_drop_subset_set_drop [of "pending_number w" "Suc (pending_number w)" "g # n_chain n"] by auto
    then show ?thesis
      using d k by blast
  qed
  moreover have "v = content k" if "overlay_values ?nc k = Some (m, v)" for m v
    using overlay_okD(2) [OF node_okD(3) [OF ok]] that by (simp add: content_ok_def)
  ultimately show ?thesis
    using d by (auto simp: sdb_get_def nc_get_def db_read_def split: option.split)
qed

text \<open>
  C1. No state is lost. However the client interleaves insertions, canonicalizations, pins, transactions that are written
  and transactions that are lost, every call returns without a panic, and afterwards every trie node of the state of every
  block in the overlay and of every canonical block in the pruning window is found by \<open>get\<close>, with its value. The
  hypotheses say what the client sees to: the disk holds the first state, and each call is one the client may make.
\<close>
theorem states_readable:
  assumes "holds content (st g) db" "admissible c st content g xs (fresh_node cs db)"
  shows "\<exists>n w. run_calls c xs (fresh_node cs db) = Some (Ok n) \<and> sdb_pruning (n_sdb n) = Some w \<and>
    (\<forall>h k. h \<in> set (block_hashes (levels (non_canonical (n_sdb n)))) \<or> rw_have_block h w \<longrightarrow> k \<in> st h \<longrightarrow>
       sdb_get k (\<lambda>k. Inr (state_column (n_disk n) k)) (n_sdb n) = (Ok (Some (content k)) :: (('e, 'c) StateDbError, _) result))"
proof -
  obtain n L0 w where n: "run_calls c xs (fresh_node cs db) = Some (Ok n)" "node_ok st content g cs L0 w n"
    using run_calls_ok [OF node_ok_fresh [of content st g db cs] assms(2)] assms(1) by blast
  show ?thesis
    using n node_okD(2) [OF n(2)] block_readable [OF n(2)] by blast
qed

theorem states_readable_witness:
  "\<exists>n. run_calls demo_codec demo_calls (fresh_node demo_constraints demo_db) = Some (Ok n) \<and>
     sdb_get 12 (\<lambda>k. Inr (state_column (n_disk n) k)) (n_sdb n) = (Ok (Some [12]) :: ((unit, unit) StateDbError, _) result) \<and>
     sdb_get 14 (\<lambda>k. Inr (state_column (n_disk n) k)) (n_sdb n) = (Ok (Some [14]) :: ((unit, unit) StateDbError, _) result)"
proof -
  obtain n w where n: "run_calls demo_codec demo_calls (fresh_node demo_constraints demo_db) = Some (Ok n)"
    "block_hashes (levels (non_canonical (n_sdb n))) = [4]" "sdb_pruning (n_sdb n) = Some w" "map dr_hash (death_rows w) = [2]"
    using demo_run by (elim exE conjE) (rule that)
  have r: "sdb_get k (\<lambda>k. Inr (state_column (n_disk n) k)) (n_sdb n) = (Ok (Some (demo_content k)) :: ((unit, unit) StateDbError, _) result)"
    if "k \<in> demo_st 4" for k
    using states_readable [OF demo_holds demo_admissible, where ?'e = unit] n(1,2) that by force
  show ?thesis
    using n(1) r [of 12] r [of 14] by (simp add: demo_content_def)
qed

section \<open>Nothing else is kept\<close>

lemma exact_ok_fresh: "holds content (st g) db \<Longrightarrow> exact_ok st g (fresh_node cs db) (the (sdb_pruning (n_sdb (fresh_node cs db))))"
  by (auto simp: exact_ok_def fresh_node_def window_exact_def chain_states_def no_garbage_def written_def holds_def empty_overlay_def
      rw_pending_def split: if_splits)

lemma no_garbage_drop:
  assumes "no_garbage V w (map st hs)"
  shows "V \<subseteq> (\<Union>h \<in> set (drop (rw_pending w) hs). st h)"
proof
  fix k
  assume "k \<in> V"
  then obtain j where j: "rw_pending w \<le> j" "j < length hs" "k \<in> st (hs ! j)"
    using assms by (auto simp: no_garbage_def)
  then have "hs ! j \<in> set (drop (rw_pending w) hs)"
    by (auto simp: in_set_conv_nth intro!: exI [of _ "j - rw_pending w"])
  then show "k \<in> (\<Union>h \<in> set (drop (rw_pending w) hs). st h)"
    using j(3) by blast
qed

text \<open>
  C7. Pruning is exact: as long as no transaction is lost and no block deletes a node it inserts itself, the state column
  with the transaction written holds exactly the nodes of the states from the last pruned block to the newest canonical
  one, no node less and no node more.
\<close>
theorem column_exact:
  assumes "holds content (st g) db" "admissible c st content g xs (fresh_node cs db)" "list_all tidy xs"
  shows "\<exists>n w. run_calls c xs (fresh_node cs db) = Some (Ok n) \<and> sdb_pruning (n_sdb n) = Some w \<and>
    dom (state_column (written n)) =
      (\<Union>h \<in> set (drop (rw_pending w) (g # n_chain n @ nc_pending_canonicalizations (non_canonical (n_sdb n)))). st h)"
proof -
  obtain n L0 w where n: "run_calls c xs (fresh_node cs db) = Some (Ok n)" "node_ok st content g cs L0 w n" "exact_ok st g n w"
    using run_calls_ok [OF node_ok_fresh [of content st g db cs] assms(2)] assms(1,3) exact_ok_fresh [of content st g db cs] by blast
  have "dom (state_column (written n)) =
      (\<Union>h \<in> set (drop (rw_pending w) (g # n_chain n @ nc_pending_canonicalizations (non_canonical (n_sdb n)))). st h)"
  proof
    show "dom (state_column (written n)) \<subseteq>
      (\<Union>h \<in> set (drop (rw_pending w) (g # n_chain n @ nc_pending_canonicalizations (non_canonical (n_sdb n)))). st h)"
      using n(3) by (intro no_garbage_drop) (simp only: exact_ok_def chain_states_def)
    show "(\<Union>h \<in> set (drop (rw_pending w) (g # n_chain n @ nc_pending_canonicalizations (non_canonical (n_sdb n)))). st h)
      \<subseteq> dom (state_column (written n))"
      using node_okD(8) [OF n(2)] unfolding disk_ok_def chain_states_def keeps_states_drop by blast
  qed
  then show ?thesis
    using n node_okD(2) [OF n(2)] by blast
qed

theorem column_exact_witness:
  "\<exists>n w. run_calls demo_codec demo_calls (fresh_node demo_constraints demo_db) = Some (Ok n) \<and> sdb_pruning (n_sdb n) = Some w \<and>
    dom (state_column (written n)) =
      (\<Union>h \<in> set (drop (rw_pending w) (0 # n_chain n @ nc_pending_canonicalizations (non_canonical (n_sdb n)))). demo_st h)"
  by (rule column_exact [OF demo_holds demo_admissible]) (simp add: demo_calls_def demo_changes_def)

section \<open>Canonicalization\<close>

text \<open>
  C8. Applying canonicalizations keeps exactly the descendants of the new last canonical block: after any run, the levels
  that follow the canonicalized blocks keep, generation by generation and in order, the blocks whose ancestor at that
  distance is the last canonicalized block, and forks of any depth are discarded.
\<close>
theorem apply_keeps_descendants:
  assumes "holds content (st g) db" "admissible c st content g xs (fresh_node cs db)"
    "run_calls c xs (fresh_node cs db) = Some (Ok n)" "non_canonical (n_sdb n) = nc" "nc_pending_canonicalizations nc = pend" "pend \<noteq> []"
  shows "\<exists>s. sdb_apply_pending (n_sdb n) = (Ok s :: ('x, _) result) \<and>
    map_option fst (last_canonicalized (non_canonical s)) = Some (last pend) \<and>
    levels (non_canonical s) =
      map (\<lambda>i. filter (\<lambda>ov. ancestor (parents nc) (Suc i) (bo_hash ov) = Some (last pend)) (levels nc ! (length pend + i)))
        [0..<length (levels nc) - length pend]"
proof -
  obtain L0 w where ok: "node_ok st content g cs L0 w n"
    using run_calls_ok [OF node_ok_fresh [of content st g db cs] assms(2)] assms(1,3) by auto
  note o = node_okD(3) [OF ok, unfolded assms(4)]
  obtain nc' where nc': "(nc_apply_pending nc :: ('x, _) result) = Ok nc'" "levels nc' = below (parents nc) (levels nc) pend"
    "base g nc' = last pend"
    using overlay_apply [OF o, where ?'x = 'x] assms(5,6) by auto
  obtain w' where w': "(rw_apply_pending w :: ('x, _) result) = Ok w'"
    using rw_apply_ok [OF node_okD(5) [OF ok], where ?'x = 'x] by blast
  have lc: "map_option fst (last_canonicalized nc') = Some (last pend)"
    using nc'(1) assms(5,6) by (auto simp: nc_apply_pending_def apply_canonicalizations_def Let_def and_then_Ok_iff split: prod.splits)
  have "levels nc' = map (\<lambda>i. filter (\<lambda>ov. ancestor (parents nc) (Suc i) (bo_hash ov) = Some (last pend)) (levels nc ! (length pend + i)))
        [0..<length (levels nc) - length pend]"
    unfolding nc'(2)
    by (rule nth_equalityI) (use below_nth [OF overlay_okD(3,4) [OF o], unfolded assms(5), OF assms(6)] in auto)
  then show ?thesis
    using nc' w' lc node_okD(2) [OF ok] assms(4) by (auto simp: sdb_apply_pending_def)
qed

theorem apply_keeps_descendants_witness:
  "\<exists>n s. run_calls demo_codec (butlast demo_calls) (fresh_node demo_constraints demo_db) = Some (Ok n) \<and>
     map (map bo_hash) (levels (non_canonical (n_sdb n))) = [[2, 3], [4, 5]] \<and>
     sdb_apply_pending (n_sdb n) = (Ok s :: (unit, _) result) \<and> map (map bo_hash) (levels (non_canonical s)) = [[4]]"
proof -
  have a: "admissible demo_codec demo_st demo_content 0 (butlast demo_calls) (fresh_node demo_constraints demo_db)"
    by (simp add: demo_defs call_defs) auto
  obtain n where n: "run_calls demo_codec (butlast demo_calls) (fresh_node demo_constraints demo_db) = Some (Ok n)"
    "nc_pending_canonicalizations (non_canonical (n_sdb n)) = [2]" "map (map bo_hash) (levels (non_canonical (n_sdb n))) = [[2, 3], [4, 5]]"
    "parents (non_canonical (n_sdb n)) 4 = Some 2" "parents (non_canonical (n_sdb n)) 5 = Some 3"
    by (simp add: demo_defs call_defs)
  let ?nc = "non_canonical (n_sdb n)"
  obtain s where s: "sdb_apply_pending (n_sdb n) = (Ok s :: (unit, _) result)" "levels (non_canonical s) =
      map (\<lambda>i. filter (\<lambda>ov. ancestor (parents ?nc) (Suc i) (bo_hash ov) = Some 2) (levels ?nc ! (1 + i))) [0..<length (levels ?nc) - 1]"
    using apply_keeps_descendants [OF demo_holds a n(1) refl n(2), where ?'x = unit] by auto
  have l: "length (levels ?nc) = 2" "map bo_hash (levels ?nc ! 1) = [4, 5]"
    using arg_cong [OF n(3), of length] arg_cong [OF n(3), of "\<lambda>ls. ls ! 1"] by simp_all
  have "map bo_hash (filter (\<lambda>ov. parents ?nc (bo_hash ov) = Some 2) (levels ?nc ! 1)) = filter (\<lambda>h. parents ?nc h = Some 2) [4, 5]"
    unfolding l(2) [symmetric] by (simp add: filter_map comp_def)
  then show ?thesis
    using n s l(1) by auto
qed

section \<open>The bound on the window\<close>

text \<open>A block is pruned when the window is too long and the block is not pinned.\<close>

definition prunable :: "Constraints \<Rightarrow> ('h \<Rightarrow> nat option) \<Rightarrow> ('h, 'k) RefWindow \<Rightarrow> nat \<Rightarrow> bool" where
  "prunable cs pinned w q \<longleftrightarrow>
     (case max_blocks cs of Some m \<Rightarrow> m | None \<Rightarrow> 0) < length (death_rows w) - q \<and> pinned (dr_hash (death_rows w ! q)) = None"

lemma prune_loop_stops:
  assumes "max_mem cs = None" "prune_loop c cs pinned commit w = (commit, w)"
  shows "\<not> prunable cs pinned w (pending_prunings w)"
proof
  assume p: "prunable cs pinned w (pending_prunings w)"
  then have lt: "pending_prunings w < length (death_rows w)"
    by (auto simp: prunable_def)
  have "prune_loop c cs pinned commit w = prune_loop c cs pinned (fst (prune_one c commit w)) (w\<lparr>pending_prunings := Suc (pending_prunings w)\<rparr>)"
    using p assms(1) lt by (subst prune_loop.simps) (simp add: prunable_def window_size_def next_hash_def prune_one_sel [OF lt])
  then have "(commit, w) = prune_loop c cs pinned (fst (prune_one c commit w)) (w\<lparr>pending_prunings := Suc (pending_prunings w)\<rparr>)"
    unfolding assms(2) .
  then show False
    using prune_loop_ge [of "w\<lparr>pending_prunings := Suc (pending_prunings w)\<rparr>" c cs pinned "fst (prune_one c commit w)"]
    by (auto dest: sym)
qed

lemma prune_loop_steps:
  assumes "max_mem cs = None" "prune_loop c cs pinned commit w \<noteq> (commit, w)"
  shows "prunable cs pinned w (pending_prunings w)"
  using assms by (subst (asm) prune_loop.simps)
    (auto simp: prunable_def window_size_def next_hash_def not_le split: option.splits if_splits)

lemma prune_loop_prunable:
  assumes "max_mem cs = None"
  shows "\<not> prunable cs pinned w (pending_prunings (snd (prune_loop c cs pinned commit w))) \<and>
    (\<forall>q. pending_prunings w \<le> q \<and> q < pending_prunings (snd (prune_loop c cs pinned commit w)) \<longrightarrow> prunable cs pinned w q)"
proof (induction commit w rule: prune_loop_rule [of c cs pinned])
  case (stop commit w)
  then show ?case
    using prune_loop_stops [OF assms stop] by auto
next
  case (step commit w)
  let ?w1 = "w\<lparr>pending_prunings := Suc (pending_prunings w)\<rparr>"
  have "prune_loop c cs pinned commit w \<noteq> (commit, w)"
    using prune_loop_ge [of ?w1 c cs pinned "fst (prune_one c commit w)"] unfolding step.hyps(2) by auto
  then have p: "prunable cs pinned w (pending_prunings w)"
    by (rule prune_loop_steps [OF assms])
  have "prunable cs pinned ?w1 = prunable cs pinned w"
    by (simp add: prunable_def [abs_def])
  then have IH: "\<not> prunable cs pinned w (pending_prunings (snd (prune_loop c cs pinned commit w)))"
    "Suc (pending_prunings w) \<le> q \<Longrightarrow> q < pending_prunings (snd (prune_loop c cs pinned commit w)) \<Longrightarrow> prunable cs pinned w q" for q
    using step.IH unfolding step.hyps(2) by auto
  show ?case
    using IH p by (metis Suc_leI le_neq_implies_less)
qed

lemma remove_reinserted_same: "remove_reinserted ks w = Ok w' \<Longrightarrow> pending_prunings w' = pending_prunings w"
  by (induction ks w rule: remove_reinserted.induct) (auto simp: Let_def split: option.splits if_splits)

lemma note_canonical_same: "note_canonical c hash commit w = Ok (commit', w') \<Longrightarrow> pending_prunings w' = pending_prunings w"
  by (auto simp: note_canonical_def rw_import_def Let_def and_then_Ok_iff split: if_splits dest: remove_reinserted_same)

text \<open>
  C9. The window is cut to its bound: when \<open>canonicalize_block\<close> returns, the pruning window holds at most \<open>max_blocks\<close>
  blocks or its first block is pinned, and it has been cut no further than that: every block it gave up was in excess of
  the bound and not pinned.
\<close>
theorem canonicalize_prunes:
  assumes "canonicalize_block c hash s = (Ok (commit, s') :: (('e, 'c) StateDbError, _) result)"
    "sdb_mode s = Constrained cs" "max_mem cs = None" "max_blocks cs = Some m" "sdb_pruning s = Some w"
  shows "\<exists>w'. sdb_pruning s' = Some w' \<and>
    (window_size w' \<le> m \<or> (\<exists>h. next_hash w' = Some h \<and> sdb_pinned s' h \<noteq> None)) \<and>
    (\<forall>q. pending_prunings w \<le> q \<and> q < pending_prunings w' \<longrightarrow>
       m < length (death_rows w') - q \<and> sdb_pinned s' (dr_hash (death_rows w' ! q)) = None)"
proof -
  obtain c1 nc c2 w1 where n: "note_canonical c hash c1 w = (Ok (c2, w1) :: (('e, 'c) StateDbError, _) result)"
    "sdb_prune c c2 (s\<lparr>non_canonical := nc, sdb_pruning := Some w1\<rparr>) = (commit, s')"
    using assms(1,2,5) by (auto simp: canonicalize_block_def Let_def and_then_Ok_iff split: prod.splits)
  let ?w = "snd (prune_loop c cs (sdb_pinned s) c2 w1)"
  have s': "sdb_pruning s' = Some ?w" "sdb_pinned s' = sdb_pinned s"
    using n(2) assms(2) by (auto simp: sdb_prune_def Let_def split: prod.splits)
  have p: "pending_prunings w1 = pending_prunings w"
    by (rule note_canonical_same [OF n(1)])
  note l = prune_loop_prunable [OF assms(3), of "sdb_pinned s" w1 c c2, unfolded p]
  obtain pp where pp: "?w = w1\<lparr>pending_prunings := pp\<rparr>"
    using prune_loop_window by blast
  have "window_size ?w \<le> m \<or> (\<exists>h. next_hash ?w = Some h \<and> sdb_pinned s' h \<noteq> None)"
    using l assms(4) s' by (auto simp: prunable_def window_size_def next_hash_def not_less pp)
  then show ?thesis
    using l s' assms(4) by (auto simp: prunable_def pp)
qed

theorem canonicalize_prunes_witness:
  "\<exists>n commit s' w'. run_calls demo_codec (take 9 demo_calls) (fresh_node demo_constraints demo_db) = Some (Ok n) \<and>
     canonicalize_block demo_codec 2 (n_sdb n) = (Ok (commit, s') :: ((unit, unit) StateDbError, _) result) \<and>
     sdb_pruning s' = Some w' \<and> (window_size w' \<le> 1 \<or> (\<exists>h. next_hash w' = Some h \<and> sdb_pinned s' h \<noteq> None))"
proof -
  obtain n w commit s' where n: "run_calls demo_codec (take 9 demo_calls) (fresh_node demo_constraints demo_db) = Some (Ok n)"
    "sdb_mode (n_sdb n) = Constrained \<lparr>max_blocks = Some 1, max_mem = None\<rparr>" "sdb_pruning (n_sdb n) = Some w"
    "canonicalize_block demo_codec 2 (n_sdb n) = (Ok (commit, s') :: ((unit, unit) StateDbError, _) result)"
    by (simp add: demo_defs call_defs)
  show ?thesis
    using canonicalize_prunes [OF n(4,2) _ _ n(3)] n(1,4) by auto
qed

section \<open>The books of the overlay\<close>



section \<open>Opening the database again\<close>

lemma from_le_bytes_map: "from_le_bytes (map (\<lambda>i. of_nat (n div 256 ^ i)) [0..<m]) = n mod 256 ^ m"
proof (induction m arbitrary: n)
  case (Suc m)
  have "[0..<Suc m] = 0 # map Suc [0..<m]"
    by (simp add: upt_conv_Cons map_Suc_upt del: upt_Suc)
  then have "from_le_bytes (map (\<lambda>i. of_nat (n div 256 ^ i)) [0..<Suc m]) =
      unat (of_nat n :: u8) + 256 * from_le_bytes (map (\<lambda>i. of_nat (n div 256 div 256 ^ i)) [0..<m])"
    by (simp add: comp_def div_mult2_eq del: upt_Suc)
  then show ?case
    using Suc.IH [of "n div 256"] by (simp add: unat_of_nat mod_mult2_eq)
qed simp

lemma le_bytes_round_trip: "n < 2 ^ 64 \<Longrightarrow> from_le_bytes (le_bytes 8 n) = n"
  unfolding le_bytes_def from_le_bytes_map by (rule mod_less) simp

lemma dec_nats_replicate: "dec_nats a (replicate n 1 @ 0 # bs) = (a + n) # dec_nats 0 bs"
  by (induction n arbitrary: a) auto

lemma dec_nats_enc: "dec_nats 0 (enc_nats ns) = ns"
  unfolding enc_nats_def by (induction ns) (auto simp: dec_nats_replicate)

lemma demo_codec_ok: "codec_ok demo_codec"
  unfolding codec_ok_def by (auto simp: demo_codec_def dec_nats_enc le_bytes_round_trip) (simp_all add: le_bytes_def)

text \<open>
  C11. Opening the database again finds the window: after any run in which no transaction was lost and whose last
  transaction was written, reading the journal of the disk gives back the pruning window as it was in memory, rows,
  index and numbers. The hypothesis on the codec is that block numbers take eight bytes, pairs sixteen and the unit
  value none, and that decoding undoes encoding; block numbers stay below the width of their type.
\<close>
theorem window_survives_restart:
  assumes "codec_ok c" "holds content (st g) db" "meta_column db = (\<lambda>_. None)"
    "admissible c st content g xs (fresh_node cs db)" "RevertPending \<notin> set xs"
    "run_calls c (xs @ [ApplyPending]) (fresh_node cs db) = Some (Ok n)" "length (n_chain n) < 2 ^ 64"
  shows "\<exists>w. sdb_pruning (n_sdb n) = Some w \<and>
    rw_new c (\<lambda>k. Inr (meta_column (n_disk n) k)) True = Some (Ok w :: (('e, 'c) StateDbError, _) result)"
proof -
  obtain n1 L1 w1 where n1: "run_calls c xs (fresh_node cs db) = Some (Ok n1)" "node_ok st content g cs L1 w1 n1" "journaled c n1 w1"
    using journal_run [OF assms(1) journaled_fresh [OF assms(1,3)] node_ok_fresh assms(4,5)] assms(2) by blast
  have run: "run_calls c (ys @ [x]) m = (case run_calls c ys m of Some (Ok m') \<Rightarrow> do_call c x m' | r \<Rightarrow> r)" for ys x m
    by (induction ys arbitrary: m) (auto split: option.split result.split)
  have a: "do_call c ApplyPending n1 = Some (Ok n)"
    using assms(6) unfolding run n1(1) by simp
  obtain L w where ok: "node_ok st content g cs L w n"
    using apply_step [OF n1(2), of c] a unfolding step_ok_def by auto
  note ap = apply_journal [OF assms(1) n1(3,2) a]
  have w: "sdb_pruning (n_sdb n) = Some w"
    by (rule node_okD(2) [OF ok])
  have "journaled c n w"
    using ap(1) w by (simp add: keeps_journal_def)
  then obtain R where R: "journal_ok c R w (meta_column (n_disk n))"
    using assms(7) ap(2,4) unfolding journaled_def by auto
  have "pending_number w + length R < 2 ^ 64"
    using node_okD(5) [OF ok] R assms(7) ap(4) by (auto simp: window_ok_def chain_states_def journal_ok_def)
  then have "rw_new c (\<lambda>k. Inr (meta_column (n_disk n) k)) True = Some (Ok w :: (('e, 'c) StateDbError, _) result)"
    using node_okD(5) [OF ok] ap(3) w by (intro rw_new_reads_back [OF assms(1) R]) (auto simp: window_ok_def)
  then show ?thesis
    using w by blast
qed

theorem window_survives_restart_witness:
  "\<exists>n w. run_calls demo_codec demo_calls (fresh_node demo_constraints demo_db) = Some (Ok n) \<and> sdb_pruning (n_sdb n) = Some w \<and>
     map dr_hash (death_rows w) = [2] \<and>
     rw_new demo_codec (\<lambda>k. Inr (meta_column (n_disk n) k)) True = Some (Ok w :: ((unit, unit) StateDbError, _) result)"
proof -
  have calls: "demo_calls = butlast demo_calls @ [ApplyPending]" "RevertPending \<notin> set (butlast demo_calls)"
    by (simp_all add: demo_calls_def)
  have a: "admissible demo_codec demo_st demo_content 0 (butlast demo_calls) (fresh_node demo_constraints demo_db)"
    by (simp add: demo_defs call_defs) auto
  obtain n w where n: "run_calls demo_codec demo_calls (fresh_node demo_constraints demo_db) = Some (Ok n)" "n_chain n = [1, 2]"
    "sdb_pruning (n_sdb n) = Some w" "map dr_hash (death_rows w) = [2]"
    by (simp add: demo_defs call_defs)
  have "meta_column demo_db = (\<lambda>_. None)"
    by (simp add: demo_db_def)
  then have "\<exists>w. sdb_pruning (n_sdb n) = Some w \<and>
      rw_new demo_codec (\<lambda>k. Inr (meta_column (n_disk n) k)) True = Some (Ok w :: ((unit, unit) StateDbError, _) result)"
    using window_survives_restart [OF demo_codec_ok demo_holds _ a calls(2), of n] n(1,2) calls(1) by simp
  then show ?thesis
    using n by auto
qed




lemma meta_keys_differ:
  assumes "codec_ok c"
  shows "noncanonical_journal_key c a b \<noteq> to_meta_key LAST_CANONICAL (enc_unit c)" "to_meta_key LAST_CANONICAL (enc_unit c) \<noteq> noncanonical_journal_key c a b"
    "to_meta_key PRUNING_MODE (enc_unit c) \<noteq> to_meta_key LAST_CANONICAL (enc_unit c)" "to_meta_key LAST_CANONICAL (enc_unit c) \<noteq> to_meta_key PRUNING_MODE (enc_unit c)"
    "to_meta_key LAST_PRUNED (enc_unit c) \<noteq> to_meta_key LAST_CANONICAL (enc_unit c)" "to_meta_key LAST_CANONICAL (enc_unit c) \<noteq> to_meta_key LAST_PRUNED (enc_unit c)"
    "pruning_journal_key c x \<noteq> to_meta_key LAST_CANONICAL (enc_unit c)" "to_meta_key LAST_CANONICAL (enc_unit c) \<noteq> pruning_journal_key c x"
    "noncanonical_journal_key c a b \<noteq> to_meta_key PRUNING_MODE (enc_unit c)" "noncanonical_journal_key c a b \<noteq> to_meta_key LAST_PRUNED (enc_unit c)"
    "noncanonical_journal_key c a b \<noteq> pruning_journal_key c x"
  using key_lengths [OF assms] by (metis numeral_eq_iff num.distinct num.inject)+




text \<open>
  C13. A lost first transaction is not taken back completely: the first block of an empty overlay makes its parent the last
  canonical block in memory and writes this to the metadata; \<open>revert_pending\<close> undoes the insertion but not the last
  canonical block, so inserting the block again does not write it, and on a disk with only the second transaction the
  overlay opens without the block.
\<close>
theorem reverted_first_block_is_lost:
  fixes c :: "('h, 'k, 'c) codec"
  assumes "codec_ok c" "0 < number"
  shows "\<exists>commit1 nc1 nc2 commit2 nc3.
    nc_insert c hash number parent changes (empty_overlay None) = (Ok (commit1, nc1) :: (('e, 'c) StateDbError, _) result) \<and>
    to_meta_key LAST_CANONICAL (enc_unit c) \<in> fst ` set (cs_inserted (commit_meta commit1)) \<and>
    nc_revert_pending nc1 = (Ok nc2 :: (('e, 'c) StateDbError, _) result) \<and> levels nc2 = [] \<and>
    nc_insert c hash number parent changes nc2 = (Ok (commit2, nc3) :: (('e, 'c) StateDbError, _) result) \<and> block_hashes (levels nc3) = [hash] \<and>
    nc_new c (\<lambda>k. Inr (write_changes (commit_meta commit2) (\<lambda>_. None) k)) =
      Some (Ok (empty_overlay None) :: (('e, 'c) StateDbError, _) result)"
  using assms(2) meta_keys_differ(1,2) [OF assms(1)]
  by (cases number) (simp_all add: nc_insert_def check_insert_def front_block_number_def empty_overlay_def meta_insert_def empty_commit_def empty_changes_def
      nc_revert_pending_def revert_insertions_def Let_def nc_new_def db_read_def write_changes_def)

theorem reverted_first_block_is_lost_witness:
  "\<exists>commit1 nc1 nc2 commit2 nc3.
    nc_insert demo_codec 2 1 1 (demo_changes [12] []) (empty_overlay None) = (Ok (commit1, nc1) :: ((unit, unit) StateDbError, _) result) \<and>
    to_meta_key LAST_CANONICAL (enc_unit demo_codec) \<in> fst ` set (cs_inserted (commit_meta commit1)) \<and>
    nc_revert_pending nc1 = (Ok nc2 :: ((unit, unit) StateDbError, _) result) \<and> levels nc2 = [] \<and>
    nc_insert demo_codec 2 1 1 (demo_changes [12] []) nc2 = (Ok (commit2, nc3) :: ((unit, unit) StateDbError, _) result) \<and>
    block_hashes (levels nc3) = [2] \<and>
    nc_new demo_codec (\<lambda>k. Inr (write_changes (commit_meta commit2) (\<lambda>_. None) k)) =
      Some (Ok (empty_overlay None) :: ((unit, unit) StateDbError, _) result)"
  by (rule reverted_first_block_is_lost [OF demo_codec_ok]) simp

end
