(* ===== verification/Spec2Isabelle.thy ===== *)
theory Spec2Isabelle
  imports Prelude Allocator AllocatorSafety SystemAccounts SystemAccountsSafety Balances BalancesSafety BalancesRun
    BalancesProperties BTreeMaps Changeset ChangesetRefinement OverlayedChanges OverlayRefinement OverlayProperties
    ForkTree ForkTreeSafety ForkTreeFinality ForkTreeSearch ForkTreeProperties BigUint BigUintArith
    BigUintConversions BigUintDivision BigUintProperties StateDbPruning StateDbOverlay StateDb StateDbPruningSafety
    StateDbOverlaySafety StateDbOverlayInvariant StateDbOverlayRuns StateDbRuns StateDbJournal StateDbProperties
begin

text \<open>
  A verification of parts of a Substrate node, a framework for blockchains in Rust.

  \<^bold>\<open>The program.\<close> A node executes blocks. The client gives the runtime, a Wasm program, a heap in its linear memory;
  the runtime's pallets keep their state in a key-value store, whose changes the client collects in an overlay until
  the block is done; the client keeps the blocks that are not final yet, and what belongs to them, in trees of forks.
  The parts modelled here are one or more of each layer:

  \<^item> the heap allocator of the Wasm runtime, \<^verbatim>\<open>primitives/allocator/src/freeing_bump.rs\<close>;
  \<^item> the account store and its reference counters in the system pallet, \<^verbatim>\<open>frame/system/src/lib.rs\<close>, and the balances
    pallet on top of it, \<^verbatim>\<open>frame/balances/src/lib.rs\<close>, with the traits and error types they share;
  \<^item> the transactional overlay, \<^verbatim>\<open>primitives/state-machine/src/overlayed_changes/\<close> (\<^verbatim>\<open>changeset.rs\<close>, \<^verbatim>\<open>mod.rs\<close>,
    \<^verbatim>\<open>offchain.rs\<close>);
  \<^item> the fork tree, \<^verbatim>\<open>utils/fork-tree/src/lib.rs\<close>;
  \<^item> the state database, which decides when a node of a state is deleted from disk, \<^verbatim>\<open>client/state-db/src/\<close> (\<^verbatim>\<open>lib.rs\<close>,
    \<^verbatim>\<open>noncanonical.rs\<close>, \<^verbatim>\<open>pruning.rs\<close>), and \<^verbatim>\<open>apply_state_commit\<close> of \<^verbatim>\<open>client/db/src/lib.rs\<close>, which writes its commits;
  \<^item> big integers and the 128-bit helpers, \<^verbatim>\<open>primitives/arithmetic/src/biguint.rs\<close> and \<^verbatim>\<open>helpers_128bit.rs\<close>.

  \<^bold>\<open>Conventions.\<close> Rust functions are HOL functions. \<open>Prelude\<close> has the result type \<open>Ok\<close>, \<open>Err\<close>, \<open>Panic\<close>: a failed
  \<open>expect\<close> or \<open>assert!\<close>, an index out of range and a division by zero are \<open>Panic\<close>. A method on \<open>&mut self\<close> returns the new
  state beside its result, also with an error, since Rust keeps what was written before. Machine integers are words that
  wrap as in a release build, or, for the 128-bit balances, natural numbers with the bound \<open>BAL_MAX\<close> and the checked,
  saturating or wrapping operation of the code written out. Ordered maps are sorted association lists (\<open>BTreeMaps\<close>).

  \<^bold>\<open>The theories.\<close>

  \<^item> \<open>Allocator\<close>: \<open>Order\<close>, \<open>Link\<close>, \<open>Header\<close> with their encodings, the \<open>Memory\<close> trait as a record of operations, its
    implementation for byte slices, \<open>bump\<close>, \<open>allocate\<close>, \<open>deallocate\<close> and the poisoning guard. \<open>AllocatorSafety\<close>: the
    locale \<open>linear_memory\<close>, interpreted on the byte slices; the invariant that the chunks tile the heap and the free
    lists are chains through their headers, for every run of the allocator whose owner respects the chunks. Live
    allocations are aligned, inside the memory and disjoint; every outcome of a request is characterised; errors poison.
  \<^item> \<open>SystemAccounts\<close>: \<open>AccountInfo\<close>, events, \<open>inc_consumers\<close> to \<open>dec_providers\<close>, \<open>try_mutate_exists\<close>.
    \<open>SystemAccountsSafety\<close>: the locale \<open>stored_map\<close>, the contract the balances pallet relies on, interpreted on the
    system pallet; an account that is referred to stays.
  \<^item> \<open>Balances\<close>: account data, imbalances with their destructors, the operations of \<open>Currency\<close>, \<open>ReservableCurrency\<close> and
    \<open>LockableCurrency\<close>, the four calls and the genesis. \<open>BalancesSafety\<close> and \<open>BalancesRun\<close>: the books, that is the
    issuance and the imbalances outstanding against the sum of all accounts, for each operation and for every state
    reached from genesis. \<open>BalancesProperties\<close>: exact outcomes of the operations, locks, round trips and overflow.
  \<^item> \<open>Changeset\<close> and \<open>OverlayedChanges\<close>: versioned entries, the keys written per transaction, the lock between client
    and runtime, child tries and offchain indexing, draining and iteration. \<open>ChangesetRefinement\<close> and
    \<open>OverlayRefinement\<close>: both implement stacks of maps. \<open>OverlayProperties\<close>: the locale \<open>nested_transactions\<close>, interpreted
    on one change set and on the whole overlay: a program of writes and nested transactions leaves exactly what no
    transaction around it rolled back. Any sequence of calls refines the stacks and never panics.
  \<^item> \<open>ForkTree\<close>: nodes, import, the three finalizations, search by index and by reference, pruning and the iterators,
    with the client's ancestry function as a fallible parameter. \<open>ForkTreeSafety\<close>, \<open>ForkTreeFinality\<close>, \<open>ForkTreeSearch\<close>:
    under the hypothesis \<open>ancestry\<close>, that the client answers by a strict order in which the ancestors of a block form
    a chain with growing numbers, the nodes under a node are exactly its descendents, and each operation keeps exactly
    the nodes its description says. \<open>ForkTreeProperties\<close> has the properties, for every tree reached.
  \<^item> \<open>BigUint\<close>: vectors of 32-bit limbs with 64-bit arithmetic on them, Knuth's long division, conversions, the order,
    and on \<open>u128\<close> the binary greatest common divisor and multiplication by a fraction. \<open>BigUintArith\<close>,
    \<open>BigUintConversions\<close>, \<open>BigUintDivision\<close>: the value of a vector as a natural number, and that every loop computes on
    values, with no wrap-around. \<open>BigUintProperties\<close> has the properties.
  \<^item> \<open>StateDbPruning\<close> (\<open>RefWindow\<close>, the canonical blocks whose deletions are due), \<open>StateDbOverlay\<close> (\<open>NonCanonicalOverlay\<close>,
    the levels of blocks that are not canonical yet, with counted values, pins and pending changes) and \<open>StateDb\<close>
    (\<open>StateDbSync\<close> over both, and the two columns on disk). The codec is a record of functions, with \<open>codec_ok\<close> and \<open>pairs_ok\<close> as
    the hypotheses on it where a result depends on it, and the database that is opened is a read function that may fail.
    \<open>StateDbPruningSafety\<close>, \<open>StateDbOverlaySafety\<close>, \<open>StateDbOverlayInvariant\<close>, \<open>StateDbOverlayRuns\<close>: the books of the window and
    of the overlay, for each operation. \<open>StateDbRuns\<close>: a node is the database, the disk, the transaction not yet written and
    the chain of canonical blocks; for all sequences of calls a client may make (\<open>admissible\<close>) the states of the blocks
    in the overlay and in the window stay readable. \<open>StateDbJournal\<close>: the journal on disk describes the window.
    \<open>StateDbProperties\<close> has the properties: readability, exact pruning, the window after a restart, and what a restart loses.

  \<^bold>\<open>Loops.\<close> Recursions are total, structural or with a measure (the doubling of \<open>next_power_of_two\<close>, the halving
  of \<open>gcd\<close>, the decreasing estimate of the long division, the shrinking weight of the trees left in a finalization, the window
  left to prune), except for loops of the state database whose end depends on data: the reading of the journals and the
  walk from an unpinned block to its ancestors are partial functions into \<open>option\<close>, where \<open>None\<close> is a loop that does not
  end. That they return is proved: \<open>release_ancestors_ok\<close> for the walk, within every admissible run, \<open>rw_new_reads_back\<close>
  for the pruning journal, and \<open>nc_new_returns\<close> for the other journal, on a disk where the records of each level and the
  levels come to an end. The one bound is the depth of \<open>discard_descendants\<close>: each call uses up one level, so
  the number of levels is enough.

  \<^bold>\<open>What the theorems show of the code beyond its documentation.\<close> Slashing or withdrawing below the existential deposit
  from an account with consumers takes the balance off the issuance although the account stays; \<open>set_balance\<close> wraps; the
  allocator's bump pointer wraps in a memory close to 4 GiB; a client error while the fork tree is finalized or pruned
  loses roots; \<open>modify\<close> of the change set forgets an extrinsic; a remainder of the long division can have more limbs
  than documented, and \<open>multiply_by_rational\<close> rounds in one of its paths only; opening the state database again stops at
  a gap that a discarded fork left in the journal, and a first block whose transaction was lost and repeated is not found.

  \<^bold>\<open>Not modelled.\<close> The trie and its roots, the key-value stores under the state database, the Wasm engines, hashing and
  signatures, networking and the voting protocol are external crates or asynchronous input and output. The code that procedural
  macros generate (dispatch tables, storage accessors, codecs) exists only at build time; the storage maps, events and errors the modelled
  pallets declare are read from the declarations. Logging, statistics counters and weights are left out. The pallets
  above balances (staking, governance, contracts) and the client's import queues are not reached.
\<close>

end
